(* ===== verification/Prelude.thy ===== *)
theory Prelude
  imports Main "HOL-Library.Word"
begin

text \<open>
  The prelude of the development: the names of the machine types, the monad in which the
  kernel's operations are written, its weakest-precondition calculus, and the generic lemmas
  on lists, words and byte memories that the components share.

  A kernel operation takes the kernel state and a tape of interference and gives a result.
  The tape is a list of state transformers: each time the running process gives up the
  processor (\<open>sched\<close>), one entry of the tape says what the rest of the machine
  did before the process runs again. A result is a value with the new state and
  the rest of the tape; a call of \<open>panic\<close>; a \<open>Fault\<close>, where the code reads or writes
  outside the object it addresses, so that C gives it no meaning; or \<open>Stuck\<close>: the process gave up the
  processor and the tape has no further entry, so it never runs again within this tape, or it loops
  for ever.
\<close>

named_theorems wp_rules \<open>weakest preconditions of the kernel's operations\<close>
named_theorems pwp_rules \<open>partial correctness of the kernel's operations\<close>
named_theorems frame_intros \<open>parts of the state that an operation leaves alone\<close>
named_theorems preserves_intros \<open>operations that keep an invariant\<close>
named_theorems kdefs \<open>definitions of the kernel operations, for evaluation\<close>

type_synonym u8 = "8 word"
type_synonym u16 = "16 word"
type_synonym u32 = "32 word"

section \<open>Operations with state, panics and interference\<close>

datatype ('s, 'a) result = Ret 'a 's "('s \<Rightarrow> 's) list" | Panic string | Fault string | Stuck

type_synonym ('s, 'a) kop = "'s \<Rightarrow> ('s \<Rightarrow> 's) list \<Rightarrow> ('s, 'a) result"

definition return :: "'a \<Rightarrow> ('s, 'a) kop" where
  "return x = (\<lambda>s e. Ret x s e)"

definition bind :: "('s, 'a) kop \<Rightarrow> ('a \<Rightarrow> ('s, 'b) kop) \<Rightarrow> ('s, 'b) kop" where
  "bind m f = (\<lambda>s e. case m s e of Ret x s' e' \<Rightarrow> f x s' e' | Panic msg \<Rightarrow> Panic msg | Fault msg \<Rightarrow> Fault msg | Stuck \<Rightarrow> Stuck)"

text \<open>Sequencing of two statements whose first has no result.\<close>

definition andthen :: "('s, unit) kop \<Rightarrow> ('s, 'b) kop \<Rightarrow> ('s, 'b) kop" where
  "andthen m n = bind m (\<lambda>_. n)"

definition gets :: "('s \<Rightarrow> 'a) \<Rightarrow> ('s, 'a) kop" where
  "gets f = (\<lambda>s e. Ret (f s) s e)"

definition modify :: "('s \<Rightarrow> 's) \<Rightarrow> ('s, unit) kop" where
  "modify f = (\<lambda>s e. Ret () (f s) e)"

definition panic :: "string \<Rightarrow> ('s, 'a) kop" where
  "panic msg = (\<lambda>s e. Panic msg)"

definition fault :: "string \<Rightarrow> ('s, 'a) kop" where
  "fault msg = (\<lambda>s e. Fault msg)"

definition skip :: "('s, unit) kop" where
  "skip = return ()"

definition whenM :: "bool \<Rightarrow> ('s, unit) kop \<Rightarrow> ('s, unit) kop" where
  "whenM b m = (if b then m else skip)"

text \<open>The body of a \<open>for\<close> loop over the elements of a list.\<close>

fun forM :: "'a list \<Rightarrow> ('a \<Rightarrow> ('s, unit) kop) \<Rightarrow> ('s, unit) kop" where
  "forM [] f = skip"
| "forM (x # xs) f = andthen (f x) (forM xs f)"

text \<open>A sequence of statements without a result.\<close>

fun seqM :: "('s, unit) kop list \<Rightarrow> ('s, unit) kop" where
  "seqM [] = skip"
| "seqM (m # ms) = andthen m (seqM ms)"

text \<open>An endless loop.\<close>

definition hang :: "('s, 'a) kop" where
  "hang = (\<lambda>s e. Stuck)"

text \<open>
  The processor is given up: the next entry of the tape runs. With an empty tape the process
  does not come back.
\<close>

definition yield_cpu :: "('s, unit) kop" where
  "yield_cpu = (\<lambda>s e. case e of [] \<Rightarrow> Stuck | f # e' \<Rightarrow> Ret () (f s) e')"

section \<open>Weakest preconditions\<close>

text \<open>
  \<open>wp m Q\<close> holds where \<open>m\<close> returns, without panic and without running out of tape, in a
  state with \<open>Q\<close>. \<open>wlp m Q\<close> also admits \<open>Stuck\<close>; neither admits a panic or a fault.
\<close>

definition wp :: "('s, 'a) kop \<Rightarrow> ('a \<Rightarrow> 's \<Rightarrow> ('s \<Rightarrow> 's) list \<Rightarrow> bool) \<Rightarrow> 's \<Rightarrow> ('s \<Rightarrow> 's) list \<Rightarrow> bool" where
  "wp m Q s e = (case m s e of Ret x s' e' \<Rightarrow> Q x s' e' | Panic _ \<Rightarrow> False | Fault _ \<Rightarrow> False | Stuck \<Rightarrow> False)"

definition wlp :: "('s, 'a) kop \<Rightarrow> ('a \<Rightarrow> 's \<Rightarrow> ('s \<Rightarrow> 's) list \<Rightarrow> bool) \<Rightarrow> 's \<Rightarrow> ('s \<Rightarrow> 's) list \<Rightarrow> bool" where
  "wlp m Q s e = (case m s e of Ret x s' e' \<Rightarrow> Q x s' e' | Panic _ \<Rightarrow> False | Fault _ \<Rightarrow> False | Stuck \<Rightarrow> True)"

lemma wp_return [wp_rules]: "wp (return x) Q = Q x"
  by (simp add: fun_eq_iff wp_def return_def)

lemma wp_bind [wp_rules]: "wp (bind m f) Q = wp m (\<lambda>x. wp (f x) Q)"
  by (simp add: fun_eq_iff wp_def bind_def split: result.split)

lemma wp_andthen [wp_rules]: "wp (andthen m n) Q = wp m (\<lambda>_. wp n Q)"
  by (simp add: andthen_def wp_bind)

lemma wp_gets [wp_rules]: "wp (gets f) Q = (\<lambda>s. Q (f s) s)"
  by (simp add: fun_eq_iff wp_def gets_def)

lemma wp_modify [wp_rules]: "wp (modify f) Q = (\<lambda>s. Q () (f s))"
  by (simp add: fun_eq_iff wp_def modify_def)

lemma wp_panic [wp_rules]: "wp (panic msg) Q = (\<lambda>s e. False)"
  by (simp add: fun_eq_iff wp_def panic_def)

lemma wp_fault [wp_rules]: "wp (fault msg) Q = (\<lambda>s e. False)"
  by (simp add: fun_eq_iff wp_def fault_def)

lemma wp_hang [wp_rules]: "wp hang Q = (\<lambda>s e. False)"
  by (simp add: fun_eq_iff wp_def hang_def)

lemma wlp_hang [wp_rules]: "wlp hang Q = (\<lambda>s e. True)"
  by (simp add: fun_eq_iff wlp_def hang_def)

lemma wp_skip [wp_rules]: "wp skip Q = Q ()"
  by (simp add: skip_def wp_return)

lemma wp_when [wp_rules]: "wp (whenM b m) Q = (if b then wp m Q else Q ())"
  by (simp add: whenM_def wp_skip)

lemma wp_if [wp_rules]: "wp (if b then m else n) Q = (if b then wp m Q else wp n Q)"
  by simp

lemma wp_yield [wp_rules]:
  "wp yield_cpu Q = (\<lambda>s e. case e of [] \<Rightarrow> False | f # e' \<Rightarrow> Q () (f s) e')"
  by (simp add: fun_eq_iff wp_def yield_cpu_def split: list.split)

lemma wlp_return [wp_rules]: "wlp (return x) Q = Q x"
  by (simp add: fun_eq_iff wlp_def return_def)

lemma wlp_bind [wp_rules]: "wlp (bind m f) Q = wlp m (\<lambda>x. wlp (f x) Q)"
  by (simp add: fun_eq_iff wlp_def bind_def split: result.split)

lemma wlp_andthen [wp_rules]: "wlp (andthen m n) Q = wlp m (\<lambda>_. wlp n Q)"
  by (simp add: andthen_def wlp_bind)

lemma wlp_gets [wp_rules]: "wlp (gets f) Q = (\<lambda>s. Q (f s) s)"
  by (simp add: fun_eq_iff wlp_def gets_def)

lemma wlp_modify [wp_rules]: "wlp (modify f) Q = (\<lambda>s. Q () (f s))"
  by (simp add: fun_eq_iff wlp_def modify_def)

lemma wlp_panic [wp_rules]: "wlp (panic msg) Q = (\<lambda>s e. False)"
  by (simp add: fun_eq_iff wlp_def panic_def)

lemma wlp_fault [wp_rules]: "wlp (fault msg) Q = (\<lambda>s e. False)"
  by (simp add: fun_eq_iff wlp_def fault_def)

lemma wlp_skip [wp_rules]: "wlp skip Q = Q ()"
  by (simp add: skip_def wlp_return)

lemma wlp_when [wp_rules]: "wlp (whenM b m) Q = (if b then wlp m Q else Q ())"
  by (simp add: whenM_def wlp_skip)

lemma wlp_if [wp_rules]: "wlp (if b then m else n) Q = (if b then wlp m Q else wlp n Q)"
  by simp

lemma wlp_yield [wp_rules]:
  "wlp yield_cpu Q = (\<lambda>s e. case e of [] \<Rightarrow> True | f # e' \<Rightarrow> Q () (f s) e')"
  by (simp add: fun_eq_iff wlp_def yield_cpu_def split: list.split)

lemma wp_mono: "wp m P s e \<Longrightarrow> (\<And>x t d. P x t d \<Longrightarrow> Q x t d) \<Longrightarrow> wp m Q s e"
  by (simp add: wp_def split: result.splits)

lemma wlp_mono: "wlp m P s e \<Longrightarrow> (\<And>x t d. P x t d \<Longrightarrow> Q x t d) \<Longrightarrow> wlp m Q s e"
  by (simp add: wlp_def split: result.splits)

lemma wp_wlp: "wp m Q s e \<Longrightarrow> wlp m Q s e"
  by (simp add: wp_def wlp_def split: result.splits)

lemma wp_iff: "wp m Q s e \<longleftrightarrow> (\<exists>x s' e'. m s e = Ret x s' e' \<and> Q x s' e')"
  by (simp add: wp_def split: result.split)

lemma wp_retD: "wp m Q s e \<Longrightarrow> m s e = Ret x s' e' \<Longrightarrow> Q x s' e'"
  by (simp add: wp_def)

lemma wlp_retD: "wlp m Q s e \<Longrightarrow> m s e = Ret x s' e' \<Longrightarrow> Q x s' e'"
  by (simp add: wlp_def)

text \<open>An operation whose weakest precondition is a substitution returns exactly that.\<close>

lemma wp_eq_ret: "(\<And>Q. wp m Q s e = Q x t d) \<Longrightarrow> m s e = Ret x t d"
proof -
  assume "\<And>Q. wp m Q s e = Q x t d"
  then have "wp m (\<lambda>a b c. a = x \<and> b = t \<and> c = d) s e" by simp
  then show ?thesis by (auto simp: wp_iff)
qed

text \<open>The definitions of the monad, for the evaluation of closed runs.\<close>

lemmas monad_defs [kdefs] =
  return_def bind_def andthen_def gets_def modify_def panic_def fault_def skip_def hang_def whenM_def yield_cpu_def

text \<open>A loop over a list keeps what every iteration keeps.\<close>

lemma wp_forM_inv:
  assumes step: "\<And>x t d. x \<in> set xs \<Longrightarrow> I t d \<Longrightarrow> wp (f x) (\<lambda>_. I) t d"
    and start: "I s e"
  shows "wp (forM xs f) (\<lambda>_. I) s e"
  using assms
proof (induction xs arbitrary: s e)
  case Nil
  then show ?case by (simp add: wp_rules)
next
  case (Cons x xs)
  have "wp (f x) (\<lambda>_. I) s e" using Cons.prems by simp
  then have "wp (f x) (\<lambda>_. wp (forM xs f) (\<lambda>_. I)) s e"
    by (rule wp_mono) (use Cons in auto)
  then show ?case by (simp add: wp_rules)
qed

section \<open>Partial correctness and frames\<close>

text \<open>
  \<open>pwp m Q\<close> holds where every return of \<open>m\<close> is in a state with \<open>Q\<close>; panics and faults are admitted. Invariants are shown
  with it. An operation with \<open>frame F m\<close> changes nothing of the part \<open>F\<close> of the state and never gives up the processor.
\<close>

definition pwp :: "('s, 'a) kop \<Rightarrow> ('a \<Rightarrow> 's \<Rightarrow> ('s \<Rightarrow> 's) list \<Rightarrow> bool) \<Rightarrow> 's \<Rightarrow> ('s \<Rightarrow> 's) list \<Rightarrow> bool" where
  "pwp m Q s e = (case m s e of Ret x s' e' \<Rightarrow> Q x s' e' | Panic _ \<Rightarrow> True | Fault _ \<Rightarrow> True | Stuck \<Rightarrow> True)"

definition frame :: "('s \<Rightarrow> 'f) \<Rightarrow> ('s, 'a) kop \<Rightarrow> bool" where
  "frame F m \<longleftrightarrow> (\<forall>s e x t d. m s e = Ret x t d \<longrightarrow> F t = F s \<and> d = e)"

lemma pwp_basic [pwp_rules]:
  "pwp (return x) Q = Q x"
  "pwp (gets f) Q2 = (\<lambda>s. Q2 (f s) s)"
  "pwp (modify g) Q3 = (\<lambda>s. Q3 () (g s))"
  "pwp (panic msg) Q4 = (\<lambda>s e. True)"
  "pwp (fault msg) Q5 = (\<lambda>s e. True)"
  "pwp hang Q6 = (\<lambda>s e. True)"
  "pwp skip Q7 = Q7 ()"
  by (simp_all add: fun_eq_iff pwp_def monad_defs)

lemma pwp_bind [pwp_rules]: "pwp (bind m f) Q = pwp m (\<lambda>x. pwp (f x) Q)"
  by (simp add: fun_eq_iff pwp_def bind_def split: result.split)

lemma pwp_andthen [pwp_rules]: "pwp (andthen m n) Q = pwp m (\<lambda>_. pwp n Q)"
  by (simp add: andthen_def pwp_bind)

lemma pwp_when [pwp_rules]: "pwp (whenM b m) Q = (if b then pwp m Q else Q ())"
  by (simp add: whenM_def pwp_basic)

lemma pwp_if [pwp_rules]: "pwp (if b then m else n) Q = (if b then pwp m Q else pwp n Q)"
  by simp

lemma pwp_yield [pwp_rules]:
  "pwp yield_cpu Q = (\<lambda>s e. case e of [] \<Rightarrow> True | f # e' \<Rightarrow> Q () (f s) e')"
  by (simp add: fun_eq_iff pwp_def yield_cpu_def split: list.split)

lemma pwp_mono: "pwp m P s e \<Longrightarrow> (\<And>x t d. P x t d \<Longrightarrow> Q x t d) \<Longrightarrow> pwp m Q s e"
  by (simp add: pwp_def split: result.splits)

lemma wlp_pwp: "wlp m Q s e \<Longrightarrow> pwp m Q s e"
  by (simp add: wlp_def pwp_def split: result.splits)

lemma pwp_retD: "pwp m Q s e \<Longrightarrow> m s e = Ret x t d \<Longrightarrow> Q x t d"
  by (simp add: pwp_def)

lemma frame_pwp: "frame F m \<longleftrightarrow> (\<forall>s e. pwp m (\<lambda>x t d. F t = F s \<and> d = e) s e)"
  by (simp add: frame_def pwp_def split: result.split)

lemma pwp_frame:
  assumes "frame F m" and "\<And>x t. F t = F s \<Longrightarrow> Q x t e"
  shows "pwp m Q s e"
proof -
  have "pwp m (\<lambda>x t d. F t = F s \<and> d = e) s e" using assms(1) by (simp add: frame_pwp)
  then show ?thesis by (rule pwp_mono) (use assms(2) in simp)
qed

lemma frame_basic [frame_intros]:
  "frame F (return x)" "frame F (gets f)" "frame F (panic msg)" "frame F (fault msg)"
  "frame F hang" "frame F skip"
  by (simp_all add: frame_def monad_defs)

lemma frame_modify [frame_intros]: "(\<And>s. F (g s) = F s) \<Longrightarrow> frame F (modify g)"
  by (simp add: frame_def modify_def)

lemma frame_bind [frame_intros]: "frame F m \<Longrightarrow> (\<And>x. frame F (f x)) \<Longrightarrow> frame F (bind m f)"
  unfolding frame_pwp pwp_bind
proof (intro allI)
  fix s e
  assume m: "\<forall>s e. pwp m (\<lambda>x t d. F t = F s \<and> d = e) s e"
    and f: "\<And>x. \<forall>s e. pwp (f x) (\<lambda>x t d. F t = F s \<and> d = e) s e"
  from m have "pwp m (\<lambda>x t d. F t = F s \<and> d = e) s e" by blast
  then show "pwp m (\<lambda>x. pwp (f x) (\<lambda>x t d. F t = F s \<and> d = e)) s e"
  proof (rule pwp_mono)
    fix x t d assume h: "F t = F s \<and> d = e"
    have "pwp (f x) (\<lambda>x u d'. F u = F t \<and> d' = d) t d" using f by blast
    then show "pwp (f x) (\<lambda>x t d. F t = F s \<and> d = e) t d" using h by simp
  qed
qed

lemma frame_andthen [frame_intros]: "frame F m \<Longrightarrow> frame F n \<Longrightarrow> frame F (andthen m n)"
  by (simp add: andthen_def frame_bind)

lemma frame_if [frame_intros]: "frame F m \<Longrightarrow> frame F n \<Longrightarrow> frame F (if b then m else n)"
  by simp

lemma frame_when [frame_intros]: "frame F m \<Longrightarrow> frame F (whenM b m)"
  by (simp add: whenM_def frame_basic)

lemma frame_forM [frame_intros]: "(\<And>x. frame F (f x)) \<Longrightarrow> frame F (forM xs f)"
  by (induction xs) (simp_all add: frame_basic frame_andthen)

lemma frame_weaken: "frame F m \<Longrightarrow> (\<And>s t. F s = F t \<Longrightarrow> G s = G t) \<Longrightarrow> frame G m"
  unfolding frame_def by blast

section \<open>Loops that wait\<close>

text \<open>
  A loop whose body either goes on (\<open>Inl\<close>, with the new values of its variables) or leaves the loop with a result (\<open>Inr\<close>). The
  kernel's loops that have no bound of their own sleep in every round that goes on, so that the tape gets
  shorter: as many rounds as there are entries on the tape, and one more, are enough.
\<close>

fun iterM :: "nat \<Rightarrow> ('x \<Rightarrow> ('s, 'x + 'a) kop) \<Rightarrow> 'x \<Rightarrow> ('s, 'a) kop" where
  "iterM 0 b x = hang"
| "iterM (Suc n) b x = bind (b x) (\<lambda>r. case r of Inl y \<Rightarrow> iterM n b y | Inr a \<Rightarrow> return a)"

definition forever :: "('x \<Rightarrow> ('s, 'x + 'a) kop) \<Rightarrow> 'x \<Rightarrow> ('s, 'a) kop" where
  "forever b x = (\<lambda>s e. iterM (Suc (length e)) b x s e)"

definition waits :: "('x \<Rightarrow> ('s, 'x + 'a) kop) \<Rightarrow> bool" where
  "waits b \<longleftrightarrow> (\<forall>x s e y t d. b x s e = Ret (Inl y) t d \<longrightarrow> length d < length e)"

text \<open>The bound does not matter.\<close>

lemma iterM_fuel:
  "waits b \<Longrightarrow> length e < n \<Longrightarrow> length e < m \<Longrightarrow> iterM n b x s e = iterM m b x s e"
proof (induction "length e" arbitrary: n m x s e rule: less_induct)
  case less
  obtain i j where ij: "n = Suc i" "m = Suc j" using less.prems by (cases n; cases m) auto
  have "iterM i b y t d = iterM j b y t d" if "b x s e = Ret (Inl y) t d" for y t d
  proof -
    have "length d < length e" using less.prems(1) that by (auto simp: waits_def)
    then show ?thesis using less.prems ij by (intro less.hyps) simp_all
  qed
  then show ?case by (simp add: ij bind_def split: result.split sum.split)
qed

lemma forever_unfold:
  assumes "waits b"
  shows "forever b x = bind (b x) (\<lambda>r. case r of Inl y \<Rightarrow> forever b y | Inr a \<Rightarrow> return a)"
proof (intro ext)
  fix s e
  have "iterM (length e) b y t d = iterM (Suc (length d)) b y t d" if "b x s e = Ret (Inl y) t d" for y t d
    using iterM_fuel [OF assms, of d "length e" "Suc (length d)"] assms that by (auto simp: waits_def)
  then show "forever b x s e = bind (b x) (\<lambda>r. case r of Inl y \<Rightarrow> forever b y | Inr a \<Rightarrow> return a) s e"
    by (simp add: forever_def bind_def split: result.split sum.split)
qed

text \<open>An invariant of the loop.\<close>

lemma wlp_forever:
  assumes "I x s e"
    and step: "\<And>x s e. I x s e \<Longrightarrow>
      wlp (b x) (\<lambda>r t d. case r of Inl y \<Rightarrow> length d < length e \<and> I y t d | Inr a \<Rightarrow> Q a t d) s e"
  shows "wlp (forever b x) Q s e"
proof -
  have "I x s e \<Longrightarrow> length e < n \<Longrightarrow> wlp (iterM n b x) Q s e" for n
  proof (induction n arbitrary: x s e)
    case 0
    then show ?case by simp
  next
    case (Suc n)
    have "wlp (b x) (\<lambda>r. wlp (case r of Inl y \<Rightarrow> iterM n b y | Inr a \<Rightarrow> return a) Q) s e"
      using step [OF Suc.prems(1)] by (rule wlp_mono) (use Suc in \<open>auto simp: wlp_return split: sum.splits\<close>)
    then show ?case by (simp add: wlp_bind)
  qed
  then have "wlp (iterM (Suc (length e)) b x) Q s e" using assms(1) by blast
  then show ?thesis by (simp only: forever_def wlp_def)
qed

lemma pwp_forever:
  assumes "I x s e"
    and step: "\<And>x s e. I x s e \<Longrightarrow>
      pwp (b x) (\<lambda>r t d. case r of Inl y \<Rightarrow> I y t d | Inr a \<Rightarrow> Q a t d) s e"
  shows "pwp (forever b x) Q s e"
proof -
  have "I x s e \<Longrightarrow> pwp (iterM n b x) Q s e" for n
  proof (induction n arbitrary: x s e)
    case 0
    then show ?case by (simp add: pwp_basic)
  next
    case (Suc n)
    have "pwp (b x) (\<lambda>r. pwp (case r of Inl y \<Rightarrow> iterM n b y | Inr a \<Rightarrow> return a) Q) s e"
      using step [OF Suc.prems(1)] by (rule pwp_mono) (use Suc in \<open>auto simp: pwp_basic split: sum.splits\<close>)
    then show ?case by (simp add: pwp_bind)
  qed
  then have "pwp (iterM (Suc (length e)) b x) Q s e" using assms(1) by blast
  then show ?thesis by (simp only: forever_def pwp_def)
qed

text \<open>A loop that leaves in its first round.\<close>

lemma wp_forever_done:
  "wp (b x) (\<lambda>r t d. case r of Inl y \<Rightarrow> False | Inr a \<Rightarrow> Q a t d) s e \<Longrightarrow> wp (forever b x) Q s e"
  unfolding forever_def wp_def iterM.simps bind_def return_def by (simp split: result.splits sum.splits)

text \<open>A loop that goes round at most once.\<close>

lemma wp_forever_once:
  assumes "wp (b x) (\<lambda>r t d. case r of Inl y \<Rightarrow> wp (b y) (\<lambda>r t d. case r of Inl _ \<Rightarrow> False | Inr a \<Rightarrow> Q a t d) t d | Inr a \<Rightarrow> Q a t d) s e"
    and "e \<noteq> []"
  shows "wp (forever b x) Q s e"
proof (cases e)
  case (Cons f d)
  have last: "wp (iterM (Suc (length d)) b y) Q t d'" if "wp (b y) (\<lambda>r t d. case r of Inl _ \<Rightarrow> False | Inr a \<Rightarrow> Q a t d) t d'" for y t d'
    unfolding iterM.simps wp_bind by (rule wp_mono [OF that]) (auto simp: wp_return split: sum.splits)
  have "wp (iterM (Suc (Suc (length d))) b x) Q s e"
    unfolding iterM.simps(2) [of "Suc _"] wp_bind by (rule wp_mono [OF assms(1)]) (auto simp: wp_return intro: last simp del: iterM.simps split: sum.splits)
  then show ?thesis by (simp only: forever_def wp_def Cons list.size add_Suc_right add_0_right)
qed (use assms(2) in simp)

section \<open>Invariants\<close>

text \<open>
  An operation preserves \<open>I\<close> when each of its returns is in a state with \<open>I\<close>, provided that the rest of the machine
  keeps \<open>I\<close> while the operation has given up the processor.
\<close>

definition stable_tape :: "('s \<Rightarrow> bool) \<Rightarrow> ('s \<Rightarrow> 's) list \<Rightarrow> bool" where
  "stable_tape I e \<longleftrightarrow> (\<forall>f\<in>set e. \<forall>s. I s \<longrightarrow> I (f s))"

definition preserves :: "('s \<Rightarrow> bool) \<Rightarrow> ('s, 'a) kop \<Rightarrow> bool" where
  "preserves I m \<longleftrightarrow> (\<forall>s e. I s \<longrightarrow> stable_tape I e \<longrightarrow> pwp m (\<lambda>_ t d. I t \<and> stable_tape I d) s e)"

lemma preservesI: "(\<And>s e. I s \<Longrightarrow> stable_tape I e \<Longrightarrow> pwp m (\<lambda>_ t d. I t \<and> stable_tape I d) s e) \<Longrightarrow> preserves I m"
  by (simp add: preserves_def)

lemma preservesD: "preserves I m \<Longrightarrow> I s \<Longrightarrow> stable_tape I e \<Longrightarrow> pwp m (\<lambda>_ t d. I t \<and> stable_tape I d) s e"
  by (simp add: preserves_def)

lemma preserves_frame: "frame F m \<Longrightarrow> (\<And>s t. F s = F t \<Longrightarrow> I s = I t) \<Longrightarrow> preserves I m"
proof (rule preservesI)
  fix s e assume F: "frame F m" and I: "\<And>s t. F s = F t \<Longrightarrow> I s = I t" and s: "I s" "stable_tape I e"
  show "pwp m (\<lambda>_ t d. I t \<and> stable_tape I d) s e"
    by (rule pwp_frame [OF F]) (use I [of _ s] s in simp)
qed

lemma preserves_bind [preserves_intros]: "preserves I m \<Longrightarrow> (\<And>x. preserves I (f x)) \<Longrightarrow> preserves I (bind m f)"
proof (rule preservesI)
  fix s e
  assume m: "preserves I m" and f: "\<And>x. preserves I (f x)" and s: "I s" "stable_tape I e"
  show "pwp (bind m f) (\<lambda>_ t d. I t \<and> stable_tape I d) s e"
    unfolding pwp_bind using preservesD [OF m s]
  proof (rule pwp_mono)
    fix x t d assume "I t \<and> stable_tape I d"
    then show "pwp (f x) (\<lambda>_ t d. I t \<and> stable_tape I d) t d" using preservesD [OF f] by simp
  qed
qed

lemma preserves_andthen [preserves_intros]: "preserves I m \<Longrightarrow> preserves I n \<Longrightarrow> preserves I (andthen m n)"
  by (simp add: andthen_def preserves_bind)

lemma preserves_if [preserves_intros]: "preserves I m \<Longrightarrow> preserves I n \<Longrightarrow> preserves I (if b then m else n)"
  by simp

lemma preserves_when [preserves_intros]: "preserves I m \<Longrightarrow> preserves I (whenM b m)"
  by (simp add: preserves_def pwp_rules)

lemma preserves_basic [preserves_intros]:
  "preserves I (return x)" "preserves I (gets f)" "preserves I (panic msg)" "preserves I (fault msg)"
  "preserves I hang" "preserves I skip" "preserves I yield_cpu"
  by (auto simp: preserves_def pwp_rules stable_tape_def split: list.split)

lemma preserves_modify [preserves_intros]: "(\<And>s. I s \<Longrightarrow> I (g s)) \<Longrightarrow> preserves I (modify g)"
  by (simp add: preserves_def pwp_rules)

lemma preserves_forever [preserves_intros]: "(\<And>x. preserves I (b x)) \<Longrightarrow> preserves I (forever b x)"
proof (rule preservesI)
  fix s e assume b: "\<And>x. preserves I (b x)" and s: "I s" "stable_tape I e"
  show "pwp (forever b x) (\<lambda>_ t d. I t \<and> stable_tape I d) s e"
  proof (rule pwp_forever [where I = "\<lambda>_ t d. I t \<and> stable_tape I d"])
    show "I s \<and> stable_tape I e" using s by simp
    fix x s e assume "I s \<and> stable_tape I e"
    then have "pwp (b x) (\<lambda>_ t d. I t \<and> stable_tape I d) s e" using preservesD [OF b] by blast
    then show "pwp (b x) (\<lambda>r t d. case r of Inl y \<Rightarrow> I t \<and> stable_tape I d | Inr a \<Rightarrow> I t \<and> stable_tape I d) s e"
      by (rule pwp_mono) (simp split: sum.split)
  qed
qed

section \<open>Searching a table\<close>

text \<open>
  The loops \<open>for(p = tab; p < &tab[N]; p++) if(cond) break;\<close>: the index of the first entry that
  satisfies the condition, \<open>None\<close> when the pointer runs off the table.
\<close>

fun find_idx :: "('a \<Rightarrow> bool) \<Rightarrow> 'a list \<Rightarrow> nat option" where
  "find_idx P [] = None"
| "find_idx P (x # xs) = (if P x then Some 0 else map_option Suc (find_idx P xs))"

lemma find_idx_None [simp]: "find_idx P xs = None \<longleftrightarrow> (\<forall>x\<in>set xs. \<not> P x)"
  by (induction xs) auto

lemma find_idx_Some:
  "find_idx P xs = Some i \<longleftrightarrow> i < length xs \<and> P (xs ! i) \<and> (\<forall>j<i. \<not> P (xs ! j))"
proof (induction xs arbitrary: i)
  case Nil
  then show ?case by simp
next
  case (Cons x xs)
  show ?case
  proof (cases i)
    case 0
    then show ?thesis by auto
  next
    case (Suc k)
    have all: "(\<forall>j<Suc k. \<not> P ((x # xs) ! j)) \<longleftrightarrow> \<not> P x \<and> (\<forall>j<k. \<not> P (xs ! j))"
      by (auto simp: less_Suc_eq_0_disj)
    show ?thesis using Cons.IH [of k] Suc by (auto simp: all)
  qed
qed

lemma find_idx_SomeD:
  assumes "find_idx P xs = Some i"
  shows "i < length xs" and "P (xs ! i)"
  using assms by (simp_all add: find_idx_Some)

lemma find_idx_unique:
  assumes "i < length xs" and "P (xs ! i)" and "\<And>j. j < length xs \<Longrightarrow> P (xs ! j) \<Longrightarrow> j = i"
  shows "find_idx P xs = Some i"
  using assms unfolding find_idx_Some by (metis less_trans nat_neq_iff)

text \<open>The search looks at nothing but the condition's value at each entry.\<close>

lemma find_idx_id_map: "find_idx P xs = find_idx id (map P xs)"
  by (induction xs) auto

lemma find_idx_cong: "map P xs = map Q ys \<Longrightarrow> find_idx P xs = find_idx Q ys"
  by (simp add: find_idx_id_map [of P xs] find_idx_id_map [of Q ys])

lemma find_idx_update:
  assumes "i < length xs \<Longrightarrow> P x = P (xs ! i)"
  shows "find_idx P (xs[i := x]) = find_idx P xs"
proof (rule find_idx_cong, cases "i < length xs")
  case True
  then show "map P (xs[i := x]) = map P xs"
    using assms by (simp add: map_update list_update_same_conv)
next
  case False
  then show "map P (xs[i := x]) = map P xs" by (simp add: list_update_beyond)
qed

section \<open>Words\<close>

lemma unat_u32: "unat (x :: u32) < 4294967296"
  using unsigned_less [of x, where ?'a = nat] by simp

lemma unat_of_nat32: "n < 4294967296 \<Longrightarrow> unat (of_nat n :: u32) = n"
  by (simp add: unsigned_of_nat take_bit_nat_eq_self)

lemma unat_add32: "unat a + n < 4294967296 \<Longrightarrow> unat (a + of_nat n :: u32) = unat a + n"
  by (simp add: unat_word_ariths unat_of_nat32)

lemma unat_plus32: "unat (a :: u32) + unat b < 4294967296 \<Longrightarrow> unat (a + b) = unat a + unat b"
  by (simp add: unat_word_ariths)

section \<open>Lists used as arrays\<close>

lemma nth_list_update_if:
  "i < length xs \<Longrightarrow> xs[j := x] ! i = (if i = j then x else xs ! i)"
  by (auto simp: nth_list_update)

lemma replicate_lit: "replicate (numeral k) x = x # replicate (pred_numeral k) x"
  by (simp add: numeral_eq_Suc)

text \<open>The loop \<open>for(i = lo; i < hi; i++) a[i] = v;\<close> over a whole array.\<close>

lemma map_const_replicate: "map (\<lambda>_. v) xs = replicate (length xs) v"
  by (rule map_replicate_const)


section \<open>Reachable states\<close>

text \<open>The states that a machine reaches from its initial states.\<close>

inductive reach :: "('s \<Rightarrow> bool) \<Rightarrow> ('s \<Rightarrow> 's \<Rightarrow> bool) \<Rightarrow> 's \<Rightarrow> bool" for init step where
  reach_init: "init s \<Longrightarrow> reach init step s"
| reach_step: "reach init step s \<Longrightarrow> step s t \<Longrightarrow> reach init step t"

text \<open>A property that holds initially and that every step keeps holds in every reachable state.\<close>

locale inductive_invariant =
  fixes init :: "'s \<Rightarrow> bool" and step :: "'s \<Rightarrow> 's \<Rightarrow> bool" and I :: "'s \<Rightarrow> bool"
  assumes init_inv: "init s \<Longrightarrow> I s"
    and step_inv: "I s \<Longrightarrow> step s t \<Longrightarrow> I t"
begin

lemma reach_inv: "reach init step s \<Longrightarrow> I s"
  by (induction rule: reach.induct) (auto intro: init_inv step_inv)

lemma reach_consequence: "reach init step s \<Longrightarrow> (I s \<Longrightarrow> P s) \<Longrightarrow> P s"
  by (auto dest: reach_inv)

end

section \<open>Bounded queues\<close>

text \<open>
  The interface of a queue with a capacity: what the operations do to the list of its elements. The operations fail
  exactly on a full and on an empty queue.
\<close>

locale fifo =
  fixes inv :: "'q \<Rightarrow> bool" and contents :: "'q \<Rightarrow> 'a list" and cap :: nat
    and push :: "'q \<Rightarrow> 'a \<Rightarrow> 'q option" and pop :: "'q \<Rightarrow> 'q option"
  assumes push_ok: "inv q \<Longrightarrow> length (contents q) < cap \<Longrightarrow>
      \<exists>q'. push q x = Some q' \<and> inv q' \<and> contents q' = contents q @ [x]"
    and push_full: "inv q \<Longrightarrow> length (contents q) = cap \<Longrightarrow> push q x = None"
    and pop_ok: "inv q \<Longrightarrow> contents q = x # xs \<Longrightarrow> \<exists>q'. pop q = Some q' \<and> inv q' \<and> contents q' = xs"
    and pop_empty: "inv q \<Longrightarrow> contents q = [] \<Longrightarrow> pop q = None"
    and bounded: "inv q \<Longrightarrow> length (contents q) \<le> cap"

text \<open>A sequence of insertions, and a sequence of removals that gives what it removes.\<close>

fun pushes :: "('q \<Rightarrow> 'a \<Rightarrow> 'q option) \<Rightarrow> 'q \<Rightarrow> 'a list \<Rightarrow> 'q option" where
  "pushes push q [] = Some q"
| "pushes push q (x # xs) = (case push q x of None \<Rightarrow> None | Some q' \<Rightarrow> pushes push q' xs)"

fun drain :: "('q \<Rightarrow> 'q option) \<Rightarrow> ('q \<Rightarrow> 'a) \<Rightarrow> nat \<Rightarrow> 'q \<Rightarrow> 'a list option" where
  "drain pop peek 0 q = Some []"
| "drain pop peek (Suc n) q = (case pop q of None \<Rightarrow> None
     | Some q' \<Rightarrow> map_option (Cons (peek q)) (drain pop peek n q'))"

context fifo
begin

lemma pushes_ok:
  "inv q \<Longrightarrow> length (contents q) + length xs \<le> cap \<Longrightarrow>
   \<exists>q'. pushes push q xs = Some q' \<and> inv q' \<and> contents q' = contents q @ xs"
proof (induction xs arbitrary: q)
  case Nil
  then show ?case by simp
next
  case (Cons x xs)
  obtain q1 where q1: "push q x = Some q1" "inv q1" "contents q1 = contents q @ [x]"
    using push_ok [of q x] Cons.prems by auto
  obtain q2 where "pushes push q1 xs = Some q2" "inv q2" "contents q2 = contents q1 @ xs"
    using Cons.IH [of q1] q1 Cons.prems by auto
  then show ?case using q1 by simp
qed

end

locale fifo_peek = fifo +
  fixes peek :: "'a \<Rightarrow> 'b"
  assumes peek_ok: "inv q \<Longrightarrow> contents q = x # xs \<Longrightarrow> peek q = x"
begin

lemma drain_ok: "inv q \<Longrightarrow> n \<le> length (contents q) \<Longrightarrow> drain pop peek n q = Some (take n (contents q))"
proof (induction n arbitrary: q)
  case 0
  then show ?case by simp
next
  case (Suc n)
  then obtain x xs where c: "contents q = x # xs" by (cases "contents q") auto
  obtain q' where "pop q = Some q'" "inv q'" "contents q' = xs" using pop_ok [OF Suc.prems(1) c] by auto
  then show ?case using Suc peek_ok [OF Suc.prems(1) c] c by simp
qed

text \<open>What goes in comes out, in the same order.\<close>

lemma transfer:
  assumes "inv q" and "contents q = []" and "length xs \<le> cap"
  shows "\<exists>q'. pushes push q xs = Some q' \<and> drain pop peek (length xs) q' = Some xs"
  using pushes_ok [of q xs] drain_ok assms by fastforce

end

end
