(* ===== verification/Spinlock.thy ===== *)
theory Spinlock
  imports Prelude
begin

text \<open>
  Spin locks and interrupt nesting, from \<open>spinlock.c\<close>, with \<open>mycpu\<close> from \<open>proc.c\<close>.
  The state has the lock structures, the per-processor structures \<open>cpus[]\<close>, the interrupt
  flag of each processor's flags register (by local APIC id), and the words of kernel memory
  that \<open>getcallerpcs\<close> follows. An operation is executed by the processor \<open>me\<close>, named
  by its local APIC id.

  The busy loop of \<open>acquire\<close> lets the rest of the machine run between two attempts: each
  failed \<open>xchg\<close> consumes one entry of the tape.

  Shown here: \<open>pushcli\<close> and \<open>popcli\<close> nest; \<open>acquire\<close> and \<open>release\<close> implement a lock
  that is held by one processor, with the exact panics of the code; and in every interleaving of
  the atomic steps of \<open>acquire\<close> and \<open>release\<close> two processors are never in the
  critical section together.
\<close>

abbreviation KERNBASE :: u32 where "KERNBASE \<equiv> 0x80000000"

record spinlock =
  locked :: u32
  lname :: string
  lcpu :: "nat option"
  lpcs :: "u32 list"

record cpu =
  apicid :: u8
  ncli :: int
  intena :: bool

record 'l smp =
  locks :: "'l \<Rightarrow> spinlock"
  cpus :: "cpu list"
  ncpu :: nat
  ifl :: "u8 \<Rightarrow> bool"
  stackw :: "u32 \<Rightarrow> u32"
  argp :: "u8 \<Rightarrow> u32"

section \<open>Operations\<close>

definition initlock :: "'l \<Rightarrow> string \<Rightarrow> ('l smp, unit) kop" where
  "initlock lk name = modify (\<lambda>s. s\<lparr>locks := (locks s)(lk :=
     (locks s lk)\<lparr>lname := name, locked := 0, lcpu := None\<rparr>)\<rparr>)"

definition mycpu :: "u8 \<Rightarrow> ('l smp, nat) kop" where
  "mycpu me =
     bind (gets (\<lambda>s. ifl s me)) (\<lambda>i.
     if i then panic ''mycpu called with interrupts enabled'' else
     bind (gets (\<lambda>s. find_idx (\<lambda>c. apicid c = me) (take (ncpu s) (cpus s)))) (\<lambda>r.
     case r of Some i \<Rightarrow> return i | None \<Rightarrow> panic ''unknown apicid''))"

definition upd_cpu :: "nat \<Rightarrow> (cpu \<Rightarrow> cpu) \<Rightarrow> 'l smp \<Rightarrow> 'l smp" where
  "upd_cpu i f s = s\<lparr>cpus := (cpus s)[i := f (cpus s ! i)]\<rparr>"

definition pushcli :: "u8 \<Rightarrow> ('l smp, unit) kop" where
  "pushcli me =
     bind (gets (\<lambda>s. ifl s me)) (\<lambda>eflags.
     andthen (modify (\<lambda>s. s\<lparr>ifl := (ifl s)(me := False)\<rparr>)) (
     bind (mycpu me) (\<lambda>i.
     bind (gets (\<lambda>s. ncli (cpus s ! i))) (\<lambda>n.
     andthen (whenM (n = 0) (modify (upd_cpu i (\<lambda>c. c\<lparr>intena := eflags\<rparr>)))) (
     modify (upd_cpu i (\<lambda>c. c\<lparr>ncli := ncli c + 1\<rparr>)))))))"

definition popcli :: "u8 \<Rightarrow> ('l smp, unit) kop" where
  "popcli me =
     bind (gets (\<lambda>s. ifl s me)) (\<lambda>eflags.
     if eflags then panic ''popcli - interruptible'' else
     bind (mycpu me) (\<lambda>i.
     andthen (modify (upd_cpu i (\<lambda>c. c\<lparr>ncli := ncli c - 1\<rparr>))) (
     bind (gets (\<lambda>s. cpus s ! i)) (\<lambda>c.
     if ncli c < 0 then panic ''popcli'' else
     whenM (ncli c = 0 \<and> intena c) (modify (\<lambda>s. s\<lparr>ifl := (ifl s)(me := True)\<rparr>))))))"

definition holding :: "u8 \<Rightarrow> 'l \<Rightarrow> ('l smp, bool) kop" where
  "holding me lk =
     andthen (pushcli me) (
     bind (gets (\<lambda>s. locks s lk)) (\<lambda>l.
     bind (mycpu me) (\<lambda>i.
     bind (return (locked l \<noteq> 0 \<and> lcpu l = Some i)) (\<lambda>r.
     andthen (popcli me) (return r)))))"

text \<open>The walk along the saved frame pointers: \<open>n\<close> entries are still to be filled.\<close>

fun callerpcs :: "(u32 \<Rightarrow> u32) \<Rightarrow> nat \<Rightarrow> u32 \<Rightarrow> u32 list" where
  "callerpcs w 0 ebp = []"
| "callerpcs w (Suc n) ebp =
     (if ebp = 0 \<or> ebp < KERNBASE \<or> ebp = 0xffffffff then replicate (Suc n) 0
      else w (ebp + 4) # callerpcs w n (w ebp))"

definition getcallerpcs :: "(u32 \<Rightarrow> u32) \<Rightarrow> u32 \<Rightarrow> u32 list" where
  "getcallerpcs w v = callerpcs w 10 (v - 8)"

text \<open>The loop \<open>while(xchg(&lk->locked, 1) != 0);\<close>, one exchange per entry of the tape.\<close>

fun spin :: "'l \<Rightarrow> 'l smp \<Rightarrow> ('l smp \<Rightarrow> 'l smp) list \<Rightarrow> ('l smp, unit) result" where
  "spin lk s [] =
     (let old = locked (locks s lk); s' = s\<lparr>locks := (locks s)(lk := (locks s lk)\<lparr>locked := 1\<rparr>)\<rparr>
      in if old \<noteq> 0 then Stuck else Ret () s' [])"
| "spin lk s (f # e) =
     (let old = locked (locks s lk); s' = s\<lparr>locks := (locks s)(lk := (locks s lk)\<lparr>locked := 1\<rparr>)\<rparr>
      in if old \<noteq> 0 then spin lk (f s') e else Ret () s' (f # e))"

definition acquire :: "u8 \<Rightarrow> 'l \<Rightarrow> ('l smp, unit) kop" where
  "acquire me lk =
     andthen (pushcli me) (
     bind (holding me lk) (\<lambda>h.
     if h then panic ''acquire'' else
     andthen (spin lk) (
     bind (mycpu me) (\<lambda>i.
     modify (\<lambda>s. s\<lparr>locks := (locks s)(lk :=
       (locks s lk)\<lparr>lcpu := Some i, lpcs := getcallerpcs (stackw s) (argp s me)\<rparr>)\<rparr>)))))"

definition release :: "u8 \<Rightarrow> 'l \<Rightarrow> ('l smp, unit) kop" where
  "release me lk =
     bind (holding me lk) (\<lambda>h.
     if \<not> h then panic ''release'' else
     andthen (modify (\<lambda>s. s\<lparr>locks := (locks s)(lk :=
       (locks s lk)\<lparr>lpcs := (lpcs (locks s lk))[0 := 0], lcpu := None\<rparr>)\<rparr>)) (
     andthen (modify (\<lambda>s. s\<lparr>locks := (locks s)(lk := (locks s lk)\<lparr>locked := 0\<rparr>)\<rparr>)) (
     popcli me)))"

section \<open>The lock as its holder sees it\<close>

text \<open>
  \<open>on_cpu me i s\<close>: the processor \<open>me\<close> is \<open>cpus[i]\<close>. \<open>holds_locks\<close> relates the state
  to the list of the spin locks that this processor holds: they are the locks whose structure
  names it, its nesting depth is their number, and its interrupts are off while it holds one.
\<close>

definition on_cpu :: "u8 \<Rightarrow> nat \<Rightarrow> 'l smp \<Rightarrow> bool" where
  "on_cpu me i s \<longleftrightarrow> find_idx (\<lambda>c. apicid c = me) (take (ncpu s) (cpus s)) = Some i"

definition holds_locks :: "u8 \<Rightarrow> nat \<Rightarrow> 'l list \<Rightarrow> 'l smp \<Rightarrow> bool" where
  "holds_locks me i hs s \<longleftrightarrow>
     on_cpu me i s \<and> distinct hs \<and>
     (\<forall>lk. (locked (locks s lk) \<noteq> 0 \<and> lcpu (locks s lk) = Some i) \<longleftrightarrow> lk \<in> set hs) \<and>
     ncli (cpus s ! i) = int (length hs) \<and> (hs \<noteq> [] \<longrightarrow> \<not> ifl s me)"

text \<open>The interrupt flag that the outermost \<open>popcli\<close> brings back.\<close>

definition saved_if :: "u8 \<Rightarrow> nat \<Rightarrow> 'l smp \<Rightarrow> bool" where
  "saved_if me i s = (if ncli (cpus s ! i) = 0 then ifl s me else intena (cpus s ! i))"

lemma on_cpu_bound: "on_cpu me i s \<Longrightarrow> i < length (cpus s)"
  by (auto simp: on_cpu_def dest: find_idx_SomeD)

lemma on_cpu_upd [simp]:
  assumes "\<And>c. apicid (f c) = apicid c"
  shows "on_cpu me i (upd_cpu j f s) = on_cpu me i s"
proof -
  have "find_idx (\<lambda>c. apicid c = me) ((take (ncpu s) (cpus s))[j := f (cpus s ! j)]) =
      find_idx (\<lambda>c. apicid c = me) (take (ncpu s) (cpus s))"
    by (rule find_idx_update) (simp add: assms)
  then show ?thesis by (simp add: on_cpu_def upd_cpu_def take_update_swap)
qed

lemma on_cpu_frame [simp]:
  "on_cpu me i (s\<lparr>locks := l\<rparr>) = on_cpu me i s"
  "on_cpu me i (s\<lparr>ifl := g\<rparr>) = on_cpu me i s"
  by (simp_all add: on_cpu_def)

lemma upd_cpu_frame [simp]:
  "locks (upd_cpu i f s) = locks s" "ifl (upd_cpu i f s) = ifl s" "ncpu (upd_cpu i f s) = ncpu s"
  "stackw (upd_cpu i f s) = stackw s" "argp (upd_cpu i f s) = argp s"
  "length (cpus (upd_cpu i f s)) = length (cpus s)"
  by (simp_all add: upd_cpu_def)

lemma upd_cpu_nth [simp]: "i < length (cpus s) \<Longrightarrow> cpus (upd_cpu i f s) ! i = f (cpus s ! i)"
  by (simp add: upd_cpu_def)

lemma wp_mycpu [wp_rules]:
  "on_cpu me i s \<Longrightarrow> \<not> ifl s me \<Longrightarrow> wp (mycpu me) Q s e = Q i s e"
  by (simp add: mycpu_def wp_rules on_cpu_def)


text \<open>The effect of \<open>pushcli\<close>, \<open>popcli\<close> and of the two in a row on the processor \<open>cpus[i]\<close>.\<close>

definition pushed :: "u8 \<Rightarrow> nat \<Rightarrow> 'l smp \<Rightarrow> 'l smp" where
  "pushed me i s = upd_cpu i (\<lambda>c. c\<lparr>intena := (if ncli c = 0 then ifl s me else intena c),
     ncli := ncli c + 1\<rparr>) (s\<lparr>ifl := (ifl s)(me := False)\<rparr>)"

definition popped :: "u8 \<Rightarrow> nat \<Rightarrow> 'l smp \<Rightarrow> 'l smp" where
  "popped me i s = upd_cpu i (\<lambda>c. c\<lparr>ncli := ncli c - 1\<rparr>)
     (if ncli (cpus s ! i) = 1 \<and> intena (cpus s ! i) then s\<lparr>ifl := (ifl s)(me := True)\<rparr> else s)"

lemma upd_cpu_upd [simp]:
  "i < length (cpus s) \<Longrightarrow> upd_cpu i f (upd_cpu i g s) = upd_cpu i (\<lambda>c. f (g c)) s"
  by (simp add: upd_cpu_def)

lemma upd_cpu_id: "f (cpus s ! i) = cpus s ! i \<Longrightarrow> upd_cpu i f s = s"
  by (simp add: upd_cpu_def)

lemma on_cpu_pushed [simp]: "on_cpu me i (pushed me' j s) = on_cpu me i s"
  by (simp add: pushed_def)

lemma on_cpu_popped [simp]: "on_cpu me i (popped me' j s) = on_cpu me i s"
  by (simp add: popped_def)

lemma wp_pushcli [wp_rules]:
  assumes "on_cpu me i s"
  shows "wp (pushcli me) Q s e = Q () (pushed me i s) e"
proof -
  let ?t = "s\<lparr>ifl := (ifl s)(me := False)\<rparr>"
  have b: "i < length (cpus s)" using assms by (rule on_cpu_bound)
  have "on_cpu me i ?t" "\<not> ifl ?t me" using assms by simp_all
  moreover have "upd_cpu i (\<lambda>c. c\<lparr>intena := ifl s me, ncli := ncli c + 1\<rparr>) ?t = pushed me i s"
    if "ncli (cpus s ! i) = 0"
    using that b by (simp add: pushed_def upd_cpu_def)
  moreover have "upd_cpu i (\<lambda>c. c\<lparr>ncli := ncli c + 1\<rparr>) ?t = pushed me i s"
    if "ncli (cpus s ! i) \<noteq> 0"
    using that b by (simp add: pushed_def upd_cpu_def)
  ultimately show ?thesis using b by (simp add: pushcli_def wp_rules wp_mycpu [of me i])
qed

lemma wp_popcli [wp_rules]:
  assumes "on_cpu me i s" and "\<not> ifl s me" and "0 < ncli (cpus s ! i)"
  shows "wp (popcli me) Q s e = Q () (popped me i s) e"
proof -
  have b: "i < length (cpus s)" using assms(1) by (rule on_cpu_bound)
  have c: "ncli (cpus s ! i) - 1 = 0 \<longleftrightarrow> ncli (cpus s ! i) = 1"
    "\<not> ncli (cpus s ! i) - 1 < 0" using assms(3) by auto
  have up: "(upd_cpu i f s)\<lparr>ifl := g\<rparr> = upd_cpu i f (s\<lparr>ifl := g\<rparr>)" for f g
    by (simp add: upd_cpu_def)
  show ?thesis using assms b c by (simp add: popcli_def wp_rules wp_mycpu [of me i] popped_def up)
qed

text \<open>A query of the lock refreshes \<open>intena\<close> at depth 0 and changes nothing else.\<close>

definition queried :: "u8 \<Rightarrow> nat \<Rightarrow> 'l smp \<Rightarrow> 'l smp" where
  "queried me i s = upd_cpu i (\<lambda>c. c\<lparr>intena := (if ncli c = 0 then ifl s me else intena c)\<rparr>) s"

lemma popped_pushed:
  assumes "i < length (cpus s)" and "0 \<le> ncli (cpus s ! i)" and "0 < ncli (cpus s ! i) \<longrightarrow> \<not> ifl s me"
  shows "popped me i (pushed me i s) = queried me i s"
proof -
  have f: "(ifl s)(me := False, me := True) = ifl s" if "ifl s me" using that by (simp add: fun_upd_idem)
  have g: "(ifl s)(me := False) = ifl s" if "\<not> ifl s me" using that by (simp add: fun_upd_idem)
  have k: "c\<lparr>intena := b, ncli := 0\<rparr> = c\<lparr>intena := b\<rparr>" if "ncli c = 0" for c :: cpu and b
    using that by (cases c) simp
  show ?thesis
  proof (cases "ncli (cpus s ! i) = 0")
    case True
    then show ?thesis using assms f g
      by (cases "ifl s me") (simp_all add: k popped_def pushed_def queried_def upd_cpu_def)
  next
    case False
    then show ?thesis using assms g
      by (simp add: popped_def pushed_def queried_def upd_cpu_def)
  qed
qed

lemma wp_holding [wp_rules]:
  assumes "on_cpu me i s" and "0 \<le> ncli (cpus s ! i)" and "0 < ncli (cpus s ! i) \<longrightarrow> \<not> ifl s me"
  shows "wp (holding me lk) Q s e =
    Q (locked (locks s lk) \<noteq> 0 \<and> lcpu (locks s lk) = Some i) (queried me i s) e"
proof -
  have b: "i < length (cpus s)" using assms(1) by (rule on_cpu_bound)
  have "\<not> ifl (pushed me i s) me" "0 < ncli (cpus (pushed me i s) ! i)" "locks (pushed me i s) = locks s"
    using assms(2) b by (simp_all add: pushed_def)
  then show ?thesis using assms b
    by (simp add: holding_def wp_rules wp_mycpu [of me i] wp_pushcli [of me i] wp_popcli [of me i] popped_pushed)
qed


lemma wp_spin [wp_rules]:
  "locked (locks s lk) = 0 \<Longrightarrow> wp (spin lk) Q s e =
     Q () (s\<lparr>locks := (locks s)(lk := (locks s lk)\<lparr>locked := 1\<rparr>)\<rparr>) e"
  by (cases e) (simp_all add: wp_def)

lemma length_cpus [simp]:
  "length (cpus (queried me i s)) = length (cpus s)" "length (cpus (pushed me i s)) = length (cpus s)"
  "length (cpus (popped me i s)) = length (cpus s)"
  by (simp_all add: queried_def pushed_def popped_def)

lemma queried_frame [simp]:
  assumes "i < length (cpus s)"
  shows "locks (queried me i s) = locks s" "ifl (queried me i s) = ifl s"
    "ncli (cpus (queried me i s) ! i) = ncli (cpus s ! i)"
    "on_cpu me' j (queried me i s) = on_cpu me' j s"
    "0 < ncli (cpus s ! i) \<Longrightarrow> intena (cpus (queried me i s) ! i) = intena (cpus s ! i)"
    "saved_if me i (queried me i s) = saved_if me i s"
  using assms by (simp_all add: queried_def saved_if_def)

lemma pushed_frame [simp]:
  assumes "i < length (cpus s)"
  shows "locks (pushed me i s) = locks s" "\<not> ifl (pushed me i s) me"
    "ncli (cpus (pushed me i s) ! i) = ncli (cpus s ! i) + 1"
    "0 \<le> ncli (cpus s ! i) \<Longrightarrow> saved_if me i (pushed me i s) = saved_if me i s"
  using assms by (simp_all add: pushed_def saved_if_def)

lemma popped_frame [simp]:
  assumes "i < length (cpus s)"
  shows "locks (popped me i s) = locks s"
    "ncli (cpus (popped me i s) ! i) = ncli (cpus s ! i) - 1"
  using assms by (simp_all add: popped_def)

lemma popped_ifl:
  assumes "\<not> ifl s me"
  shows "ifl (popped me i s) me = (ncli (cpus s ! i) = 1 \<and> intena (cpus s ! i))"
  using assms by (simp add: popped_def)

lemma holds_locksD:
  assumes "holds_locks me i hs s"
  shows "on_cpu me i s" "i < length (cpus s)" "0 \<le> ncli (cpus s ! i)"
    "0 < ncli (cpus s ! i) \<longrightarrow> \<not> ifl s me" "ncli (cpus s ! i) = int (length hs)"
    "lk \<in> set hs \<longleftrightarrow> locked (locks s lk) \<noteq> 0 \<and> lcpu (locks s lk) = Some i"
  using assms by (auto simp: holds_locks_def on_cpu_bound)

text \<open>What \<open>acquire\<close> and \<open>release\<close> leave behind.\<close>

definition acquired :: "u8 \<Rightarrow> nat \<Rightarrow> 'l \<Rightarrow> 'l smp \<Rightarrow> 'l smp" where
  "acquired me i lk s = (queried me i (pushed me i s))\<lparr>locks := (locks s)(lk :=
     (locks s lk)\<lparr>locked := 1, lcpu := Some i,
        lpcs := getcallerpcs (stackw (queried me i (pushed me i s))) (argp (queried me i (pushed me i s)) me)\<rparr>)\<rparr>"

definition released :: "u8 \<Rightarrow> nat \<Rightarrow> 'l \<Rightarrow> 'l smp \<Rightarrow> 'l smp" where
  "released me i lk s = popped me i ((queried me i s)\<lparr>locks := (locks s)(lk :=
     (locks s lk)\<lparr>lpcs := (lpcs (locks s lk))[0 := 0], lcpu := None, locked := 0\<rparr>)\<rparr>)"

lemma wp_acquire:
  assumes h: "holds_locks me i hs s" and lk: "lk \<notin> set hs" and free: "locked (locks s lk) = 0"
  shows "wp (acquire me lk) Q s e = Q () (acquired me i lk s) e"
proof -
  note d = holds_locksD [OF h]
  have c: "\<not> (locked (locks s lk) \<noteq> 0 \<and> lcpu (locks s lk) = Some i)" using d(6) lk by blast
  show ?thesis using d(1-4) c free
    by (simp add: acquire_def wp_rules wp_pushcli [of me i] wp_holding [of me i] wp_mycpu [of me i] acquired_def)
qed

lemma wp_release:
  assumes h: "holds_locks me i hs s" and lk: "lk \<in> set hs"
  shows "wp (release me lk) Q s e = Q () (released me i lk s) e"
proof -
  note d = holds_locksD [OF h]
  have c: "locked (locks s lk) \<noteq> 0 \<and> lcpu (locks s lk) = Some i" using d(6) lk by blast
  have n: "0 < ncli (cpus s ! i)" using d(5) lk by (cases hs) auto
  show ?thesis using d(1-4) c n
    by (simp add: release_def wp_rules wp_holding [of me i] wp_popcli [of me i] released_def)
qed


lemma holds_locks_acquired:
  assumes h: "holds_locks me i hs s" and lk: "lk \<notin> set hs" and free: "locked (locks s lk) = 0"
  shows "holds_locks me i (lk # hs) (acquired me i lk s)"
    and "saved_if me i (acquired me i lk s) = saved_if me i s"
proof -
  note d = holds_locksD [OF h]
  have "distinct (lk # hs)" using h lk by (simp add: holds_locks_def)
  then show "holds_locks me i (lk # hs) (acquired me i lk s)"
    using d lk by (auto simp: holds_locks_def acquired_def)
  have "saved_if me i (queried me i (pushed me i s)) = saved_if me i s" using d by simp
  moreover have "saved_if me i (acquired me i lk s) = saved_if me i (queried me i (pushed me i s))"
    by (simp add: saved_if_def acquired_def)
  ultimately show "saved_if me i (acquired me i lk s) = saved_if me i s" by simp
qed

lemma holds_locks_released:
  assumes h: "holds_locks me i hs s" and lk: "lk \<in> set hs"
  shows "holds_locks me i (remove1 lk hs) (released me i lk s)"
    and "locked (locks (released me i lk s) lk) = 0"
    and "saved_if me i (released me i lk s) = saved_if me i s"
proof -
  note d = holds_locksD [OF h]
  let ?q = "(queried me i s)\<lparr>locks := (locks s)(lk :=
     (locks s lk)\<lparr>lpcs := (lpcs (locks s lk))[0 := 0], lcpu := None, locked := 0\<rparr>)\<rparr>"
  have dist: "distinct hs" using h by (simp add: holds_locks_def)
  have len: "length (remove1 lk hs) = length hs - 1" "0 < length hs"
    using lk by (simp_all add: length_remove1) (cases hs, auto)
  have n: "0 < ncli (cpus s ! i)" using d(5) len(2) by simp
  have off: "\<not> ifl ?q me" using d n by simp
  have q: "ncli (cpus ?q ! i) = ncli (cpus s ! i)" "intena (cpus ?q ! i) = intena (cpus s ! i)"
    using d(2) n by simp_all
  have ifl: "ifl (released me i lk s) me = (ncli (cpus s ! i) = 1 \<and> intena (cpus s ! i))"
    unfolding released_def popped_ifl [OF off] q ..
  have cnt: "ncli (cpus (released me i lk s) ! i) = ncli (cpus s ! i) - 1"
    using d(2) by (simp add: released_def)
  have lks: "locks (released me i lk s) = (locks s)(lk :=
     (locks s lk)\<lparr>lpcs := (lpcs (locks s lk))[0 := 0], lcpu := None, locked := 0\<rparr>)"
    using d(2) by (simp add: released_def)
  show "locked (locks (released me i lk s) lk) = 0" by (simp add: lks)
  have on: "on_cpu me i (released me i lk s)" using d by (simp add: released_def)
  show "holds_locks me i (remove1 lk hs) (released me i lk s)"
    unfolding holds_locks_def
  proof (intro conjI allI impI)
    fix l
    show "(locked (locks (released me i lk s) l) \<noteq> 0 \<and> lcpu (locks (released me i lk s) l) = Some i)
        \<longleftrightarrow> l \<in> set (remove1 lk hs)"
      using d(6) dist by (auto simp: lks)
    show "ncli (cpus (released me i lk s) ! i) = int (length (remove1 lk hs))"
      using cnt d(5) len by linarith
  next
    assume "remove1 lk hs \<noteq> []"
    then have "1 < length hs" using len by (cases "remove1 lk hs") auto
    then show "\<not> ifl (released me i lk s) me" using ifl d(5) by simp
  qed (use on dist in simp_all)
  have "intena (cpus (released me i lk s) ! i) = intena (cpus s ! i)"
    using d(2) q by (simp add: released_def popped_def)
  then show "saved_if me i (released me i lk s) = saved_if me i s"
    using cnt ifl n by (simp add: saved_if_def)
qed

lemma acquire_held:
  assumes h: "holds_locks me i hs s" and lk: "lk \<in> set hs"
  shows "acquire me lk s e = Panic ''acquire''"
proof -
  note d = holds_locksD [OF h]
  have c: "locked (locks s lk) \<noteq> 0 \<and> lcpu (locks s lk) = Some i" using d(6) lk by blast
  have p: "pushcli me s e = Ret () (pushed me i s) e"
    using d by (intro wp_eq_ret wp_pushcli) simp
  have "holding me lk (pushed me i s) e = Ret True (queried me i (pushed me i s)) e"
    by (rule wp_eq_ret) (use d c in \<open>simp add: wp_holding [of me i]\<close>)
  with p show ?thesis by (simp add: acquire_def andthen_def bind_def panic_def)
qed

lemma release_not_held:
  assumes h: "holds_locks me i hs s" and lk: "lk \<notin> set hs"
  shows "release me lk s e = Panic ''release''"
proof -
  note d = holds_locksD [OF h]
  have c: "\<not> (locked (locks s lk) \<noteq> 0 \<and> lcpu (locks s lk) = Some i)" using d(6) lk by blast
  have "holding me lk s e = Ret (locked (locks s lk) \<noteq> 0 \<and> lcpu (locks s lk) = Some i) (queried me i s) e"
    using d(1,3,4) by (intro wp_eq_ret wp_holding)
  then have "holding me lk s e = Ret False (queried me i s) e"
    using c by simp
  then show ?thesis by (simp add: release_def bind_def panic_def)
qed


section \<open>The interface of a lock\<close>

text \<open>
  What the rest of the kernel relies on: \<open>R hs s\<close> says that the running processor
  holds the locks \<open>hs\<close> and no other, \<open>free lk s\<close> that no processor holds \<open>lk\<close>.
\<close>

locale lock_api =
  fixes acq :: "'l \<Rightarrow> ('s, unit) kop"
    and rel :: "'l \<Rightarrow> ('s, unit) kop"
    and R :: "'l list \<Rightarrow> 's \<Rightarrow> bool"
    and free :: "'l \<Rightarrow> 's \<Rightarrow> bool"
  assumes acq_ok: "R hs s \<Longrightarrow> lk \<notin> set hs \<Longrightarrow> free lk s \<Longrightarrow>
      wp (acq lk) (\<lambda>_ t d. d = e \<and> R (lk # hs) t \<and> (\<forall>l. l \<noteq> lk \<longrightarrow> free l t = free l s)) s e"
    and acq_again: "R hs s \<Longrightarrow> lk \<in> set hs \<Longrightarrow> acq lk s e = Panic ''acquire''"
    and rel_ok: "R hs s \<Longrightarrow> lk \<in> set hs \<Longrightarrow>
      wp (rel lk) (\<lambda>_ t d. d = e \<and> R (remove1 lk hs) t \<and> free lk t \<and> (\<forall>l. l \<noteq> lk \<longrightarrow> free l t = free l s)) s e"
    and rel_other: "R hs s \<Longrightarrow> lk \<notin> set hs \<Longrightarrow> rel lk s e = Panic ''release''"
begin

text \<open>A balanced critical section gives back the set of locks held.\<close>

lemma critical_section:
  assumes "R hs s" "lk \<notin> set hs" "free lk s"
    and body: "\<And>t d. R (lk # hs) t \<Longrightarrow> wp m (\<lambda>_. \<lambda>u _. R (lk # hs) u) t d"
  shows "wp (andthen (acq lk) (andthen m (rel lk))) (\<lambda>_ t _. R hs t \<and> free lk t) s e"
proof -
  have rel: "wp (rel lk) (\<lambda>_ t _. R hs t \<and> free lk t) u f" if "R (lk # hs) u" for u f
    using rel_ok [OF that, of lk f] by (auto intro: wp_mono)
  have "wp m (\<lambda>_. wp (rel lk) (\<lambda>_ t _. R hs t \<and> free lk t)) u f" if "R (lk # hs) u" for u f
    using body [OF that, of f] by (rule wp_mono) (simp add: rel)
  then have "wp (acq lk) (\<lambda>_. wp m (\<lambda>_. wp (rel lk) (\<lambda>_ t _. R hs t \<and> free lk t))) s e"
    using acq_ok [OF assms(1-3), of e] by (auto intro: wp_mono)
  then show ?thesis by (simp add: wp_rules)
qed

text \<open>A path that leaves with the lock still held panics at the next \<open>acquire\<close> of it.\<close>

lemma leaked_lock_panics:
  assumes "R hs s" "lk \<notin> set hs" "free lk s"
  shows "andthen (acq lk) (acq lk) s e = Panic ''acquire''"
proof -
  obtain t where "acq lk s e = Ret () t e" "R (lk # hs) t"
    using acq_ok [OF assms, of e] by (auto simp: wp_iff)
  then show ?thesis by (simp add: andthen_def bind_def acq_again [of "lk # hs"])
qed

text \<open>A second release of the same lock panics.\<close>

lemma double_release_panics:
  assumes "R hs s" "distinct hs" "lk \<in> set hs"
  shows "andthen (rel lk) (rel lk) s e = Panic ''release''"
proof -
  obtain t where "rel lk s e = Ret () t e" "R (remove1 lk hs) t"
    using rel_ok [OF assms(1,3), of e] by (auto simp: wp_iff)
  then show ?thesis using assms(2) by (simp add: andthen_def bind_def rel_other [of "remove1 lk hs"])
qed

end

interpretation spinlk: lock_api "acquire me" "release me" "holds_locks me i"
  "\<lambda>lk s. locked (locks s lk) = 0"
proof (unfold_locales, goal_cases)
  case (1 hs s lk e)
  then show ?case
    by (simp add: wp_acquire [of me i hs] holds_locks_acquired) (simp add: acquired_def)
next
  case (2 hs s lk e)
  then show ?case by (rule acquire_held)
next
  case (3 hs s lk e)
  then show ?case
    by (simp add: wp_release [of me i hs] holds_locks_released holds_locksD(2)) (simp add: released_def holds_locksD(2))
next
  case (4 hs s lk e)
  then show ?case by (rule release_not_held)
qed


section \<open>Interleavings of the atomic steps\<close>

text \<open>
  Any number of processors contend for one lock. Between two atomic steps of a processor the
  others take any number of theirs. The points of a processor inside \<open>acquire\<close> and
  \<open>release\<close>: \<open>Outside\<close>; \<open>Spinning\<close> after the test of \<open>holding\<close>; \<open>Got\<close> after
  the successful \<open>xchg\<close>; \<open>Critical\<close> once \<open>lk->cpu\<close> is recorded; \<open>Leaving\<close> once
  \<open>release\<close> has cleared \<open>lk->cpu\<close> and before it stores 0 to \<open>lk->locked\<close>.
\<close>

datatype lkpc = Outside | Spinning | Got | Critical | Leaving

record lkmachine =
  mlock :: spinlock
  mpc :: "nat \<Rightarrow> lkpc"

definition lk_holding :: "nat \<Rightarrow> lkmachine \<Rightarrow> bool" where
  "lk_holding i s \<longleftrightarrow> locked (mlock s) \<noteq> 0 \<and> lcpu (mlock s) = Some i"

definition lk_init :: "lkmachine \<Rightarrow> bool" where
  "lk_init s \<longleftrightarrow> locked (mlock s) = 0 \<and> lcpu (mlock s) = None \<and> (\<forall>i. mpc s i = Outside)"

inductive lk_step :: "lkmachine \<Rightarrow> lkmachine \<Rightarrow> bool" where
  enter: "mpc s i = Outside \<Longrightarrow> \<not> lk_holding i s \<Longrightarrow> lk_step s (s\<lparr>mpc := (mpc s)(i := Spinning)\<rparr>)"
| xchg_busy: "mpc s i = Spinning \<Longrightarrow> locked (mlock s) \<noteq> 0 \<Longrightarrow>
     lk_step s (s\<lparr>mlock := (mlock s)\<lparr>locked := 1\<rparr>\<rparr>)"
| xchg_free: "mpc s i = Spinning \<Longrightarrow> locked (mlock s) = 0 \<Longrightarrow>
     lk_step s (s\<lparr>mlock := (mlock s)\<lparr>locked := 1\<rparr>, mpc := (mpc s)(i := Got)\<rparr>)"
| record_cpu: "mpc s i = Got \<Longrightarrow>
     lk_step s (s\<lparr>mlock := (mlock s)\<lparr>lcpu := Some i\<rparr>, mpc := (mpc s)(i := Critical)\<rparr>)"
| clear_cpu: "mpc s i = Critical \<Longrightarrow> lk_holding i s \<Longrightarrow>
     lk_step s (s\<lparr>mlock := (mlock s)\<lparr>lcpu := None\<rparr>, mpc := (mpc s)(i := Leaving)\<rparr>)"
| store_zero: "mpc s i = Leaving \<Longrightarrow>
     lk_step s (s\<lparr>mlock := (mlock s)\<lparr>locked := 0\<rparr>, mpc := (mpc s)(i := Outside)\<rparr>)"

text \<open>A processor owns the lock from its successful \<open>xchg\<close> to its store of 0.\<close>

definition owns :: "lkmachine \<Rightarrow> nat \<Rightarrow> bool" where
  "owns s i \<longleftrightarrow> mpc s i = Got \<or> mpc s i = Critical \<or> mpc s i = Leaving"

definition lk_inv :: "lkmachine \<Rightarrow> bool" where
  "lk_inv s \<longleftrightarrow> (\<forall>i j. owns s i \<longrightarrow> owns s j \<longrightarrow> i = j) \<and>
     (locked (mlock s) \<noteq> 0 \<longleftrightarrow> (\<exists>i. owns s i)) \<and>
     (\<forall>i. lcpu (mlock s) = Some i \<longleftrightarrow> mpc s i = Critical)"

lemma lk_inv_step: "lk_inv s \<Longrightarrow> lk_step s t \<Longrightarrow> lk_inv t"
  by (erule lk_step.cases; simp add: lk_inv_def owns_def split: if_splits; metis lkpc.distinct)

lemma lk_inv_init: "lk_init s \<Longrightarrow> lk_inv s"
  by (simp add: lk_init_def lk_inv_def owns_def)

interpretation lkm: inductive_invariant lk_init lk_step lk_inv
  by unfold_locales (fact lk_inv_init, fact lk_inv_step)

section \<open>Properties\<close>

text \<open>
  C5. Mutual exclusion: in every state that any number of processors reach by interleaving the
  atomic steps of \<open>acquire\<close> and \<open>release\<close>, at most one processor owns the lock,
  the lock word is then nonzero, and a processor is in its critical section
  exactly when \<open>holding\<close> answers yes to it.
\<close>
theorem spinlock_mutual_exclusion:
  assumes "reach lk_init lk_step s" and "owns s i" and "owns s j"
  shows "i = j \<and> locked (mlock s) \<noteq> 0 \<and> (mpc s i = Critical \<longleftrightarrow> lk_holding i s)"
proof -
  have "lk_inv s" using assms(1) by (rule lkm.reach_inv)
  then show ?thesis using assms(2,3) by (auto simp: lk_inv_def lk_holding_def)
qed

definition lk_demo :: lkmachine where
  "lk_demo = \<lparr>mlock = \<lparr>locked = 0, lname = ''demo'', lcpu = None, lpcs = []\<rparr>, mpc = (\<lambda>_. Outside)\<rparr>"

theorem spinlock_mutual_exclusion_witness:
  "locked (mlock (lk_demo\<lparr>mpc := (\<lambda>_. Outside)(3 := Got), mlock := (mlock lk_demo)\<lparr>locked := 1\<rparr>\<rparr>)) \<noteq> 0"
proof -
  let ?t = "lk_demo\<lparr>mpc := (\<lambda>_. Outside)(3 := Spinning)\<rparr>"
  let ?u = "lk_demo\<lparr>mpc := (\<lambda>_. Outside)(3 := Got), mlock := (mlock lk_demo)\<lparr>locked := 1\<rparr>\<rparr>"
  have "reach lk_init lk_step lk_demo"
    by (rule reach_init) (simp add: lk_init_def lk_demo_def)
  moreover have "lk_step lk_demo ?t"
    using enter [of lk_demo 3] by (simp add: lk_demo_def lk_holding_def)
  moreover have "lk_step ?t ?u"
    using xchg_free [of ?t 3] by (simp add: lk_demo_def)
  ultimately have "reach lk_init lk_step ?u" by (blast intro: reach_step)
  moreover have "owns ?u 3" by (simp add: owns_def)
  ultimately show ?thesis using spinlock_mutual_exclusion [of ?u 3 3] by blast
qed

text \<open>
  C6. The contract of a lock, on every branch: a processor that holds exactly the locks
  \<open>hs\<close> and acquires a free lock that it does not hold then holds that one too, with
  interrupts off; acquiring a lock it holds panics; releasing a lock it holds frees it and, when
  it was the last, restores the interrupt flag that was saved by the outermost
  \<open>pushcli\<close>; releasing a lock it does not hold panics.
\<close>
theorem spinlock_contract:
  assumes "holds_locks me i hs s"
  shows "(lk \<in> set hs \<longrightarrow> acquire me lk s e = Panic ''acquire'') \<and>
    (lk \<notin> set hs \<longrightarrow> locked (locks s lk) = 0 \<longrightarrow>
      (\<exists>t. acquire me lk s e = Ret () t e \<and> holds_locks me i (lk # hs) t \<and> \<not> ifl t me \<and>
         saved_if me i t = saved_if me i s)) \<and>
    (lk \<notin> set hs \<longrightarrow> release me lk s e = Panic ''release'') \<and>
    (lk \<in> set hs \<longrightarrow>
      (\<exists>t. release me lk s e = Ret () t e \<and> holds_locks me i (remove1 lk hs) t \<and>
         locked (locks t lk) = 0 \<and> (remove1 lk hs = [] \<longrightarrow> ifl t me = saved_if me i s)))"
proof (intro conjI)
  show "lk \<in> set hs \<longrightarrow> acquire me lk s e = Panic ''acquire''"
    using acquire_held [OF assms] by simp
  show "lk \<notin> set hs \<longrightarrow> release me lk s e = Panic ''release''"
    using release_not_held [OF assms] by simp
  show "lk \<notin> set hs \<longrightarrow> locked (locks s lk) = 0 \<longrightarrow>
      (\<exists>t. acquire me lk s e = Ret () t e \<and> holds_locks me i (lk # hs) t \<and> \<not> ifl t me \<and>
         saved_if me i t = saved_if me i s)"
  proof (intro impI exI conjI)
    assume lk: "lk \<notin> set hs" "locked (locks s lk) = 0"
    show "acquire me lk s e = Ret () (acquired me i lk s) e"
      using wp_acquire [OF assms lk] by (rule wp_eq_ret)
    show h: "holds_locks me i (lk # hs) (acquired me i lk s)"
      using holds_locks_acquired [OF assms lk] by simp
    then show "\<not> ifl (acquired me i lk s) me" by (simp add: holds_locks_def)
    show "saved_if me i (acquired me i lk s) = saved_if me i s"
      using holds_locks_acquired [OF assms lk] by simp
  qed
  show "lk \<in> set hs \<longrightarrow>
      (\<exists>t. release me lk s e = Ret () t e \<and> holds_locks me i (remove1 lk hs) t \<and>
         locked (locks t lk) = 0 \<and> (remove1 lk hs = [] \<longrightarrow> ifl t me = saved_if me i s))"
  proof (intro impI exI conjI)
    assume lk: "lk \<in> set hs"
    show "release me lk s e = Ret () (released me i lk s) e"
      using wp_release [OF assms lk] by (rule wp_eq_ret)
    show h: "holds_locks me i (remove1 lk hs) (released me i lk s)"
      using holds_locks_released [OF assms lk] by simp
    show "locked (locks (released me i lk s) lk) = 0"
      using holds_locks_released [OF assms lk] by simp
    assume "remove1 lk hs = []"
    then have "ncli (cpus (released me i lk s) ! i) = 0" using h by (simp add: holds_locks_def)
    then show "ifl (released me i lk s) me = saved_if me i s"
      using holds_locks_released(3) [OF assms lk] by (simp add: saved_if_def)
  qed
qed

definition smp_demo :: "nat smp" where
  "smp_demo = \<lparr>locks = (\<lambda>_. \<lparr>locked = 0, lname = ''lk'', lcpu = None, lpcs = replicate 10 0\<rparr>),
     cpus = [\<lparr>apicid = 4, ncli = 0, intena = False\<rparr>, \<lparr>apicid = 7, ncli = 0, intena = False\<rparr>],
     ncpu = 2, ifl = (\<lambda>_. True), stackw = (\<lambda>_. 0), argp = (\<lambda>_. 0)\<rparr>"

theorem spinlock_contract_witness:
  "\<exists>t. acquire 7 5 smp_demo [] = Ret () t [] \<and> holds_locks 7 1 [5] t \<and> \<not> ifl t 7 \<and>
     saved_if 7 1 t = saved_if 7 1 smp_demo"
proof -
  have "holds_locks 7 1 [] smp_demo"
    by (simp add: holds_locks_def on_cpu_def smp_demo_def)
  from spinlock_contract [OF this, of 5 "[]"] show ?thesis by (simp add: smp_demo_def)
qed

end
