(* ===== verification/Machine.thy ===== *)
theory Machine
  imports Spinlock
begin

text \<open>
  The bottom layer of the kernel state: the spin locks held by the running kernel path, the bytes
  of physical memory as the kernel addresses them, and what has been printed on the console.

  The rest of the kernel takes a lock through \<open>lock\<close> and \<open>unlock\<close>, which keep the list
  of the locks that the running processor holds. The refinement lemmas at the end of
  the theory show that \<open>acquire\<close> and \<open>release\<close> of \<open>spinlock.c\<close> implement them: the list
  is the set of locks whose structure names the processor, and its length is the
  nesting depth \<open>ncli\<close> that \<open>sched\<close> tests.

  Later layers extend the record: each component adds its own fields, and the operations of a
  layer are polymorphic in the fields that the layers above add.
\<close>

unbundle bit_operations_syntax

section \<open>Locks\<close>

text \<open>The spin locks of the kernel, by the structure they are in.\<close>

datatype lockid =
    KmemLk | PtableLk | TicksLk | ConsLk | IdeLk | BcacheLk | LogLk | IcacheLk | FtableLk
  | MsgLk nat | PipeLk u32 | BufSleepLk nat | InodeSleepLk nat

text \<open>
  The console: whether \<open>cprintf\<close> takes the console's lock, whether a processor has panicked, whether there is a
  serial port and the bytes sent to it, the cells of the screen and the cursor register.
\<close>

record console =
  locking :: bool
  panicked :: bool
  uart :: bool
  uart_out :: "u8 list"
  crt :: "nat \<Rightarrow> u16"
  crt_pos :: u16

record mach =
  held :: "lockid list"
  kmem :: "u32 \<Rightarrow> u8"
  con :: console

definition lock :: "lockid \<Rightarrow> ('z mach_scheme, unit) kop" where
  "lock lk = bind (gets held) (\<lambda>hs.
     if lk \<in> set hs then panic ''acquire'' else modify (\<lambda>s. s\<lparr>held := lk # hs\<rparr>))"

definition unlock :: "lockid \<Rightarrow> ('z mach_scheme, unit) kop" where
  "unlock lk = bind (gets held) (\<lambda>hs.
     if lk \<notin> set hs then panic ''release'' else modify (\<lambda>s. s\<lparr>held := remove1 lk hs\<rparr>))"

definition holds :: "lockid \<Rightarrow> 'z mach_scheme \<Rightarrow> bool" where
  "holds lk s \<longleftrightarrow> lk \<in> set (held s)"

lemmas lock_kdefs [kdefs] = lock_def unlock_def holds_def

lemma wp_lock [wp_rules]:
  "wp (lock lk) Q s e = (lk \<notin> set (held s) \<and> Q () (s\<lparr>held := lk # held s\<rparr>) e)"
  by (simp add: lock_def wp_rules)

lemma wp_unlock [wp_rules]:
  "wp (unlock lk) Q s e = (lk \<in> set (held s) \<and> Q () (s\<lparr>held := remove1 lk (held s)\<rparr>) e)"
  by (simp add: unlock_def wp_rules)

lemma wlp_lock [wp_rules]:
  "wlp (lock lk) Q s e = (lk \<notin> set (held s) \<and> Q () (s\<lparr>held := lk # held s\<rparr>) e)"
  by (simp add: lock_def wp_rules)

lemma wlp_unlock [wp_rules]:
  "wlp (unlock lk) Q s e = (lk \<in> set (held s) \<and> Q () (s\<lparr>held := remove1 lk (held s)\<rparr>) e)"
  by (simp add: unlock_def wp_rules)

lemma lock_ret: "lk \<notin> set (held s) \<Longrightarrow> lock lk s e = Ret () (s\<lparr>held := lk # held s\<rparr>) e"
  by (simp add: lock_def monad_defs)

lemma unlock_ret: "lk \<in> set (held s) \<Longrightarrow> unlock lk s e = Ret () (s\<lparr>held := remove1 lk (held s)\<rparr>) e"
  by (simp add: unlock_def monad_defs)

lemma lock_panics: "lk \<in> set (held s) \<Longrightarrow> lock lk s e = Panic ''acquire''"
  by (simp add: lock_def monad_defs)

lemma unlock_panics: "lk \<notin> set (held s) \<Longrightarrow> unlock lk s e = Panic ''release''"
  by (simp add: unlock_def monad_defs)

lemma pwp_lock [pwp_rules]:
  "pwp (lock lk) Q s e = (lk \<notin> set (held s) \<longrightarrow> Q () (s\<lparr>held := lk # held s\<rparr>) e)"
  by (simp add: lock_def pwp_rules)

lemma pwp_unlock [pwp_rules]:
  "pwp (unlock lk) Q s e = (lk \<in> set (held s) \<longrightarrow> Q () (s\<lparr>held := remove1 lk (held s)\<rparr>) e)"
  by (simp add: unlock_def pwp_rules)

lemma frame_lock [frame_intros]: "(\<And>s h. F (s\<lparr>held := h\<rparr>) = F s) \<Longrightarrow> frame F (lock lk)"
  by (simp add: lock_def frame_intros)

lemma frame_unlock [frame_intros]: "(\<And>s h. F (s\<lparr>held := h\<rparr>) = F s) \<Longrightarrow> frame F (unlock lk)"
  by (simp add: unlock_def frame_intros)

interpretation klk: lock_api lock unlock "\<lambda>hs s. held s = hs \<and> distinct hs"
  "\<lambda>lk s. lk \<notin> set (held s)"
  by unfold_locales (auto simp: wp_lock wp_unlock lock_panics unlock_panics)

section \<open>Memory\<close>

text \<open>A byte memory and its little-endian 32-bit words.\<close>

definition load32 :: "(u32 \<Rightarrow> u8) \<Rightarrow> u32 \<Rightarrow> u32" where
  "load32 m a = ucast (m a) OR push_bit 8 (ucast (m (a + 1))) OR
     push_bit 16 (ucast (m (a + 2))) OR push_bit 24 (ucast (m (a + 3)))"

definition store32 :: "u32 \<Rightarrow> u32 \<Rightarrow> (u32 \<Rightarrow> u8) \<Rightarrow> u32 \<Rightarrow> u8" where
  "store32 a w m = m(a := ucast w, a + 1 := ucast (drop_bit 8 w),
     a + 2 := ucast (drop_bit 16 w), a + 3 := ucast (drop_bit 24 w))"

text \<open>The bytes \<open>bs\<close> at the addresses \<open>a, a + 1, ...\<close>, and the \<open>n\<close> bytes there.\<close>

fun store_bytes :: "u32 \<Rightarrow> u8 list \<Rightarrow> (u32 \<Rightarrow> u8) \<Rightarrow> u32 \<Rightarrow> u8" where
  "store_bytes a [] m = m"
| "store_bytes a (b # bs) m = store_bytes (a + 1) bs (m(a := b))"

fun load_bytes :: "(u32 \<Rightarrow> u8) \<Rightarrow> u32 \<Rightarrow> nat \<Rightarrow> u8 list" where
  "load_bytes m a 0 = []"
| "load_bytes m a (Suc n) = m a # load_bytes m (a + 1) n"

lemma load32_store32 [simp]: "load32 (store32 a w m) a = w"
proof (rule bit_word_eqI)
  fix n :: nat
  assume "n < LENGTH(32)"
  then consider "n < 8" | "8 \<le> n" "n < 16" | "16 \<le> n" "n < 24" | "24 \<le> n" "n < 32" by fastforce
  then show "bit (load32 (store32 a w m) a) n = bit w n"
    by cases (auto simp: load32_def store32_def bit_simps)
qed

text \<open>Addresses split uniquely into an aligned base and an offset below the alignment.\<close>

lemma aligned_unique:
  fixes a b :: u32
  assumes n: "n dvd 2 ^ 32" and a: "unat a mod n = 0" and b: "unat b mod n = 0"
    and i: "i < n" and j: "j < n" and eq: "a + of_nat i = b + of_nat j"
  shows "a = b \<and> i = j"
proof -
  have m: "unat (x + of_nat k :: u32) mod n = k" if "unat x mod n = 0" "k < n" for x :: u32 and k
  proof -
    have "unat (x + of_nat k :: u32) = (unat x + k) mod 2 ^ 32"
      by (simp add: unat_word_ariths unat_of_nat mod_add_right_eq)
    then have "unat (x + of_nat k :: u32) mod n = (unat x + k) mod n"
      using n by (simp add: mod_mod_cancel)
    also have "\<dots> = (unat x mod n + k) mod n" by (simp add: mod_add_left_eq)
    finally show ?thesis using that by simp
  qed
  have "i = j" using m [OF a i] m [OF b j] eq by simp
  with eq show ?thesis by simp
qed

lemma aligned_unique4:
  fixes a b :: u32
  assumes "unat a mod 4 = 0" "unat b mod 4 = 0" "a + i = b + j" "i \<in> {0, 1, 2, 3}" "j \<in> {0, 1, 2, 3}"
  shows "a = b \<and> i = j"
proof -
  have i: "unat i < 4" "i = of_nat (unat i)" and j: "unat j < 4" "j = of_nat (unat j)"
    using assms(4,5) by auto
  show ?thesis
    using aligned_unique [of 4 a b "unat i" "unat j"] assms(1-3) i j by simp
qed

lemma load32_store32_other [simp]:
  assumes "unat a mod 4 = 0" "unat b mod 4 = 0" "a \<noteq> b"
  shows "load32 (store32 a w m) b = load32 m b"
proof -
  have ne: "a + i \<noteq> b + j" if "i \<in> {0, 1, 2, 3}" "j \<in> {0, 1, 2, 3}" for i j
    using aligned_unique4 [OF assms(1,2) _ that] assms(3) by blast
  have "store32 a w m (b + j) = m (b + j)" if "j \<in> {0, 1, 2, 3}" for j
    using ne [of 0 j] ne [of 1 j] ne [of 2 j] ne [of 3 j] that by (simp add: store32_def)
  from this [of 0] this [of 1] this [of 2] this [of 3] show ?thesis
    by (simp add: load32_def)
qed

lemma length_load_bytes [simp]: "length (load_bytes m a n) = n"
  by (induction n arbitrary: a) auto

lemma nth_load_bytes: "i < n \<Longrightarrow> load_bytes m a n ! i = m (a + of_nat i)"
proof (induction n arbitrary: a i)
  case 0
  then show ?case by simp
next
  case (Suc n)
  then show ?case by (cases i) (simp_all add: add.assoc)
qed

lemma store_bytes_other:
  "(\<And>i. i < length bs \<Longrightarrow> b \<noteq> a + of_nat i) \<Longrightarrow> store_bytes a bs m b = m b"
proof (induction bs arbitrary: a m)
  case Nil
  then show ?case by simp
next
  case (Cons x bs)
  have "b \<noteq> a" using Cons.prems [of 0] by simp
  moreover have "b \<noteq> a + 1 + of_nat i" if "i < length bs" for i
    using Cons.prems [of "Suc i"] that by (simp add: add.assoc)
  moreover from this have "store_bytes (a + 1) bs (m(a := x)) b = (m(a := x)) b" by (rule Cons.IH)
  ultimately show ?case by simp
qed

lemma of_nat_inj32: "i < 2 ^ 32 \<Longrightarrow> j < 2 ^ 32 \<Longrightarrow> (of_nat i :: u32) = of_nat j \<longleftrightarrow> i = j"
  by (simp add: word_of_nat_eq_iff take_bit_nat_eq_self)

lemma store_bytes_nth:
  "i < length bs \<Longrightarrow> length bs \<le> 2 ^ 32 \<Longrightarrow> store_bytes a bs m (a + of_nat i) = bs ! i"
proof (induction bs arbitrary: a m i)
  case Nil
  then show ?case by simp
next
  case (Cons x bs)
  show ?case
  proof (cases i)
    case 0
    have "store_bytes (a + 1) bs (m(a := x)) a = (m(a := x)) a"
    proof (rule store_bytes_other)
      fix j assume "j < length bs"
      then have "Suc j < 2 ^ 32" using Cons.prems by simp
      then have "(of_nat (Suc j) :: u32) \<noteq> of_nat 0" by (subst of_nat_inj32) simp_all
      then show "a \<noteq> a + 1 + of_nat j" by (simp add: add.assoc)
    qed
    then show ?thesis using 0 by simp
  next
    case (Suc k)
    have "store_bytes (a + 1) bs (m(a := x)) (a + 1 + of_nat k) = bs ! k"
      by (rule Cons.IH) (use Cons.prems Suc in simp_all)
    then show ?thesis using Suc by (simp add: add.assoc)
  qed
qed

lemma load_store_bytes:
  "length bs \<le> 2 ^ 32 \<Longrightarrow> load_bytes (store_bytes a bs m) a (length bs) = bs"
  by (rule nth_equalityI) (simp_all add: nth_load_bytes store_bytes_nth)


section \<open>The spin locks of \<open>spinlock.c\<close> implement the held list\<close>

text \<open>
  C7. Refinement: let the structures of \<open>spinlock.c\<close> represent the list of locks held (the
  relation \<open>holds_locks\<close>) and let the lock not be held by another processor. Then \<open>acquire\<close>
  and \<open>release\<close> answer as \<open>lock\<close> and \<open>unlock\<close> do, with the same panics, and where they
  return, the structures represent the new list, whose length is the nesting depth.
\<close>
theorem spinlock_refines_held_list:
  assumes rep: "holds_locks me i (held a) s"
    and free: "lk \<notin> set (held a) \<Longrightarrow> locked (locks s lk) = 0"
  shows "(case lock lk a d of
       Ret _ a' _ \<Rightarrow> \<exists>s'. acquire me lk s e = Ret () s' e \<and> holds_locks me i (held a') s' \<and>
          ncli (cpus s' ! i) = int (length (held a'))
     | Panic msg \<Rightarrow> acquire me lk s e = Panic msg | _ \<Rightarrow> False) \<and>
    (case unlock lk a d of
       Ret _ a' _ \<Rightarrow> \<exists>s'. release me lk s e = Ret () s' e \<and> holds_locks me i (held a') s' \<and>
          ncli (cpus s' ! i) = int (length (held a'))
     | Panic msg \<Rightarrow> release me lk s e = Panic msg | _ \<Rightarrow> False)"
proof (cases "lk \<in> set (held a)")
  case True
  have "release me lk s e = Ret () (released me i lk s) e"
    using wp_release [OF rep True] by (rule wp_eq_ret)
  moreover have h: "holds_locks me i (remove1 lk (held a)) (released me i lk s)"
    by (rule holds_locks_released [OF rep True])
  ultimately show ?thesis
    using acquire_held [OF rep True] holds_locksD(5) [OF h] True
    by (simp add: lock_panics unlock_ret)
next
  case False
  have "acquire me lk s e = Ret () (acquired me i lk s) e"
    using wp_acquire [OF rep False free [OF False]] by (rule wp_eq_ret)
  moreover have h: "holds_locks me i (lk # held a) (acquired me i lk s)"
    by (rule holds_locks_acquired [OF rep False free [OF False]])
  ultimately show ?thesis
    using release_not_held [OF rep False] holds_locksD(5) [OF h] False
    by (simp add: unlock_panics lock_ret)
qed

definition con_demo :: console where
  "con_demo = \<lparr>locking = True, panicked = False, uart = True, uart_out = [], crt = (\<lambda>_. 0), crt_pos = 0\<rparr>"

definition mach_demo :: mach where
  "mach_demo = \<lparr>held = [], kmem = (\<lambda>_. 0), con = con_demo\<rparr>"

definition smp_lockid_demo :: "lockid smp" where
  "smp_lockid_demo = \<lparr>locks = (\<lambda>_. \<lparr>locked = 0, lname = ''lk'', lcpu = None, lpcs = replicate 10 0\<rparr>),
     cpus = [\<lparr>apicid = 0, ncli = 0, intena = False\<rparr>],
     ncpu = 1, ifl = (\<lambda>_. True), stackw = (\<lambda>_. 0), argp = (\<lambda>_. 0)\<rparr>"

theorem spinlock_refines_held_list_witness:
  "\<exists>s'. acquire 0 PtableLk smp_lockid_demo [] = Ret () s' [] \<and> holds_locks 0 0 [PtableLk] s'"
proof -
  have rep: "holds_locks 0 0 (held mach_demo) smp_lockid_demo"
    by (simp add: holds_locks_def on_cpu_def smp_lockid_demo_def mach_demo_def)
  have free: "PtableLk \<notin> set (held mach_demo) \<Longrightarrow> locked (locks smp_lockid_demo PtableLk) = 0"
    by (simp add: smp_lockid_demo_def)
  have "lock PtableLk mach_demo [] = Ret () (mach_demo\<lparr>held := [PtableLk]\<rparr>) []"
    by (simp add: lock_ret mach_demo_def)
  with spinlock_refines_held_list [OF rep free, of "[]" "[]"] show ?thesis by auto
qed

end
