(* ===== verification/Cstring.thy ===== *)
theory Cstring
  imports Machine
begin

text \<open>
  The memory and string routines of \<open>string.c\<close>. The routines that move raw memory work on
  the byte memory with 32-bit addresses; the routines on character arrays read their sources through
  a function from the offset to the byte, which stands for the pointer they advance, and give
  the list of the bytes they write to the destination.

  Shown here: \<open>memset\<close> by words equals the plain byte fill; \<open>memmove\<close> copies
  correctly when source and destination overlap; \<open>strncpy\<close> always writes the
  whole field and \<open>safestrcpy\<close> always ends it.
\<close>

section \<open>Raw memory\<close>

text \<open>The instructions \<open>rep stosb\<close> and \<open>rep stosl\<close>.\<close>

fun stosb :: "u32 \<Rightarrow> u8 \<Rightarrow> nat \<Rightarrow> (u32 \<Rightarrow> u8) \<Rightarrow> u32 \<Rightarrow> u8" where
  "stosb addr data 0 m = m"
| "stosb addr data (Suc cnt) m = stosb (addr + 1) data cnt (m(addr := data))"

fun stosl :: "u32 \<Rightarrow> u32 \<Rightarrow> nat \<Rightarrow> (u32 \<Rightarrow> u8) \<Rightarrow> u32 \<Rightarrow> u8" where
  "stosl addr data 0 m = m"
| "stosl addr data (Suc cnt) m = stosl (addr + 4) data cnt (store32 addr data m)"

definition memset :: "u32 \<Rightarrow> u32 \<Rightarrow> u32 \<Rightarrow> (u32 \<Rightarrow> u8) \<Rightarrow> u32 \<Rightarrow> u8" where
  "memset dst c n m =
     (if dst mod 4 = 0 \<and> n mod 4 = 0
      then let c' = c AND 0xFF
        in stosl dst (push_bit 24 c' OR push_bit 16 c' OR push_bit 8 c' OR c') (unat (n div 4)) m
      else stosb dst (ucast c) (unat n) m)"

fun memcmp :: "(u32 \<Rightarrow> u8) \<Rightarrow> u32 \<Rightarrow> u32 \<Rightarrow> nat \<Rightarrow> int" where
  "memcmp m s1 s2 0 = 0"
| "memcmp m s1 s2 (Suc n) =
     (if m s1 \<noteq> m s2 then uint (m s1) - uint (m s2) else memcmp m (s1 + 1) (s2 + 1) n)"

fun copy_up :: "u32 \<Rightarrow> u32 \<Rightarrow> nat \<Rightarrow> (u32 \<Rightarrow> u8) \<Rightarrow> u32 \<Rightarrow> u8" where
  "copy_up d s 0 m = m"
| "copy_up d s (Suc n) m = copy_up (d + 1) (s + 1) n (m(d := m s))"

fun copy_down :: "u32 \<Rightarrow> u32 \<Rightarrow> nat \<Rightarrow> (u32 \<Rightarrow> u8) \<Rightarrow> u32 \<Rightarrow> u8" where
  "copy_down d s 0 m = m"
| "copy_down d s (Suc n) m = copy_down (d - 1) (s - 1) n (m(d - 1 := m (s - 1)))"

definition memmove :: "u32 \<Rightarrow> u32 \<Rightarrow> u32 \<Rightarrow> (u32 \<Rightarrow> u8) \<Rightarrow> u32 \<Rightarrow> u8" where
  "memmove dst src n m =
     (if src < dst \<and> src + n > dst then copy_down (dst + n) (src + n) (unat n) m
      else copy_up dst src (unat n) m)"

section \<open>Character arrays\<close>

fun strncmp :: "(nat \<Rightarrow> u8) \<Rightarrow> (nat \<Rightarrow> u8) \<Rightarrow> nat \<Rightarrow> int" where
  "strncmp p q 0 = 0"
| "strncmp p q (Suc n) =
     (if p 0 \<noteq> 0 \<and> p 0 = q 0 then strncmp (\<lambda>i. p (Suc i)) (\<lambda>i. q (Suc i)) n
      else uint (p 0) - uint (q 0))"

fun strncpy :: "(nat \<Rightarrow> u8) \<Rightarrow> nat \<Rightarrow> u8 list" where
  "strncpy t 0 = []"
| "strncpy t (Suc n) = (if t 0 = 0 then 0 # replicate n 0 else t 0 # strncpy (\<lambda>i. t (Suc i)) n)"

text \<open>The bytes written by the loop of \<open>safestrcpy\<close> with \<open>n\<close> the value before \<open>--n\<close>, and the final NUL.\<close>

fun safestrcpy :: "(nat \<Rightarrow> u8) \<Rightarrow> nat \<Rightarrow> u8 list" where
  "safestrcpy t 0 = []"
| "safestrcpy t (Suc 0) = [0]"
| "safestrcpy t (Suc (Suc n)) =
     (if t 0 = 0 then [0, 0] else t 0 # safestrcpy (\<lambda>i. t (Suc i)) (Suc n))"

partial_function (option) strlen_at :: "(nat \<Rightarrow> u8) \<Rightarrow> nat \<Rightarrow> nat option" where
  "strlen_at s n = (if s n = 0 then Some n else strlen_at s (Suc n))"

definition strlen :: "(nat \<Rightarrow> u8) \<Rightarrow> nat option" where
  "strlen s = strlen_at s 0"

text \<open>A string literal as an array with its terminating NUL.\<close>

definition lit :: "string \<Rightarrow> nat \<Rightarrow> u8" where
  "lit cs i = (if i < length cs then of_char (cs ! i) else 0)"

text \<open>An array written from its start: the rest of the array stays.\<close>

definition overwrite :: "'a list \<Rightarrow> 'a list \<Rightarrow> 'a list" where
  "overwrite bs xs = bs @ drop (length bs) xs"

text \<open>The text of a character array up to its first NUL.\<close>

definition text_of :: "u8 list \<Rightarrow> string" where
  "text_of bs = map (\<lambda>b. char_of (unat b)) (takeWhile (\<lambda>b. b \<noteq> 0) bs)"

section \<open>memset\<close>

lemma stosb_store_bytes: "stosb a b n m = store_bytes a (replicate n b) m"
  by (induction n arbitrary: a m) simp_all

lemma word_of_byte:
  fixes c :: u32
  defines "w \<equiv> push_bit 24 (c AND 0xFF) OR push_bit 16 (c AND 0xFF) OR push_bit 8 (c AND 0xFF) OR (c AND 0xFF)"
  shows "(ucast w :: u8) = ucast c" "(ucast (drop_bit 8 w) :: u8) = ucast c"
    "(ucast (drop_bit 16 w) :: u8) = ucast c" "(ucast (drop_bit 24 w) :: u8) = ucast c"
proof -
  have m: "(0xFF :: u32) = mask 8" by (simp add: mask_eq_exp_minus_1)
  have w: "bit w n = (n < 32 \<and> bit c (n mod 8))" for n
  proof (cases "n < 32")
    case True
    define k where "k = n mod 8"
    have k: "k < 8" "n = k + 8 * (n div 8)" by (simp_all add: k_def)
    have "n div 8 < 4" using True by simp
    then consider "n div 8 = 0" | "n div 8 = 1" | "n div 8 = 2" | "n div 8 = 3" by linarith
    then have "n = k \<or> n = k + 8 \<or> n = k + 16 \<or> n = k + 24" using k(2) by cases auto
    then show ?thesis using k(1) unfolding k_def [symmetric]
      by (auto simp: w_def m bit_simps simp flip: take_bit_eq_mask)
  next
    case False
    then show ?thesis using bit_imp_le_length [of w n] by auto
  qed
  have s: "(16 + n) mod 8 = n mod 8" "(24 + n) mod 8 = n mod 8" for n :: nat by presburger+
  show "(ucast w :: u8) = ucast c" "(ucast (drop_bit 8 w) :: u8) = ucast c"
    "(ucast (drop_bit 16 w) :: u8) = ucast c" "(ucast (drop_bit 24 w) :: u8) = ucast c"
    by (rule bit_word_eqI; simp add: bit_simps w s)+
qed
lemma unat_div4:
  fixes n :: u32
  assumes "n mod 4 = 0"
  shows "4 * unat (n div 4) = unat n"
proof -
  have "unat (n mod 4) = 0" using assms by simp
  then have "unat n mod 4 = 0" by (simp add: unat_mod_distrib)
  then show ?thesis using mult_div_mod_eq [of 4 "unat n"] by (simp add: unat_div_distrib)
qed
lemma stosl_store_bytes:
  assumes "ucast w = b" "ucast (drop_bit 8 w) = b" "ucast (drop_bit 16 w) = b" "ucast (drop_bit 24 w) = b"
  shows "stosl a w n m = store_bytes a (replicate (4 * n) b) m"
proof (induction n arbitrary: a m)
  case 0
  then show ?case by simp
next
  case (Suc n)
  have r: "replicate (4 * Suc n) b = b # b # b # b # replicate (4 * n) b"
    by (simp add: numeral_eq_Suc)
  have "store32 a w m = m(a := b, a + 1 := b, a + 2 := b, a + 3 := b)"
    using assms by (simp add: store32_def)
  then show ?case
    unfolding r stosl.simps store_bytes.simps Suc by (simp add: add.assoc del: fun_upd_apply)
qed

lemma memset_eq: "memset dst c n m = store_bytes dst (replicate (unat n) (ucast c)) m"
proof (cases "dst mod 4 = 0 \<and> n mod 4 = 0")
  case True
  then show ?thesis using word_of_byte [of c]
    by (simp add: memset_def Let_def stosl_store_bytes unat_div4)
next
  case False
  then show ?thesis by (simp only: memset_def stosb_store_bytes if_False)
qed

section \<open>memmove\<close>

lemma store_bytes_upd_commute:
  "(\<And>i. i < length bs \<Longrightarrow> x \<noteq> a + of_nat i) \<Longrightarrow>
     store_bytes a bs (m(x := v)) = (store_bytes a bs m)(x := v)"
proof (induction bs arbitrary: a m)
  case Nil
  then show ?case by simp
next
  case (Cons b bs)
  have ne: "x \<noteq> a" using Cons.prems [of 0] by simp
  have "x \<noteq> a + 1 + of_nat i" if "i < length bs" for i
    using Cons.prems [of "Suc i"] that by (simp add: add.assoc)
  then have "store_bytes (a + 1) bs ((m(a := b))(x := v)) = (store_bytes (a + 1) bs (m(a := b)))(x := v)"
    by (rule Cons.IH)
  then show ?case using ne by (simp add: fun_upd_twist del: fun_upd_apply)
qed

lemma store_bytes_append:
  "store_bytes a (bs @ cs) m = store_bytes (a + of_nat (length bs)) cs (store_bytes a bs m)"
  by (induction bs arbitrary: a m) (simp_all add: add.assoc)

lemma load_bytes_cong:
  "(\<And>i. i < n \<Longrightarrow> m (a + of_nat i) = m' (a + of_nat i)) \<Longrightarrow> load_bytes m a n = load_bytes m' a n"
  by (rule nth_equalityI) (simp_all add: nth_load_bytes)

lemma load_bytes_Suc_last: "load_bytes m a (Suc n) = load_bytes m a n @ [m (a + of_nat n)]"
  by (rule nth_equalityI) (auto simp: nth_append nth_load_bytes less_Suc_eq simp del: load_bytes.simps)

lemma copy_up_eq:
  "(\<And>i j. i < j \<Longrightarrow> j < n \<Longrightarrow> d + of_nat i \<noteq> s + of_nat j) \<Longrightarrow>
     copy_up d s n m = store_bytes d (load_bytes m s n) m"
proof (induction n arbitrary: d s m)
  case 0
  then show ?case by simp
next
  case (Suc n)
  have "d + 1 + of_nat i \<noteq> s + 1 + of_nat j" if "i < j" "j < n" for i j
    using Suc.prems [of "Suc i" "Suc j"] that by (simp add: add.assoc)
  then have "copy_up (d + 1) (s + 1) n (m(d := m s)) =
      store_bytes (d + 1) (load_bytes (m(d := m s)) (s + 1) n) (m(d := m s))"
    by (rule Suc.IH)
  moreover have "load_bytes (m(d := m s)) (s + 1) n = load_bytes m (s + 1) n"
    by (rule load_bytes_cong) (use Suc.prems [of 0 "Suc _"] in \<open>auto simp: add.assoc\<close>)
  ultimately show ?case by (simp del: fun_upd_apply)
qed

lemma copy_down_eq:
  "n < 2 ^ 32 \<Longrightarrow> (\<And>i j. i < j \<Longrightarrow> j < n \<Longrightarrow> d + of_nat j \<noteq> s + of_nat i) \<Longrightarrow>
     copy_down (d + of_nat n) (s + of_nat n) n m = store_bytes d (load_bytes m s n) m"
proof (induction n arbitrary: m)
  case 0
  then show ?case by simp
next
  case (Suc n)
  let ?m = "m(d + of_nat n := m (s + of_nat n))"
  have ends: "d + of_nat (Suc n) - 1 = d + of_nat n" "s + of_nat (Suc n) - 1 = s + of_nat n"
    by simp_all
  have "copy_down (d + of_nat n) (s + of_nat n) n ?m = store_bytes d (load_bytes ?m s n) ?m"
    by (rule Suc.IH) (use Suc.prems in auto)
  moreover have "load_bytes ?m s n = load_bytes m s n"
  proof (rule load_bytes_cong)
    fix i assume "i < n"
    then have "s + of_nat i \<noteq> d + of_nat n" using Suc.prems(2) [of i n] by (metis lessI)
    then show "?m (s + of_nat i) = m (s + of_nat i)" by simp
  qed
  moreover have "store_bytes d (load_bytes m s n) ?m =
      (store_bytes d (load_bytes m s n) m)(d + of_nat n := m (s + of_nat n))"
  proof (rule store_bytes_upd_commute)
    fix i assume "i < length (load_bytes m s n)"
    then show "d + of_nat n \<noteq> d + of_nat i" using Suc.prems(1) by (simp add: of_nat_inj32)
  qed
  ultimately show ?case
    by (simp only: copy_down.simps ends load_bytes_Suc_last store_bytes_append length_load_bytes store_bytes.simps)
qed

lemma memmove_eq:
  assumes src: "unat src + unat n < 2 ^ 32" and dst: "unat dst + unat n < 2 ^ 32"
  shows "memmove dst src n m = store_bytes dst (load_bytes m src (unat n)) m"
proof -
  have u: "unat (a + of_nat i :: u32) = unat a + i" if "unat a + i < 2 ^ 32" for a :: u32 and i
    using that by (simp add: unat_word_ariths unat_of_nat mod_add_right_eq)
  have s: "unat (src + n) = unat src + unat n" using u [of src "unat n"] src by simp
  show ?thesis
  proof (cases "src < dst \<and> src + n > dst")
    case True
    then have lt: "unat src < unat dst" by (simp add: word_less_nat_alt)
    have "dst + of_nat j \<noteq> src + of_nat i" if "i < j" "j < unat n" for i j
    proof -
      have "unat (dst + of_nat j) = unat dst + j" "unat (src + of_nat i) = unat src + i"
        using that src dst by (simp_all add: u)
      then have "unat (dst + of_nat j) \<noteq> unat (src + of_nat i)" using lt that by linarith
      then show ?thesis by auto
    qed
    then have "copy_down (dst + of_nat (unat n)) (src + of_nat (unat n)) (unat n) m =
        store_bytes dst (load_bytes m src (unat n)) m"
      using src by (intro copy_down_eq) auto
    then show ?thesis using True by (simp add: memmove_def)
  next
    case False
    then have far: "unat dst \<le> unat src \<or> unat src + unat n \<le> unat dst"
      by (auto simp: word_less_nat_alt s)
    have "dst + of_nat i \<noteq> src + of_nat j" if "i < j" "j < unat n" for i j
    proof -
      have "unat (dst + of_nat i) = unat dst + i" "unat (src + of_nat j) = unat src + j"
        using that src dst by (simp_all add: u)
      then have "unat (dst + of_nat i) \<noteq> unat (src + of_nat j)" using far that by linarith
      then show ?thesis by auto
    qed
    then have "copy_up dst src (unat n) m = store_bytes dst (load_bytes m src (unat n)) m"
      by (rule copy_up_eq)
    then show ?thesis using False by (auto simp: memmove_def)
  qed
qed


section \<open>String routines\<close>

text \<open>The characters of an array of \<open>n\<close> bytes up to its first NUL.\<close>

fun ctext :: "(nat \<Rightarrow> u8) \<Rightarrow> nat \<Rightarrow> u8 list" where
  "ctext p 0 = []"
| "ctext p (Suc n) = (if p 0 = 0 then [] else p 0 # ctext (\<lambda>i. p (Suc i)) n)"

lemma ctext_cong: "(\<And>i. i < n \<Longrightarrow> p i = q i) \<Longrightarrow> ctext p n = ctext q n"
proof (induction n arbitrary: p q)
  case 0
  then show ?case by simp
next
  case (Suc n)
  have "ctext (\<lambda>i. p (Suc i)) n = ctext (\<lambda>i. q (Suc i)) n" by (rule Suc.IH) (simp add: Suc.prems)
  then show ?case using Suc.prems [of 0] by simp
qed

lemma strncmp_zero_iff: "strncmp p q n = 0 \<longleftrightarrow> ctext p n = ctext q n"
proof (induction p q n rule: strncmp.induct)
  case (1 p q)
  then show ?case by simp
next
  case (2 p q n)
  show ?case
  proof (cases "p 0 \<noteq> 0 \<and> p 0 = q 0")
    case True
    then show ?thesis using 2 by simp
  next
    case False
    then show ?thesis by (auto simp: word_uint_eq_iff)
  qed
qed

lemma length_strncpy [simp]: "length (strncpy t n) = n"
  by (induction t n rule: strncpy.induct) auto

lemma ctext_strncpy: "ctext (\<lambda>i. strncpy t n ! i) n = ctext t n"
proof (induction t n rule: strncpy.induct)
  case (1 t)
  then show ?case by simp
next
  case (2 t n)
  then show ?case by (cases "t 0 = 0") simp_all
qed

lemma strncpy_strncmp: "strncmp (\<lambda>i. strncpy t n ! i) t n = 0"
  by (simp add: strncmp_zero_iff ctext_strncpy)

lemma safestrcpy_bounds:
  "0 < n \<Longrightarrow> safestrcpy t n \<noteq> [] \<and> length (safestrcpy t n) \<le> n \<and> last (safestrcpy t n) = 0"
  by (induction t n rule: safestrcpy.induct) auto

lemma safestrcpy_text:
  "0 < n \<Longrightarrow> ctext (\<lambda>i. safestrcpy t n ! i) (length (safestrcpy t n)) = ctext t (n - 1)"
proof (induction t n rule: safestrcpy.induct)
  case (1 t)
  then show ?case by simp
next
  case (2 t)
  then show ?case by simp
next
  case (3 t n)
  then show ?case by (cases "t 0 = 0") simp_all
qed

lemma strlen_at_eq:
  "s k = 0 \<Longrightarrow> (\<And>i. n \<le> i \<Longrightarrow> i < k \<Longrightarrow> s i \<noteq> 0) \<Longrightarrow> n \<le> k \<Longrightarrow> strlen_at s n = Some k"
proof (induction "k - n" arbitrary: n)
  case 0
  then show ?case by (simp add: strlen_at.simps)
next
  case (Suc d)
  then have "s n \<noteq> 0" "strlen_at s (Suc n) = Some k" by auto
  then show ?case by (simp add: strlen_at.simps)
qed

lemma strlen_eq: "s k = 0 \<Longrightarrow> (\<And>i. i < k \<Longrightarrow> s i \<noteq> 0) \<Longrightarrow> strlen s = Some k"
  unfolding strlen_def by (rule strlen_at_eq) auto

section \<open>Properties\<close>

text \<open>
  C8. The word-at-a-time fast path of \<open>memset\<close> is equivalent to filling bytes one by one: for
  every destination, value and count it writes \<open>n\<close> copies of the low byte of
  \<open>c\<close> from \<open>dst\<close> on, and no other byte changes.
\<close>
theorem memset_fills_bytes: "memset dst c n m = store_bytes dst (replicate (unat n) (ucast c)) m"
  by (rule memset_eq)

text \<open>
  C9. \<open>memmove\<close> is correct for overlapping ranges: when neither range runs into the end of the
  address space, byte \<open>i\<close> of the destination is what byte \<open>i\<close> of the source was before
  the call, and every other byte is unchanged.
\<close>
theorem memmove_overlap:
  assumes "unat src + unat n < 2 ^ 32" and "unat dst + unat n < 2 ^ 32"
  shows "(\<forall>i<unat n. memmove dst src n m (dst + of_nat i) = m (src + of_nat i)) \<and>
    (\<forall>b. (\<forall>i<unat n. b \<noteq> dst + of_nat i) \<longrightarrow> memmove dst src n m b = m b)"
proof (intro conjI allI impI)
  fix i assume "i < unat n"
  then show "memmove dst src n m (dst + of_nat i) = m (src + of_nat i)"
    using assms by (simp add: memmove_eq store_bytes_nth nth_load_bytes)
next
  fix b assume "\<forall>i<unat n. b \<noteq> dst + of_nat i"
  then show "memmove dst src n m b = m b"
    using assms by (simp add: memmove_eq) (rule store_bytes_other, simp)
qed

theorem memmove_overlap_witness:
  "memmove 101 100 3 (\<lambda>a. ucast a) 103 = 102 \<and> memmove 101 100 3 (\<lambda>a. ucast a) 104 = 104"
proof -
  have "memmove 101 100 3 (\<lambda>a. ucast a) (101 + of_nat 2) = ucast (100 + of_nat 2 :: u32)"
    using memmove_overlap [of 100 3 101] by (simp del: of_nat_numeral)
  moreover have "\<forall>i<unat (3 :: u32). (104 :: u32) \<noteq> 101 + of_nat i"
  proof (intro allI impI)
    fix i :: nat assume "i < unat (3 :: u32)"
    then consider "i = 0" | "i = 1" | "i = 2" by fastforce
    then show "(104 :: u32) \<noteq> 101 + of_nat i" by cases simp_all
  qed
  then have "memmove 101 100 3 (\<lambda>a. ucast a) 104 = (ucast (104 :: u32) :: u8)"
    using memmove_overlap [of 100 3 101] by simp
  ultimately show ?thesis by simp
qed

end
