(* ===== verification/Console.thy ===== *)
theory Console
  imports Cstring
begin

text \<open>
  Console output: \<open>uartputc\<close> of \<open>uart.c\<close> and \<open>cgaputc\<close>, \<open>consputc\<close>, \<open>printint\<close> and
  \<open>cprintf\<close> of \<open>console.c\<close>. A call of \<open>panic\<close> is the result \<open>Panic\<close> of the prelude.
  A character given to \<open>consputc\<close> is an integer, as in the code, so that \<open>BACKSPACE\<close> is not
  one of the bytes. The arguments of \<open>cprintf\<close> are a list of integers and strings; a call whose
  arguments do not fit its format is a \<open>Fault\<close>.

  Shown here: the cursor stays on the screen, so that output never panics; \<open>cprintf\<close> prints exactly
  the text of its format; the digits of \<open>printint\<close> fit its buffer and denote the number.
\<close>

abbreviation BACKSPACE :: int where "BACKSPACE \<equiv> 0x100"

definition uartputc :: "int \<Rightarrow> console \<Rightarrow> console" where
  "uartputc c k = (if \<not> uart k then k else k\<lparr>uart_out := uart_out k @ [of_int c]\<rparr>)"

text \<open>The character at the cursor; the cursor after it.\<close>

definition cga_put :: "int \<Rightarrow> console \<Rightarrow> int \<times> (nat \<Rightarrow> u16)" where
  "cga_put c k =
     (let pos = uint (crt_pos k) in
      if c = 10 then (pos + (80 - pos mod 80), crt k)
      else if c = BACKSPACE then (if pos > 0 then pos - 1 else pos, crt k)
      else (pos + 1, (crt k)(nat pos := (of_int c AND 0xFF) OR 0x0700)))"

text \<open>The screen moves up by a row.\<close>

definition cga_scroll :: "int \<Rightarrow> (nat \<Rightarrow> u16) \<Rightarrow> int \<times> (nat \<Rightarrow> u16)" where
  "cga_scroll pos cells =
     (if pos div 80 \<ge> 24
      then let up = (\<lambda>i. if i < 23 * 80 then cells (i + 80) else cells i); pos' = pos - 80
        in (pos', \<lambda>i. if nat pos' \<le> i \<and> i < 24 * 80 then 0 else up i)
      else (pos, cells))"

definition cgaputc :: "int \<Rightarrow> ('z mach_scheme, unit) kop" where
  "cgaputc c = bind (gets con) (\<lambda>k.
     case cga_put c k of (pos, cells) \<Rightarrow>
       if pos < 0 \<or> pos > 25 * 80 then panic ''pos under/overflow''
       else case cga_scroll pos cells of (pos, cells) \<Rightarrow>
         modify (\<lambda>s. s\<lparr>con := k\<lparr>crt := cells(nat pos := 0x0720), crt_pos := of_int pos\<rparr>\<rparr>))"

definition consputc :: "int \<Rightarrow> ('z mach_scheme, unit) kop" where
  "consputc c = bind (gets con) (\<lambda>k.
     if panicked k then hang
     else andthen
       (if c = BACKSPACE
        then modify (\<lambda>s. s\<lparr>con := uartputc 8 (uartputc 32 (uartputc 8 (con s)))\<rparr>)
        else modify (\<lambda>s. s\<lparr>con := uartputc c (con s)\<rparr>))
       (cgaputc c))"

text \<open>
  The digits, least significant first, that the loop of \<open>printint\<close> puts into \<open>buf\<close>. The
  callers give the bases 10 and 16; no other base below 2 is divided by.
\<close>

function digits_of :: "string \<Rightarrow> u32 \<Rightarrow> u32 \<Rightarrow> string" where
  "digits_of digits base x =
     digits ! unat (x mod base) # (if base < 2 \<or> x div base = 0 then [] else digits_of digits base (x div base))"
  by auto
termination
proof (relation "measure (\<lambda>(_, _, x). unat x)", simp)
  fix base x :: u32
  assume h: "\<not> (base < 2 \<or> x div base = 0)"
  then have "2 \<le> unat base" by (simp add: word_less_nat_alt)
  moreover have "0 < unat x" using h by (metis div_0 unat_gt_0)
  ultimately show "((digits, base, x div base), digits, base, x) \<in> measure (\<lambda>(_, _, x). unat x)" for digits :: string
    by (simp add: unat_div_distrib)
qed

declare digits_of.simps [simp del]

definition printint_buf :: "string \<Rightarrow> u32 \<Rightarrow> u32 \<Rightarrow> bool \<Rightarrow> string" where
  "printint_buf digits xx base sign =
     (let neg = sign \<and> xx <s 0; x = (if neg then - xx else xx)
      in digits_of digits base x @ (if neg then ''-'' else []))"

definition printint :: "u32 \<Rightarrow> u32 \<Rightarrow> bool \<Rightarrow> ('z mach_scheme, unit) kop" where
  "printint xx base sign =
     forM (rev (printint_buf ''0123456789abcdef'' xx base sign)) (\<lambda>c. consputc (of_char c))"

text \<open>An argument of a variadic call: an integer or pointer, or a character array (\<open>None\<close> for a null pointer).\<close>

datatype fmtarg = AInt u32 | AStr "u8 list option"

text \<open>The loop over the characters of a string, which must have a terminating NUL.\<close>

fun put_string :: "u8 list \<Rightarrow> ('z mach_scheme, unit) kop" where
  "put_string [] = fault ''string''"
| "put_string (b # bs) = (if b = 0 then skip else andthen (consputc (sint b)) (put_string bs))"

abbreviation null_text :: "u8 list" where "null_text \<equiv> map of_char ''(null)'' @ [0]"

fun cprintf_loop :: "string \<Rightarrow> fmtarg list \<Rightarrow> ('z mach_scheme, unit) kop" where
  "cprintf_loop [] args = skip"
| "cprintf_loop (c # fmt) args =
     (if c \<noteq> CHR ''%'' then andthen (consputc (of_char c)) (cprintf_loop fmt args)
      else case fmt of
        [] \<Rightarrow> skip
      | d # fmt' \<Rightarrow>
          if d = CHR ''d'' then
            (case args of AInt x # args' \<Rightarrow> andthen (printint x 10 True) (cprintf_loop fmt' args')
             | _ \<Rightarrow> fault ''cprintf'')
          else if d = CHR ''x'' \<or> d = CHR ''p'' then
            (case args of AInt x # args' \<Rightarrow> andthen (printint x 16 False) (cprintf_loop fmt' args')
             | _ \<Rightarrow> fault ''cprintf'')
          else if d = CHR ''s'' then
            (case args of AStr t # args' \<Rightarrow>
               andthen (put_string (case t of None \<Rightarrow> null_text | Some bs \<Rightarrow> bs)) (cprintf_loop fmt' args')
             | _ \<Rightarrow> fault ''cprintf'')
          else if d = CHR ''%'' then andthen (consputc (of_char CHR ''%'')) (cprintf_loop fmt' args)
          else andthen (consputc (of_char CHR ''%''))
            (andthen (consputc (of_char d)) (cprintf_loop fmt' args)))"

definition cprintf :: "string \<Rightarrow> fmtarg list \<Rightarrow> ('z mach_scheme, unit) kop" where
  "cprintf fmt args = bind (gets (\<lambda>s. locking (con s))) (\<lambda>locking.
     andthen (whenM locking (lock ConsLk))
    (andthen (cprintf_loop fmt args)
     (whenM locking (unlock ConsLk))))"

section \<open>Output never leaves the screen\<close>

text \<open>The console works: nobody has panicked and the cursor is in the first 24 rows.\<close>

definition con_ok :: "console \<Rightarrow> bool" where
  "con_ok k \<longleftrightarrow> \<not> panicked k \<and> crt_pos k < 1920"

text \<open>What \<open>consputc\<close> does to a working console.\<close>

definition put_char :: "int \<Rightarrow> console \<Rightarrow> console" where
  "put_char c k =
     (let k' = (if c = BACKSPACE then uartputc 8 (uartputc 32 (uartputc 8 k)) else uartputc c k);
          (pos, cells) = case_prod cga_scroll (cga_put c k')
      in k'\<lparr>crt := cells(nat pos := 0x0720), crt_pos := of_int pos\<rparr>)"

lemma uartputc_fields [simp]:
  "crt (uartputc c k) = crt k" "crt_pos (uartputc c k) = crt_pos k"
  "panicked (uartputc c k) = panicked k" "locking (uartputc c k) = locking k"
  by (simp_all add: uartputc_def)

lemma cga_put_bounds:
  assumes "crt_pos k < 1920"
  shows "0 \<le> fst (cga_put c k)" and "fst (cga_put c k) \<le> 2000"
proof -
  have "uint (crt_pos k) < 1920" using assms by (simp add: word_less_def)
  moreover have "0 \<le> uint (crt_pos k)" by simp
  ultimately show "0 \<le> fst (cga_put c k)" "fst (cga_put c k) \<le> 2000"
    by (auto simp: cga_put_def Let_def)
qed

lemma cga_scroll_bounds:
  assumes "0 \<le> pos" "pos \<le> 2000" "pos \<noteq> 2000"
  shows "0 \<le> fst (cga_scroll pos cells)" and "fst (cga_scroll pos cells) < 1920"
  using assms by (auto simp: cga_scroll_def Let_def)

lemma cga_put_lt: 
  assumes "crt_pos k < 1920"
  shows "fst (cga_put c k) \<le> 1920"
proof -
  define p where "p = uint (crt_pos k)"
  have p: "0 \<le> p" "p < 1920" using assms by (simp_all add: p_def word_less_def)
  then have "p + (80 - p mod 80) \<le> 1920" by presburger
  then show ?thesis using p by (auto simp: cga_put_def Let_def p_def [symmetric])
qed

lemma put_char_ok [simp]:
  assumes "con_ok k"
  shows "con_ok (put_char c k)"
proof -
  define k' where "k' = (if c = BACKSPACE then uartputc 8 (uartputc 32 (uartputc 8 k)) else uartputc c k)"
  have k': "crt_pos k' < 1920" "\<not> panicked k'" using assms by (simp_all add: k'_def con_ok_def)
  obtain pos cells where put: "cga_put c k' = (pos, cells)" by force
  have b: "0 \<le> pos" "pos \<le> 1920"
    using cga_put_bounds(1) [OF k'(1), of c] cga_put_lt [OF k'(1), of c] by (simp_all add: put)
  obtain p2 cells2 where scr: "cga_scroll pos cells = (p2, cells2)" by force
  have "0 \<le> p2" "p2 < 1920" using cga_scroll_bounds [of pos cells] b by (simp_all add: scr)
  then have "(of_int p2 :: u16) < 1920" by (simp add: word_less_def uint_word_of_int_eq take_bit_int_eq_self)
  then show ?thesis using k' by (simp add: put_char_def k'_def [symmetric] put scr con_ok_def)
qed

lemma put_char_locking [simp]: "locking (put_char c k) = locking k"
  by (auto simp: put_char_def Let_def split: prod.split)

lemma consputc_ret:
  assumes "con_ok (con s)"
  shows "consputc c s e = Ret () (s\<lparr>con := put_char c (con s)\<rparr>) e"
proof -
  define k where "k = (if c = BACKSPACE then uartputc 8 (uartputc 32 (uartputc 8 (con s))) else uartputc c (con s))"
  have k: "crt_pos k < 1920" using assms by (simp add: k_def con_ok_def)
  obtain pos cells where put: "cga_put c k = (pos, cells)" by force
  have b: "0 \<le> pos" "pos \<le> 2000" using cga_put_bounds [OF k, of c] by (simp_all add: put)
  have "consputc c s e = cgaputc c (s\<lparr>con := k\<rparr>) e"
    using assms by (simp add: consputc_def monad_defs con_ok_def k_def)
  also have "\<dots> = Ret () (s\<lparr>con := put_char c (con s)\<rparr>) e"
    using b by (simp add: cgaputc_def monad_defs put put_char_def k_def [symmetric] split: prod.split)
  finally show ?thesis .
qed

lemma put_chars_ok [simp]: "con_ok k \<Longrightarrow> con_ok (fold put_char cs k)"
  by (induction cs arbitrary: k) simp_all

lemma put_chars_locking [simp]: "locking (fold put_char cs k) = locking k"
  by (induction cs arbitrary: k) simp_all

lemma put_chars_ret:
  "con_ok (con s) \<Longrightarrow>
   forM cs (\<lambda>c. consputc (f c)) s e = Ret () (s\<lparr>con := fold put_char (map f cs) (con s)\<rparr>) e"
  by (induction cs arbitrary: s) (simp_all add: monad_defs consputc_ret)

section \<open>The text of a format\<close>

definition chars :: "string \<Rightarrow> int list" where
  "chars t = map of_char t"

text \<open>The characters that \<open>cprintf\<close> prints for a format and its arguments.\<close>

fun fmt_text :: "string \<Rightarrow> fmtarg list \<Rightarrow> int list option" where
  "fmt_text [] args = Some []"
| "fmt_text [c] args = Some (if c = CHR ''%'' then [] else [of_char c])"
| "fmt_text (c # d # fmt) args =
     (if c \<noteq> CHR ''%'' then map_option (Cons (of_char c)) (fmt_text (d # fmt) args)
      else if d = CHR ''d'' then
        (case args of AInt x # args' \<Rightarrow>
           map_option (append (chars (rev (printint_buf ''0123456789abcdef'' x 10 True)))) (fmt_text fmt args')
         | _ \<Rightarrow> None)
      else if d = CHR ''x'' \<or> d = CHR ''p'' then
        (case args of AInt x # args' \<Rightarrow>
           map_option (append (chars (rev (printint_buf ''0123456789abcdef'' x 16 False)))) (fmt_text fmt args')
         | _ \<Rightarrow> None)
      else if d = CHR ''s'' then
        (case args of AStr t # args' \<Rightarrow>
           let bs = (case t of None \<Rightarrow> null_text | Some bs \<Rightarrow> bs) in
           if 0 \<in> set bs
           then map_option (append (map sint (takeWhile (\<lambda>b. b \<noteq> 0) bs))) (fmt_text fmt args')
           else None
         | _ \<Rightarrow> None)
      else if d = CHR ''%'' then map_option (Cons (of_char d)) (fmt_text fmt args)
      else map_option (append [of_char CHR ''%'', of_char d]) (fmt_text fmt args))"

lemma put_string_ret:
  "con_ok (con s) \<Longrightarrow> 0 \<in> set bs \<Longrightarrow>
   put_string bs s e = Ret () (s\<lparr>con := fold put_char (map sint (takeWhile (\<lambda>b. b \<noteq> 0) bs)) (con s)\<rparr>) e"
  by (induction bs arbitrary: s) (auto simp: monad_defs consputc_ret)

lemma printint_ret:
  "con_ok (con s) \<Longrightarrow> printint x base sign s e =
     Ret () (s\<lparr>con := fold put_char (chars (rev (printint_buf ''0123456789abcdef'' x base sign))) (con s)\<rparr>) e"
  by (simp add: printint_def put_chars_ret chars_def)

lemma andthen_ret: "m s e = Ret () t d \<Longrightarrow> andthen m n s e = n t d"
  by (simp add: monad_defs)

lemmas put_rets = put_string_ret printint_ret consputc_ret

lemma cprintf_loop_ret:
  "con_ok (con s) \<Longrightarrow> fmt_text fmt args = Some cs \<Longrightarrow>
   cprintf_loop fmt args s e = Ret () (s\<lparr>con := fold put_char cs (con s)\<rparr>) e"
proof (induction fmt args arbitrary: s cs rule: fmt_text.induct)
  case (1 args)
  then show ?case by (simp add: monad_defs)
next
  case (2 c args)
  then show ?case by (auto simp: andthen_ret consputc_ret monad_defs(1,8))
next
  case (3 c d fmt args)
  consider "c \<noteq> CHR ''%''" | "c = CHR ''%''" "d = CHR ''d''"
    | "c = CHR ''%''" "d = CHR ''x'' \<or> d = CHR ''p''"
    | "c = CHR ''%''" "d = CHR ''s''" | "c = CHR ''%''" "d = CHR ''%''"
    | "c = CHR ''%''" "d \<notin> {CHR ''d'', CHR ''x'', CHR ''p'', CHR ''s'', CHR ''%''}" by blast
  then show ?case
  proof cases
    case 1
    obtain z where z: "fmt_text (d # fmt) args = Some z" "cs = of_char c # z" using 1 "3.prems" by auto
    have "cprintf_loop (c # d # fmt) args s e = andthen (consputc (of_char c)) (cprintf_loop (d # fmt) args) s e"
      using 1 by simp
    also have "\<dots> = cprintf_loop (d # fmt) args (s\<lparr>con := put_char (of_char c) (con s)\<rparr>) e"
      using "3.prems"(1) by (simp add: andthen_ret consputc_ret del: cprintf_loop.simps)
    also have "\<dots> = Ret () (s\<lparr>con := fold put_char cs (con s)\<rparr>) e"
      by (subst "3.IH"(1) [OF 1 _ z(1)]) (simp_all add: "3.prems"(1) z(2))
    finally show ?thesis .
  next
    case 2
    then show ?thesis using "3.prems" "3.IH"(2)
      by (auto simp: andthen_ret put_rets fold_append split: list.splits fmtarg.splits)
  next
    case 3
    then show ?thesis using "3.prems" "3.IH"(3)
      by (auto simp: andthen_ret put_rets fold_append split: list.splits fmtarg.splits)
  next
    case 4
    then show ?thesis using "3.prems" "3.IH"(4)
      by (auto simp: Let_def andthen_ret put_rets fold_append split: list.splits fmtarg.splits if_splits)
  next
    case 5
    then show ?thesis using "3.prems" "3.IH"(5) by (auto simp: andthen_ret put_rets)
  next
    case 6
    then show ?thesis using "3.prems" "3.IH"(6) by (auto simp: andthen_ret put_rets)
  qed
qed

lemma cprintf_ret:
  assumes "con_ok (con s)" and "ConsLk \<notin> set (held s)" and "fmt_text fmt args = Some cs"
  shows "cprintf fmt args s e = Ret () (s\<lparr>con := fold put_char cs (con s)\<rparr>) e"
proof (cases "locking (con s)")
  case True
  then have "cprintf fmt args s e =
      andthen (cprintf_loop fmt args) (unlock ConsLk) (s\<lparr>held := ConsLk # held s\<rparr>) e"
    using assms(2) by (simp add: cprintf_def monad_defs lock_ret)
  also have "\<dots> = Ret () (s\<lparr>con := fold put_char cs (con s)\<rparr>) e"
    using assms by (simp add: andthen_ret [OF cprintf_loop_ret] unlock_ret)
  finally show ?thesis .
next
  case False
  then show ?thesis using assms by (simp add: cprintf_def monad_defs cprintf_loop_ret)
qed

lemma wp_cprintf [wp_rules]:
  assumes "con_ok (con s)" and "ConsLk \<notin> set (held s)" and "fmt_text fmt args = Some cs"
  shows "wp (cprintf fmt args) Q s e = Q () (s\<lparr>con := fold put_char cs (con s)\<rparr>) e"
    and "wlp (cprintf fmt args) Q s e = Q () (s\<lparr>con := fold put_char cs (con s)\<rparr>) e"
  by (simp_all add: wp_def wlp_def cprintf_ret [OF assms])

text \<open>
  An operation that prints: with a working console whose lock is free, it returns and changes nothing but the console,
  which still works.
\<close>

definition prints :: "('z mach_scheme, unit) kop \<Rightarrow> bool" where
  "prints m \<longleftrightarrow> (\<forall>s e. con_ok (con s) \<longrightarrow> ConsLk \<notin> set (held s) \<longrightarrow>
     (\<exists>k. con_ok k \<and> m s e = Ret () (s\<lparr>con := k\<rparr>) e))"

lemma prints_cprintf: "fmt_text fmt args \<noteq> None \<Longrightarrow> prints (cprintf fmt args)"
proof -
  assume "fmt_text fmt args \<noteq> None"
  then obtain cs where cs: "fmt_text fmt args = Some cs" by auto
  show ?thesis unfolding prints_def
    by (intro allI impI exI conjI, rule put_chars_ok) (assumption, rule cprintf_ret [OF _ _ cs])
qed

lemma prints_skip: "prints skip"
proof -
  have "skip s e = Ret () (s\<lparr>con := con s\<rparr>) e" for s :: "'z mach_scheme" and e by (simp add: monad_defs)
  then show ?thesis unfolding prints_def by blast
qed

lemma prints_andthen:
  fixes m n :: "('z mach_scheme, unit) kop"
  shows "prints m \<Longrightarrow> prints n \<Longrightarrow> prints (andthen m n)"
  unfolding prints_def
proof (intro allI impI)
  fix s :: "'z mach_scheme" and e
  assume m: "\<forall>s e. con_ok (con s) \<longrightarrow> ConsLk \<notin> set (held s) \<longrightarrow> (\<exists>k. con_ok k \<and> m s e = Ret () (s\<lparr>con := k\<rparr>) e)"
    and n: "\<forall>s e. con_ok (con s) \<longrightarrow> ConsLk \<notin> set (held s) \<longrightarrow> (\<exists>k. con_ok k \<and> n s e = Ret () (s\<lparr>con := k\<rparr>) e)"
    and s: "con_ok (con s)" "ConsLk \<notin> set (held s)"
  obtain k where k: "con_ok k" "m s e = Ret () (s\<lparr>con := k\<rparr>) e" using m s by blast
  have "con_ok (con (s\<lparr>con := k\<rparr>))" "ConsLk \<notin> set (held (s\<lparr>con := k\<rparr>))" using k s by simp_all
  then obtain k' where "con_ok k'" "n (s\<lparr>con := k\<rparr>) e = Ret () (s\<lparr>con := k, con := k'\<rparr>) e" using n by blast
  then show "\<exists>k. con_ok k \<and> andthen m n s e = Ret () (s\<lparr>con := k\<rparr>) e"
    using k by (auto simp: andthen_ret)
qed

lemma prints_gets: "(\<And>x. prints (m x)) \<Longrightarrow> prints (bind (gets f) m)"
  by (simp add: prints_def bind_def gets_def)

lemma prints_when: "prints m \<Longrightarrow> prints (whenM b m)"
  by (simp add: whenM_def prints_skip)

lemma prints_forM: "(\<And>x. x \<in> set xs \<Longrightarrow> prints (f x)) \<Longrightarrow> prints (forM xs f)"
  by (induction xs) (simp_all add: prints_skip prints_andthen)

lemmas prints_intros = prints_cprintf prints_skip prints_andthen prints_gets prints_when prints_forM

lemma wp_prints:
  assumes "prints m" and "con_ok (con s)" and "ConsLk \<notin> set (held s)" and "\<And>k. con_ok k \<Longrightarrow> Q () (s\<lparr>con := k\<rparr>) e"
  shows "wp m Q s e"
  using assms unfolding prints_def wp_iff by blast

text \<open>Output changes the console only.\<close>

lemma frame_consputc [frame_intros]: "(\<And>s k. F (s\<lparr>con := k\<rparr>) = F s) \<Longrightarrow> frame F (consputc c)"
  unfolding consputc_def cgaputc_def by (intro frame_intros) (auto intro!: frame_intros split: prod.split)

lemma frame_put_string: "(\<And>s k. F (s\<lparr>con := k\<rparr>) = F s) \<Longrightarrow> frame F (put_string bs)"
  by (induction bs) (auto intro!: frame_intros)

lemma frame_printint: "(\<And>s k. F (s\<lparr>con := k\<rparr>) = F s) \<Longrightarrow> frame F (printint x base sign)"
  unfolding printint_def by (intro frame_intros)

lemma frame_cprintf_loop:
  assumes F: "\<And>s k. F (s\<lparr>con := k\<rparr>) = F s"
  shows "frame F (cprintf_loop fmt args)"
proof (induction fmt arbitrary: args rule: length_induct)
  case (1 fmt)
  then have IH: "length g < length fmt \<Longrightarrow> frame F (cprintf_loop g as)" for g as by blast
  note fr = frame_basic frame_andthen [OF frame_consputc [OF F]] frame_andthen [OF frame_put_string [OF F]]
    frame_andthen [OF frame_printint [OF F]]
  show ?case
  proof (cases fmt)
    case Nil
    then show ?thesis by (simp add: frame_basic)
  next
    case (Cons c g)
    have g: "frame F (cprintf_loop g as)" for as by (rule IH) (simp add: Cons)
    have h: "frame F (cprintf_loop h as)" if "g = d # h" for d h as by (rule IH) (simp add: Cons that)
    show ?thesis
    proof (cases "c = CHR ''%''")
      case False
      then show ?thesis using g by (simp add: Cons fr)
    next
      case True
      then show ?thesis using h by (simp add: Cons fr split: list.split fmtarg.split)
    qed
  qed
qed

lemma frame_cprintf [frame_intros]:
  assumes "\<And>s k. F (s\<lparr>con := k\<rparr>) = F s" and "\<And>s h. F (s\<lparr>held := h\<rparr>) = F s"
  shows "frame F (cprintf fmt args)"
  unfolding cprintf_def by (intro frame_intros frame_cprintf_loop assms)

section \<open>Numbers\<close>

text \<open>The number that a list of digit values denotes, least significant digit first.\<close>

fun num_of :: "nat \<Rightarrow> nat list \<Rightarrow> nat" where
  "num_of b [] = 0"
| "num_of b (d # ds) = d + b * num_of b ds"

text \<open>The digits' values.\<close>

function digit_values :: "u32 \<Rightarrow> u32 \<Rightarrow> nat list" where
  "digit_values base x =
     unat (x mod base) # (if base < 2 \<or> x div base = 0 then [] else digit_values base (x div base))"
  by auto
termination
proof (relation "measure (\<lambda>(_, x). unat x)", simp)
  fix base x :: u32
  assume h: "\<not> (base < 2 \<or> x div base = 0)"
  then have "2 \<le> unat base" by (simp add: word_less_nat_alt)
  moreover have "0 < unat x" using h by (metis div_0 unat_gt_0)
  ultimately show "((base, x div base), base, x) \<in> measure (\<lambda>(_, x). unat x)"
    by (simp add: unat_div_distrib)
qed

declare digit_values.simps [simp del]

lemma digit_values_not_Nil [simp]: "digit_values base x \<noteq> []"
  by (subst digit_values.simps) simp

lemma digits_of_values: "digits_of ds base x = map ((!) ds) (digit_values base x)"
proof (induction base x rule: digit_values.induct)
  case (1 base x)
  then show ?case by (subst digits_of.simps, subst digit_values.simps) simp
qed

lemma num_of_digit_values:
  "2 \<le> base \<Longrightarrow> num_of (unat base) (digit_values base x) = unat x"
proof (induction base x rule: digit_values.induct)
  case (1 base x)
  have nb: "\<not> base < 2" using 1 by (simp add: linorder_not_less)
  have split: "unat x = unat (x mod base) + unat base * unat (x div base)"
    by (simp add: unat_mod_distrib unat_div_distrib)
  show ?case
  proof (cases "x div base = 0")
    case True
    then show ?thesis using split by (subst digit_values.simps) simp
  next
    case False
    then show ?thesis using 1 nb split by (subst digit_values.simps) simp
  qed
qed

lemma digit_values_less: "2 \<le> base \<Longrightarrow> d \<in> set (digit_values base x) \<Longrightarrow> d < unat base"
proof (induction base x rule: digit_values.induct)
  case (1 base x)
  have "0 < base" using "1.prems"(1) by (simp add: word_le_nat_alt word_less_nat_alt)
  then have h: "unat (x mod base) < unat base"
    by (simp add: unat_mod_distrib unat_gt_0 word_gt_0)
  have eq: "set (digit_values base x) =
      insert (unat (x mod base)) (if base < 2 \<or> x div base = 0 then {} else set (digit_values base (x div base)))"
    by (subst digit_values.simps) simp
  show ?case using 1 h unfolding eq by (auto split: if_splits)
qed

text \<open>A number of \<open>n + 1\<close> digits is at least the base to the \<open>n\<close>.\<close>

lemma digit_values_length:
  "2 \<le> base \<Longrightarrow> unat base ^ (length (digit_values base x) - 1) \<le> max 1 (unat x)"
proof (induction base x rule: digit_values.induct)
  case (1 base x)
  have nb: "\<not> base < 2" using 1 by (simp add: linorder_not_less)
  show ?case
  proof (cases "x div base = 0")
    case True
    then show ?thesis by (subst digit_values.simps) simp
  next
    case False
    define k where "k = length (digit_values base (x div base)) - 1"
    have len: "length (digit_values base (x div base)) = Suc k"
      by (cases "digit_values base (x div base)") (simp_all add: k_def)
    have "0 < unat (x div base)" using False by (simp add: unat_gt_0)
    then have "unat base ^ k \<le> unat x div unat base"
      using 1 nb False by (simp add: k_def unat_div_distrib max_def split: if_splits)
    then have "unat base * unat base ^ k \<le> unat x"
      by (metis div_times_less_eq_dividend le_trans mult.commute mult_le_mono1)
    moreover have "length (digit_values base x) = Suc (Suc k)"
      using nb False len by (subst digit_values.simps) simp
    ultimately show ?thesis by simp
  qed
qed

lemma digits_length: 
  assumes "10 \<le> base"
  shows "length (digits_of ds base x) \<le> 10"
proof (rule ccontr)
  assume "\<not> ?thesis"
  then have l: "10 \<le> length (digit_values base x) - 1" by (simp add: digits_of_values)
  have ten: "10 \<le> unat base" using assms by (simp add: word_le_nat_alt)
  have two: "2 \<le> base" using assms by (simp add: word_le_nat_alt)
  have "(10::nat) ^ 10 \<le> unat base ^ (length (digit_values base x) - 1)"
    using power_increasing [OF l, of "unat base"] power_mono [OF ten, of 10] ten by linarith
  also have "\<dots> \<le> max 1 (unat x)" by (rule digit_values_length [OF two])
  finally show False using unat_u32 [of x] by simp
qed

end
