(* ===== verification/Kalloc.thy ===== *)
theory Kalloc
  imports Console
begin

text \<open>
  The physical page allocator, \<open>kalloc.c\<close>. The free pages are a linked list in the pages
  themselves: the first word of a free page is the address of the next one, and \<open>freelist\<close> is
  the address of the first. The linker's symbol \<open>end\<close> is the field \<open>kend\<close>.

  The abstract allocator is the list of the free pages. The locale \<open>page_allocator\<close> says what
  the rest of the kernel relies on; \<open>kalloc\<close> and \<open>kfree\<close> are shown to provide it.
\<close>

abbreviation PGSIZE :: u32 where "PGSIZE \<equiv> 4096"
abbreviation PHYSTOP :: u32 where "PHYSTOP \<equiv> 0xE000000"

definition V2P :: "u32 \<Rightarrow> u32" where "V2P a = a - KERNBASE"
definition P2V :: "u32 \<Rightarrow> u32" where "P2V a = a + KERNBASE"

definition PGROUNDUP :: "u32 \<Rightarrow> u32" where "PGROUNDUP sz = (sz + PGSIZE - 1) AND NOT (PGSIZE - 1)"
definition PGROUNDDOWN :: "u32 \<Rightarrow> u32" where "PGROUNDDOWN a = a AND NOT (PGSIZE - 1)"

record kalst = mach +
  use_lock :: bool
  freelist :: u32
  kend :: u32

definition kfree :: "u32 \<Rightarrow> ('z kalst_scheme, unit) kop" where
  "kfree v = bind (gets kend) (\<lambda>kernend. bind (gets use_lock) (\<lambda>use_lock.
     if v mod PGSIZE \<noteq> 0 \<or> v < kernend \<or> V2P v \<ge> PHYSTOP then panic ''kfree''
     else
       andthen (modify (\<lambda>s. s\<lparr>kmem := memset v 1 PGSIZE (kmem s)\<rparr>))
      (andthen (whenM use_lock (lock KmemLk))
      (andthen (modify (\<lambda>s. s\<lparr>kmem := store32 v (freelist s) (kmem s)\<rparr>))
      (andthen (modify (\<lambda>s. s\<lparr>freelist := v\<rparr>))
       (whenM use_lock (unlock KmemLk)))))))"

definition kalloc :: "('z kalst_scheme, u32) kop" where
  "kalloc = bind (gets use_lock) (\<lambda>use_lock.
     andthen (whenM use_lock (lock KmemLk))
    (bind (gets freelist) (\<lambda>r.
     andthen (whenM (r \<noteq> 0) (modify (\<lambda>s. s\<lparr>freelist := load32 (kmem s) r\<rparr>)))
    (andthen (whenM use_lock (unlock KmemLk))
     (return r)))))"

text \<open>
  The loop of \<open>freerange\<close>. The address space has \<open>2 ^ 20\<close> pages, so that a loop which frees more
  pages than that would have met the end of memory, where \<open>kfree\<close> panics.
\<close>

fun freerange_loop :: "nat \<Rightarrow> u32 \<Rightarrow> u32 \<Rightarrow> ('z kalst_scheme, unit) kop" where
  "freerange_loop 0 p vend = hang"
| "freerange_loop (Suc n) p vend =
     (if p + PGSIZE \<le> vend then andthen (kfree p) (freerange_loop n (p + PGSIZE) vend) else skip)"

definition freerange :: "u32 \<Rightarrow> u32 \<Rightarrow> ('z kalst_scheme, unit) kop" where
  "freerange vstart vend = freerange_loop (2 ^ 20 + 1) (PGROUNDUP vstart) vend"

definition kinit1 :: "u32 \<Rightarrow> u32 \<Rightarrow> ('z kalst_scheme, unit) kop" where
  "kinit1 vstart vend = andthen (modify (\<lambda>s. s\<lparr>use_lock := False\<rparr>)) (freerange vstart vend)"

definition kinit2 :: "u32 \<Rightarrow> u32 \<Rightarrow> ('z kalst_scheme, unit) kop" where
  "kinit2 vstart vend = andthen (freerange vstart vend) (modify (\<lambda>s. s\<lparr>use_lock := True\<rparr>))"

section \<open>What the operations do\<close>

definition page_ok :: "u32 \<Rightarrow> u32 \<Rightarrow> bool" where
  "page_ok kernend v \<longleftrightarrow> v mod PGSIZE = 0 \<and> kernend \<le> v \<and> V2P v < PHYSTOP"

definition kmem_free :: "'z kalst_scheme \<Rightarrow> bool" where
  "kmem_free s \<longleftrightarrow> (use_lock s \<longrightarrow> KmemLk \<notin> set (held s))"

text \<open>The page \<open>v\<close> after \<open>kfree\<close> has filled and linked it.\<close>

definition freed :: "u32 \<Rightarrow> u32 \<Rightarrow> (u32 \<Rightarrow> u8) \<Rightarrow> u32 \<Rightarrow> u8" where
  "freed v next m = store32 v next (memset v 1 PGSIZE m)"

lemma wp_kfree [wp_rules]:
  assumes "page_ok (kend s) v" and "kmem_free s"
  shows "wp (kfree v) Q s e = Q () (s\<lparr>kmem := freed v (freelist s) (kmem s), freelist := v\<rparr>) e"
    and "wlp (kfree v) Q s e = Q () (s\<lparr>kmem := freed v (freelist s) (kmem s), freelist := v\<rparr>) e"
  using assms by (auto simp: kfree_def wp_rules page_ok_def kmem_free_def freed_def linorder_not_less linorder_not_le)

lemma wp_kalloc [wp_rules]:
  assumes "kmem_free s"
  shows "wp kalloc Q s e =
      Q (freelist s) (if freelist s = 0 then s else s\<lparr>freelist := load32 (kmem s) (freelist s)\<rparr>) e"
    and "wlp kalloc Q s e =
      Q (freelist s) (if freelist s = 0 then s else s\<lparr>freelist := load32 (kmem s) (freelist s)\<rparr>) e"
  using assms by (auto simp: kalloc_def wp_rules kmem_free_def)

lemma kfree_panics: "\<not> page_ok (kend s) v \<Longrightarrow> kfree v s e = Panic ''kfree''"
  by (auto simp: kfree_def monad_defs page_ok_def linorder_not_less linorder_not_le)

lemma page_ok_not_null: "page_ok kernend v \<Longrightarrow> v \<noteq> 0"
  by (auto simp: page_ok_def V2P_def word_less_nat_alt)

section \<open>The free list\<close>

text \<open>The pages on the list that starts at \<open>h\<close>.\<close>

fun chain :: "(u32 \<Rightarrow> u8) \<Rightarrow> u32 \<Rightarrow> u32 list \<Rightarrow> bool" where
  "chain m h [] \<longleftrightarrow> h = 0"
| "chain m h (p # ps) \<longleftrightarrow> h = p \<and> p \<noteq> 0 \<and> chain m (load32 m p) ps"

definition free_pages :: "u32 list \<Rightarrow> 'z kalst_scheme \<Rightarrow> bool" where
  "free_pages ps s \<longleftrightarrow>
     chain (kmem s) (freelist s) ps \<and> distinct ps \<and> (\<forall>p\<in>set ps. page_ok (kend s) p)"

lemma chain_unique: "chain m h ps \<Longrightarrow> chain m h qs \<Longrightarrow> ps = qs"
proof (induction ps arbitrary: h qs)
  case Nil
  then show ?case by (cases qs) auto
next
  case (Cons p ps)
  then show ?case by (cases qs) auto
qed

lemma chain_cong: "(\<And>p. p \<in> set ps \<Longrightarrow> load32 m p = load32 m' p) \<Longrightarrow> chain m h ps = chain m' h ps"
  by (induction ps arbitrary: h) auto

lemma aligned_mod: "v mod PGSIZE = 0 \<Longrightarrow> unat v mod 4096 = 0"
  using unat_mod_distrib [of v PGSIZE] by simp

text \<open>Bytes outside page \<open>v\<close> do not change, and no free page's link is among those that do.\<close>

lemma freed_other:
  assumes "v mod PGSIZE = 0" and "b mod PGSIZE = 0" and "b \<noteq> v" and "i < 4096"
  shows "freed v w m (b + of_nat i) = m (b + of_nat i)"
proof -
  have ne: "b + of_nat i \<noteq> v + of_nat j" if "j < 4096" for j
    using aligned_unique [of 4096 b v i j] assms that by (auto simp: aligned_mod)
  have "memset v 1 PGSIZE m (b + of_nat i) = m (b + of_nat i)"
    unfolding memset_eq by (rule store_bytes_other) (use ne in simp)
  then show ?thesis
    using ne [of 0] ne [of 1] ne [of 2] ne [of 3] by (simp add: freed_def store32_def)
qed

lemma load32_cong:
  "(\<And>i. i < 4 \<Longrightarrow> m (a + of_nat i) = m' (a + of_nat i)) \<Longrightarrow> load32 m a = load32 m' a"
proof -
  assume h: "\<And>i. i < 4 \<Longrightarrow> m (a + of_nat i) = m' (a + of_nat i)"
  show ?thesis using h [of 0] h [of 1] h [of 2] h [of 3] by (simp add: load32_def)
qed

lemma load32_freed_other:
  "v mod PGSIZE = 0 \<Longrightarrow> p mod PGSIZE = 0 \<Longrightarrow> p \<noteq> v \<Longrightarrow> load32 (freed v w m) p = load32 m p"
  by (rule load32_cong) (simp add: freed_other)

lemma load32_freed [simp]: "load32 (freed v w m) v = w"
  by (simp add: freed_def)

lemma chain_freed:
  assumes "chain m h ps" and "v \<notin> set ps" and "page_ok kernend v" and "\<forall>p\<in>set ps. page_ok kernend p"
  shows "chain (freed v h m) v (v # ps)"
proof -
  have "chain (freed v h m) h ps = chain m h ps"
    by (rule chain_cong, rule load32_freed_other) (use assms in \<open>auto simp: page_ok_def\<close>)
  then show ?thesis using assms(1,3) by (simp add: page_ok_not_null)
qed

section \<open>The interface of the allocator\<close>

text \<open>
  What the kernel relies on: \<open>alloc\<close> takes a page off the list of free pages and gives 0 only when there is
  none; \<open>free\<close> puts a page there. The predicate \<open>ready\<close> says that the allocator can be called.
\<close>

locale page_allocator =
  fixes alloc :: "('s, u32) kop" and free :: "u32 \<Rightarrow> ('s, unit) kop"
    and pages :: "u32 list \<Rightarrow> 's \<Rightarrow> bool" and ready :: "'s \<Rightarrow> bool" and page :: "'s \<Rightarrow> u32 \<Rightarrow> bool"
  assumes alloc_some: "pages (p # ps) s \<Longrightarrow> ready s \<Longrightarrow>
      wp alloc (\<lambda>r t d. r = p \<and> pages ps t \<and> ready t \<and> page t = page s \<and> d = e) s e"
    and alloc_none: "pages [] s \<Longrightarrow> ready s \<Longrightarrow> alloc s e = Ret 0 s e"
    and free_ok: "pages ps s \<Longrightarrow> ready s \<Longrightarrow> page s p \<Longrightarrow> p \<notin> set ps \<Longrightarrow>
      wp (free p) (\<lambda>_ t d. pages (p # ps) t \<and> ready t \<and> page t = page s \<and> d = e) s e"
    and pages_distinct: "pages ps s \<Longrightarrow> distinct ps"
    and pages_valid: "pages ps s \<Longrightarrow> p \<in> set ps \<Longrightarrow> page s p \<and> p \<noteq> 0"
begin

text \<open>A page that is freed is the next one to be allocated.\<close>

lemma free_alloc:
  assumes "pages ps s" and "ready s" and "page s p" and "p \<notin> set ps"
  shows "wp (bind (free p) (\<lambda>_. alloc)) (\<lambda>r t d. r = p \<and> pages ps t \<and> ready t) s e"
proof -
  have "wp (free p) (\<lambda>_. wp alloc (\<lambda>r t d. r = p \<and> pages ps t \<and> ready t)) s e"
    using free_ok [OF assms] by (rule wp_mono) (use alloc_some in \<open>blast intro: wp_mono\<close>)
  then show ?thesis by (simp add: wp_bind)
qed

text \<open>Two allocations in a row never give the same page.\<close>

lemma alloc_twice:
  assumes "pages (p # q # ps) s" and "ready s"
  shows "wp (bind alloc (\<lambda>a. bind alloc (\<lambda>b. return (a, b))))
    (\<lambda>(a, b) t d. a \<noteq> b \<and> a \<noteq> 0 \<and> b \<noteq> 0 \<and> a \<notin> set ps \<and> b \<notin> set ps \<and> pages ps t) s e"
proof -
  have ne: "p \<noteq> q" "p \<notin> set ps" "q \<notin> set ps" "p \<noteq> 0" "q \<noteq> 0"
    using pages_distinct [OF assms(1)] pages_valid [OF assms(1)] by auto
  have "wp alloc (\<lambda>a. wp alloc (\<lambda>b. wp (return (a, b))
      (\<lambda>(a, b) t d. a \<noteq> b \<and> a \<noteq> 0 \<and> b \<noteq> 0 \<and> a \<notin> set ps \<and> b \<notin> set ps \<and> pages ps t))) s e"
    using alloc_some [OF assms]
  proof (rule wp_mono)
    fix a t d assume "a = p \<and> pages (q # ps) t \<and> ready t \<and> page t = page s \<and> d = e"
    then show "wp alloc (\<lambda>b. wp (return (a, b))
      (\<lambda>(a, b) t d. a \<noteq> b \<and> a \<noteq> 0 \<and> b \<noteq> 0 \<and> a \<notin> set ps \<and> b \<notin> set ps \<and> pages ps t)) t d"
      using ne by (auto simp: wp_return intro: wp_mono [OF alloc_some])
  qed
  then show ?thesis by (simp add: wp_bind)
qed

end

interpretation kal: page_allocator kalloc kfree free_pages kmem_free "\<lambda>s. page_ok (kend s)"
proof
  fix p ps s e
  assume "free_pages (p # ps) s" "kmem_free s"
  then show "wp kalloc (\<lambda>r t d. r = p \<and> free_pages ps t \<and> kmem_free t \<and>
      page_ok (kend t) = page_ok (kend s) \<and> d = e) s e"
    by (auto simp: wp_rules free_pages_def kmem_free_def)
next
  fix s e assume "free_pages [] s" "kmem_free s"
  then show "kalloc s e = Ret 0 s e"
    by (intro wp_eq_ret) (simp add: wp_rules free_pages_def)
next
  fix ps s p e
  assume "free_pages ps s" "kmem_free s" "page_ok (kend s) p" "p \<notin> set ps"
  then show "wp (kfree p) (\<lambda>_ t d. free_pages (p # ps) t \<and> kmem_free t \<and>
      page_ok (kend t) = page_ok (kend s) \<and> d = e) s e"
    using chain_freed [of "kmem s" "freelist s" ps p "kend s"]
    by (auto simp: wp_rules free_pages_def kmem_free_def)
next
  fix ps s assume "free_pages ps s"
  then show "distinct ps" by (simp add: free_pages_def)
next
  fix ps s p assume "free_pages ps s" "p \<in> set ps"
  then have "page_ok (kend s) p" by (simp add: free_pages_def)
  then show "page_ok (kend s) p \<and> p \<noteq> 0" by (simp add: page_ok_not_null)
qed

section \<open>Initialisation\<close>

text \<open>
  \<open>freerange\<close> frees every page of its range: after freeing \<open>n\<close> pages from the page \<open>p\<close> on,
  the free list has these pages, the last one first, before the pages it had.
\<close>

fun page_seq :: "u32 \<Rightarrow> nat \<Rightarrow> u32 list" where
  "page_seq p 0 = []"
| "page_seq p (Suc n) = p # page_seq (p + PGSIZE) n"

lemma in_page_seq: "q \<in> set (page_seq p n) \<longleftrightarrow> (\<exists>i<n. q = p + of_nat i * PGSIZE)"
proof (induction n arbitrary: p)
  case 0
  then show ?case by simp
next
  case (Suc n)
  have "q = (p + PGSIZE) + of_nat i * PGSIZE \<longleftrightarrow> q = p + of_nat (Suc i) * PGSIZE" for i
    by (simp add: algebra_simps)
  then show ?case using Suc.IH [of "p + PGSIZE"] by (auto simp: less_Suc_eq_0_disj simp del: of_nat_Suc)
qed

lemma freerange_loop_ok:
  assumes "free_pages ps s" and "kmem_free s"
    and "\<forall>p\<in>set (page_seq p n). page_ok (kend s) p" and "distinct (page_seq p n @ ps)"
    and "\<forall>i<n. p + of_nat (Suc i) * PGSIZE \<le> vend" and "\<not> p + of_nat (Suc n) * PGSIZE \<le> vend"
    and "n < fuel"
  shows "wp (freerange_loop fuel p vend)
    (\<lambda>_ t d. free_pages (rev (page_seq p n) @ ps) t \<and> kmem_free t \<and> kend t = kend s \<and> use_lock t = use_lock s) s e"
  using assms
proof (induction n arbitrary: p ps s e fuel)
  case 0
  obtain f where f: "fuel = Suc f" using 0 by (cases fuel) auto
  show ?case using 0 by (simp add: f wp_rules)
next
  case (Suc n)
  obtain f where f: "fuel = Suc f" using Suc.prems by (cases fuel) auto
  have go: "p + PGSIZE \<le> vend" using Suc.prems(5) by force
  have p: "page_ok (kend s) p" "p \<notin> set ps" using Suc.prems by (auto simp: page_seq.simps)
  have shift: "(p + PGSIZE) + of_nat (Suc i) * PGSIZE = p + of_nat (Suc (Suc i)) * PGSIZE" for i
    by (simp add: algebra_simps)
  let ?s = "s\<lparr>kmem := freed p (freelist s) (kmem s), freelist := p\<rparr>"
  have "free_pages (p # ps) ?s" "kmem_free ?s"
    using Suc.prems(1,2) chain_freed [of "kmem s" "freelist s" ps p "kend s"] p
    by (auto simp: free_pages_def kmem_free_def)
  moreover have "\<forall>p\<in>set (page_seq (p + PGSIZE) n). page_ok (kend ?s) p"
    and "distinct (page_seq (p + PGSIZE) n @ p # ps)"
    using Suc.prems(3,4) by (auto simp: page_seq.simps)
  moreover have "\<forall>i<n. (p + PGSIZE) + of_nat (Suc i) * PGSIZE \<le> vend"
    using Suc.prems(5) by (metis shift Suc_mono)
  moreover have "\<not> (p + PGSIZE) + of_nat (Suc n) * PGSIZE \<le> vend"
    using Suc.prems(6) by (simp only: shift not_False_eq_True)
  ultimately have "wp (freerange_loop f (p + PGSIZE) vend)
    (\<lambda>_ t d. free_pages (rev (page_seq (p + PGSIZE) n) @ p # ps) t \<and> kmem_free t \<and>
       kend t = kend ?s \<and> use_lock t = use_lock ?s) ?s e"
    using Suc.prems(7) f by (intro Suc.IH) simp_all
  then show ?case using go p(1) Suc.prems(2) by (simp add: f wp_rules page_seq.simps)
qed

lemma page_addr:
  assumes "unat p + n * 4096 \<le> 0x8E000000" and "i \<le> n"
  shows "unat (p + of_nat i * PGSIZE) = unat p + i * 4096"
proof -
  have "i * 4096 \<le> n * 4096" using assms(2) by simp
  moreover have "(of_nat i * PGSIZE :: u32) = of_nat (i * 4096)" by simp
  ultimately show ?thesis using assms(1) by (simp only: unat_add32)
qed

lemma page_ok_between:
  assumes "unat q mod 4096 = 0" and "unat kernend \<le> unat q" and "0x80000000 \<le> unat q" and "unat q < 0x8E000000"
  shows "page_ok kernend q"
proof -
  have "q mod PGSIZE = 0" using assms(1) by (simp add: word_unat_eq_iff unat_mod_distrib)
  moreover have "unat (V2P q) = unat q - 0x80000000"
    unfolding V2P_def using assms(3) by (subst unat_sub) (simp_all add: word_le_nat_alt)
  ultimately show ?thesis using assms(2-4) by (simp add: page_ok_def word_le_nat_alt word_less_nat_alt)
qed

lemma page_seq_ok:
  assumes p: "unat p mod 4096 = 0" "unat kernend \<le> unat p" "0x80000000 \<le> unat p"
    and n: "unat p + n * 4096 \<le> 0x8E000000"
  shows "\<forall>q\<in>set (page_seq p n). page_ok kernend q" and "distinct (page_seq p n)"
proof -
  show "\<forall>q\<in>set (page_seq p n). page_ok kernend q"
  proof
    fix q assume "q \<in> set (page_seq p n)"
    then obtain i where i: "i < n" "q = p + of_nat i * PGSIZE" by (auto simp: in_page_seq)
    then have "unat q = unat p + i * 4096" using page_addr [OF n, of i] by simp
    moreover have "(i + 1) * 4096 \<le> n * 4096" using i(1) by (intro mult_right_mono) simp_all
    ultimately show "page_ok kernend q" using p n by (intro page_ok_between) (simp_all add: algebra_simps)
  qed
  show "distinct (page_seq p n)" using n
  proof (induction n arbitrary: p)
    case 0
    then show ?case by simp
  next
    case (Suc n)
    have p1: "unat (p + PGSIZE) = unat p + 4096" using Suc.prems by (simp add: unat_plus32)
    have "p \<notin> set (page_seq (p + PGSIZE) n)"
    proof
      assume "p \<in> set (page_seq (p + PGSIZE) n)"
      then obtain i where i: "i < n" "p = p + PGSIZE + of_nat i * PGSIZE" by (auto simp: in_page_seq)
      have "unat (p + PGSIZE + of_nat i * PGSIZE) = unat p + 4096 + i * 4096"
        using page_addr [of "p + PGSIZE" n i] i(1) Suc.prems by (simp add: p1)
      moreover have "unat p = unat (p + PGSIZE + of_nat i * PGSIZE)" using i(2) by (rule arg_cong)
      ultimately show False by linarith
    qed
    then show ?case using Suc.IH [of "p + PGSIZE"] Suc.prems by (simp add: p1)
  qed
qed

lemma freerange_ok:
  assumes s: "free_pages [] s" "kmem_free s"
    and p: "unat (kend s) \<le> unat (PGROUNDUP vstart)" "0x80000000 \<le> unat (PGROUNDUP vstart)"
    and al: "unat (PGROUNDUP vstart) mod 4096 = 0"
    and n: "unat (PGROUNDUP vstart) + n * 4096 \<le> unat vend" "unat vend < unat (PGROUNDUP vstart) + Suc n * 4096"
    and top: "unat vend \<le> 0x8E000000"
  shows "wp (freerange vstart vend)
    (\<lambda>_ t d. free_pages (rev (page_seq (PGROUNDUP vstart) n)) t \<and> use_lock t = use_lock s) s e"
proof -
  define q where "q = PGROUNDUP vstart"
  note h = p al n top
  have n1: "unat q + n * 4096 \<le> 0x8E000000" using h by (simp add: q_def)
  have addr: "unat (q + of_nat i * PGSIZE) = unat q + i * 4096" if "i \<le> Suc n" for i
  proof -
    have "i * 4096 \<le> Suc n * 4096" using that by (intro mult_right_mono) simp_all
    then have "unat q + i * 4096 < 4294967296" using n1 by simp
    moreover have "(of_nat i * PGSIZE :: u32) = of_nat (i * 4096)" by simp
    ultimately show ?thesis by (simp only: unat_add32)
  qed
  have "wp (freerange_loop (2 ^ 20 + 1) q vend)
    (\<lambda>_ t d. free_pages (rev (page_seq q n) @ []) t \<and> kmem_free t \<and> kend t = kend s \<and> use_lock t = use_lock s) s e"
  proof (rule freerange_loop_ok [OF s])
    show "\<forall>p\<in>set (page_seq q n). page_ok (kend s) p" "distinct (page_seq q n @ [])"
      using page_seq_ok [OF _ _ _ n1] h by (simp_all add: q_def)
    show "\<forall>i<n. q + of_nat (Suc i) * PGSIZE \<le> vend"
    proof (intro allI impI)
      fix i assume "i < n"
      then have "Suc i * 4096 \<le> n * 4096" by (intro mult_right_mono) simp_all
      then show "q + of_nat (Suc i) * PGSIZE \<le> vend"
        using h(4) addr [of "Suc i"] \<open>i < n\<close> by (simp only: word_le_nat_alt q_def [symmetric])
    qed
    show "\<not> q + of_nat (Suc n) * PGSIZE \<le> vend"
      using h(5) addr [of "Suc n"] by (simp only: word_le_nat_alt q_def [symmetric])
    show "n < 2 ^ 20 + 1" using n1 by simp
  qed
  then show ?thesis unfolding freerange_def q_def by (rule wp_mono) simp
qed

lemma PGROUNDUP_aligned: "unat (PGROUNDUP a) mod 4096 = 0"
proof -
  have "take_bit 12 (PGROUNDUP a) = 0"
  proof (rule bit_word_eqI)
    fix n
    have "(PGSIZE - 1 :: u32) = mask 12" by (simp add: mask_eq_exp_minus_1)
    then show "bit (take_bit 12 (PGROUNDUP a)) n = bit (0 :: u32) n"
      by (auto simp: PGROUNDUP_def bit_simps)
  qed
  then have "unat (take_bit 12 (PGROUNDUP a)) = 0" by simp
  then show ?thesis using unat_mod_distrib [of "PGROUNDUP a" PGSIZE] by (simp add: take_bit_eq_mod)
qed

section \<open>Properties\<close>

text \<open>
  C10. \<open>kalloc\<close> and \<open>kfree\<close> implement a stack of distinct pages over the linked list in memory: with the
  free pages \<open>p # ps\<close> an allocation gives \<open>p\<close>, a nonzero aligned page that is not free afterwards, and
  changes no byte of memory; freeing a page \<open>v\<close> that is not free makes it the first free page, and
  bytes of other pages keep their values.
\<close>
theorem kalloc_kfree_stack:
  assumes inv: "free_pages (p # ps) s" and lk: "kmem_free s"
    and v: "page_ok (kend s) v" "v \<notin> set (p # ps)"
  shows "wp kalloc (\<lambda>r t d. r = p \<and> r \<noteq> 0 \<and> r mod PGSIZE = 0 \<and> free_pages ps t \<and> p \<notin> set ps \<and> kmem t = kmem s \<and> d = e) s e \<and>
    wp (kfree v) (\<lambda>_ t d. free_pages (v # p # ps) t \<and> d = e \<and>
      (\<forall>b i. b mod PGSIZE = 0 \<longrightarrow> b \<noteq> v \<longrightarrow> i < 4096 \<longrightarrow> kmem t (b + of_nat i) = kmem s (b + of_nat i))) s e"
proof
  have p: "page_ok (kend s) p" "p \<notin> set ps" using inv by (simp_all add: free_pages_def)
  then show "wp kalloc (\<lambda>r t d. r = p \<and> r \<noteq> 0 \<and> r mod PGSIZE = 0 \<and> free_pages ps t \<and> p \<notin> set ps \<and> kmem t = kmem s \<and> d = e) s e"
    using inv lk by (auto simp: wp_rules free_pages_def page_ok_not_null) (auto simp: page_ok_def)
  show "wp (kfree v) (\<lambda>_ t d. free_pages (v # p # ps) t \<and> d = e \<and>
      (\<forall>b i. b mod PGSIZE = 0 \<longrightarrow> b \<noteq> v \<longrightarrow> i < 4096 \<longrightarrow> kmem t (b + of_nat i) = kmem s (b + of_nat i))) s e"
    using inv lk v chain_freed [of "kmem s" "freelist s" "p # ps" v "kend s"]
    by (auto simp: wp_rules free_pages_def page_ok_def freed_other)
qed

definition kal_demo :: kalst where
  "kal_demo = \<lparr>held = [], kmem = (\<lambda>_. 0), con = con_demo, use_lock = True, freelist = 0x80101000, kend = 0x80100000\<rparr>"

lemma load32_zero [simp]: "load32 (\<lambda>_. 0) a = 0"
  by (simp add: load32_def)

lemma kal_demo_ok: "free_pages [0x80101000] kal_demo" "kmem_free kal_demo" "page_ok (kend kal_demo) 0x80102000"
  by (simp_all add: kal_demo_def free_pages_def page_ok_def V2P_def kmem_free_def)

theorem kalloc_kfree_stack_witness:
  "wp kalloc (\<lambda>r t d. r = 0x80101000 \<and> free_pages [] t) kal_demo [] \<and>
   wp (kfree 0x80102000) (\<lambda>_ t d. free_pages [0x80102000, 0x80101000] t) kal_demo []"
  using kalloc_kfree_stack [OF kal_demo_ok(1,2,3), of "[]"] by (auto intro: wp_mono)

text \<open>
  C11. \<open>kinit1\<close> puts every page of its range on the free list exactly once: called before any other page is
  free, with a range inside the kernel's memory that holds \<open>n\<close> whole pages, it ends with the list of exactly
  these pages, the highest first, and the lock still unused.
\<close>
theorem kinit1_frees_range:
  assumes "free_pages [] s"
    and "0x80000000 \<le> unat (PGROUNDUP vstart)" and "unat (kend s) \<le> unat (PGROUNDUP vstart)"
    and "unat (PGROUNDUP vstart) + n * 4096 \<le> unat vend" and "unat vend < unat (PGROUNDUP vstart) + Suc n * 4096"
    and "unat vend \<le> 0x8E000000"
  shows "wp (kinit1 vstart vend)
    (\<lambda>_ t d. free_pages (rev (page_seq (PGROUNDUP vstart) n)) t \<and> \<not> use_lock t) s e"
proof -
  have "free_pages [] (s\<lparr>use_lock := False\<rparr>)" "kmem_free (s\<lparr>use_lock := False\<rparr>)"
    using assms(1) by (simp_all add: free_pages_def kmem_free_def)
  from freerange_ok [OF this _ _ PGROUNDUP_aligned] assms
  show ?thesis by (simp add: kinit1_def wp_rules)
qed

theorem kinit1_frees_range_witness:
  "wp (kinit1 0x80100001 0x80103800) (\<lambda>_ t d. free_pages [0x80102000, 0x80101000] t) (kal_demo\<lparr>freelist := 0\<rparr>) []"
proof -
  have up: "PGROUNDUP 0x80100001 = 0x80101000" by (simp add: PGROUNDUP_def)
  have seq: "rev (page_seq 0x80101000 2) = [0x80102000, 0x80101000]" by (simp add: numeral_2_eq_2)
  have "wp (kinit1 0x80100001 0x80103800) (\<lambda>_ t d. free_pages (rev (page_seq (PGROUNDUP 0x80100001) 2)) t \<and> \<not> use_lock t)
      (kal_demo\<lparr>freelist := 0\<rparr>) []"
    by (rule kinit1_frees_range) (simp_all add: up free_pages_def kal_demo_def)
  then show ?thesis by (auto simp: up seq intro: wp_mono)
qed

end
