(* ===== verification/VM.thy ===== *)
theory VM
  imports Kalloc
begin

text \<open>
  Page tables, \<open>vm.c\<close>. A page directory and its page tables are pages of kernel memory, read and
  written word by word. The linker's symbol \<open>data\<close> is the field \<open>kdata\<close>. The segment
  descriptors and the task state (\<open>seginit\<close>, the TSS part of \<open>switchuvm\<close>) have no counterpart here;
  \<open>loaduvm\<close> is with \<open>exec\<close>, as it reads a file.

  Loops over pages carry a bound of \<open>2 ^ 20\<close> iterations, the number of pages of the address space; a loop that runs
  longer has visited every page and goes on for ever.

  Shown here: a walk that allocates page tables changes no translation; \<open>mappages\<close> of a page
  maps that page and no other; \<open>uva2ka\<close> translates user pages only.
\<close>

abbreviation (input) PTE_P :: u32 where "PTE_P \<equiv> 1"
abbreviation (input) PTE_W :: u32 where "PTE_W \<equiv> 2"
abbreviation (input) PTE_U :: u32 where "PTE_U \<equiv> 4"
abbreviation EXTMEM :: u32 where "EXTMEM \<equiv> 0x100000"
abbreviation DEVSPACE :: u32 where "DEVSPACE \<equiv> 0xFE000000"
abbreviation KERNLINK :: u32 where "KERNLINK \<equiv> 0x80100000"

definition PDX :: "u32 \<Rightarrow> u32" where "PDX va = drop_bit 22 va AND 0x3FF"
definition PTX :: "u32 \<Rightarrow> u32" where "PTX va = drop_bit 12 va AND 0x3FF"
definition PGADDR :: "u32 \<Rightarrow> u32 \<Rightarrow> u32 \<Rightarrow> u32" where
  "PGADDR d t off = push_bit 22 d OR push_bit 12 t OR off"
definition PTE_ADDR :: "u32 \<Rightarrow> u32" where "PTE_ADDR pte = pte AND NOT 0xFFF"
definition PTE_FLAGS :: "u32 \<Rightarrow> u32" where "PTE_FLAGS pte = pte AND 0xFFF"

record vmst = kalst +
  kpgdir :: u32
  cr3 :: u32
  kdata :: u32

definition read32 :: "u32 \<Rightarrow> ('z mach_scheme, u32) kop" where
  "read32 a = gets (\<lambda>s. load32 (kmem s) a)"

definition write32 :: "u32 \<Rightarrow> u32 \<Rightarrow> ('z mach_scheme, unit) kop" where
  "write32 a w = modify (\<lambda>s. s\<lparr>kmem := store32 a w (kmem s)\<rparr>)"

definition setmem :: "u32 \<Rightarrow> u32 \<Rightarrow> u32 \<Rightarrow> ('z mach_scheme, unit) kop" where
  "setmem dst c n = modify (\<lambda>s. s\<lparr>kmem := memset dst c n (kmem s)\<rparr>)"

definition movemem :: "u32 \<Rightarrow> u32 \<Rightarrow> u32 \<Rightarrow> ('z mach_scheme, unit) kop" where
  "movemem dst src n = modify (\<lambda>s. s\<lparr>kmem := memmove dst src n (kmem s)\<rparr>)"

lemmas mem_defs [kdefs] = read32_def write32_def setmem_def movemem_def

definition walkpgdir :: "u32 \<Rightarrow> u32 \<Rightarrow> bool \<Rightarrow> ('z kalst_scheme, u32) kop" where
  "walkpgdir pgdir va alloc =
     (let pdea = pgdir + 4 * PDX va in
      bind (read32 pdea) (\<lambda>pde.
      if pde AND PTE_P \<noteq> 0 then return (P2V (PTE_ADDR pde) + 4 * PTX va)
      else if \<not> alloc then return 0
      else bind kalloc (\<lambda>pgtab.
        if pgtab = 0 then return 0
        else andthen (setmem pgtab 0 PGSIZE)
            (andthen (write32 pdea (V2P pgtab OR PTE_P OR PTE_W OR PTE_U))
             (return (pgtab + 4 * PTX va))))))"

fun mappages_loop :: "nat \<Rightarrow> u32 \<Rightarrow> u32 \<Rightarrow> u32 \<Rightarrow> u32 \<Rightarrow> u32 \<Rightarrow> ('z kalst_scheme, int) kop" where
  "mappages_loop 0 pgdir a final pa perm = hang"
| "mappages_loop (Suc n) pgdir a final pa perm =
     bind (walkpgdir pgdir a True) (\<lambda>pte.
     if pte = 0 then return (- 1)
     else bind (read32 pte) (\<lambda>w.
     if w AND PTE_P \<noteq> 0 then panic ''remap''
     else andthen (write32 pte (pa OR perm OR PTE_P))
       (if a = final then return 0
        else mappages_loop n pgdir (a + PGSIZE) final (pa + PGSIZE) perm)))"

definition mappages :: "u32 \<Rightarrow> u32 \<Rightarrow> u32 \<Rightarrow> u32 \<Rightarrow> u32 \<Rightarrow> ('z kalst_scheme, int) kop" where
  "mappages pgdir va sz pa perm =
     mappages_loop (2 ^ 20) pgdir (PGROUNDDOWN va) (PGROUNDDOWN (va + sz - 1)) pa perm"

fun deallocuvm_loop :: "nat \<Rightarrow> u32 \<Rightarrow> u32 \<Rightarrow> u32 \<Rightarrow> ('z kalst_scheme, unit) kop" where
  "deallocuvm_loop 0 pgdir a oldsz = hang"
| "deallocuvm_loop (Suc n) pgdir a oldsz =
     (if \<not> a < oldsz then skip
      else bind (walkpgdir pgdir a False) (\<lambda>pte.
        if pte = 0 then deallocuvm_loop n pgdir (PGADDR (PDX a + 1) 0 0 - PGSIZE + PGSIZE) oldsz
        else bind (read32 pte) (\<lambda>w.
          andthen
            (if w AND PTE_P \<noteq> 0
             then let pa = PTE_ADDR w in
               if pa = 0 then panic ''kfree''
               else andthen (kfree (P2V pa)) (write32 pte 0)
             else skip)
            (deallocuvm_loop n pgdir (a + PGSIZE) oldsz))))"

definition deallocuvm :: "u32 \<Rightarrow> u32 \<Rightarrow> u32 \<Rightarrow> ('z kalst_scheme, u32) kop" where
  "deallocuvm pgdir oldsz newsz =
     (if newsz \<ge> oldsz then return oldsz
      else andthen (deallocuvm_loop (2 ^ 20 + 1) pgdir (PGROUNDUP newsz) oldsz) (return newsz))"

definition freevm :: "u32 \<Rightarrow> ('z kalst_scheme, unit) kop" where
  "freevm pgdir =
     (if pgdir = 0 then panic ''freevm: no pgdir''
      else bind (deallocuvm pgdir KERNBASE 0) (\<lambda>_.
        andthen (forM [0..<1024] (\<lambda>i.
          bind (read32 (pgdir + 4 * of_nat i)) (\<lambda>pde.
          whenM (pde AND PTE_P \<noteq> 0) (kfree (P2V (PTE_ADDR pde))))))
        (kfree pgdir)))"

text \<open>The entries of \<open>kmap\<close>: virtual address, start and end of the physical range, permissions.\<close>

definition kmap :: "u32 \<Rightarrow> (u32 \<times> u32 \<times> u32 \<times> u32) list" where
  "kmap data =
     [(KERNBASE, 0, EXTMEM, PTE_W),
      (KERNLINK, V2P KERNLINK, V2P data, 0),
      (data, V2P data, PHYSTOP, PTE_W),
      (DEVSPACE, DEVSPACE, 0, PTE_W)]"

fun setupkvm_loop :: "u32 \<Rightarrow> (u32 \<times> u32 \<times> u32 \<times> u32) list \<Rightarrow> ('z kalst_scheme, u32) kop" where
  "setupkvm_loop pgdir [] = return pgdir"
| "setupkvm_loop pgdir ((virt, phys_start, phys_end, perm) # ks) =
     bind (mappages pgdir virt (phys_end - phys_start) phys_start perm) (\<lambda>r.
     if r < 0 then andthen (freevm pgdir) (return 0) else setupkvm_loop pgdir ks)"

definition setupkvm :: "('z vmst_scheme, u32) kop" where
  "setupkvm = bind kalloc (\<lambda>pgdir.
     if pgdir = 0 then return 0
     else andthen (setmem pgdir 0 PGSIZE)
       (if P2V PHYSTOP > DEVSPACE then panic ''PHYSTOP too high''
        else bind (gets kdata) (\<lambda>data. setupkvm_loop pgdir (kmap data))))"

definition switchkvm :: "('z vmst_scheme, unit) kop" where
  "switchkvm = modify (\<lambda>s. s\<lparr>cr3 := V2P (kpgdir s)\<rparr>)"

definition kvmalloc :: "('z vmst_scheme, unit) kop" where
  "kvmalloc = bind setupkvm (\<lambda>pgdir. andthen (modify (\<lambda>s. s\<lparr>kpgdir := pgdir\<rparr>)) switchkvm)"

text \<open>
  The initial process's page. The code does not test the result of \<open>kalloc\<close>: with no
  page left it would clear memory at address 0.
\<close>

definition inituvm :: "u32 \<Rightarrow> u8 list \<Rightarrow> ('z kalst_scheme, unit) kop" where
  "inituvm pgdir init =
     (if length init \<ge> 4096 then panic ''inituvm: more than a page''
      else bind kalloc (\<lambda>mem.
        if mem = 0 then fault ''inituvm''
        else andthen (setmem mem 0 PGSIZE)
       (bind (mappages pgdir 0 PGSIZE (V2P mem) (PTE_W OR PTE_U)) (\<lambda>_.
        modify (\<lambda>s. s\<lparr>kmem := store_bytes mem init (kmem s)\<rparr>)))))"

fun allocuvm_loop :: "nat \<Rightarrow> u32 \<Rightarrow> u32 \<Rightarrow> u32 \<Rightarrow> u32 \<Rightarrow> ('z kalst_scheme, u32) kop" where
  "allocuvm_loop 0 pgdir a oldsz newsz = hang"
| "allocuvm_loop (Suc n) pgdir a oldsz newsz =
     (if \<not> a < newsz then return newsz
      else bind kalloc (\<lambda>mem.
        if mem = 0 then
          andthen (cprintf ''allocuvm out of memory\<newline>'' [])
         (bind (deallocuvm pgdir newsz oldsz) (\<lambda>_. return 0))
        else andthen (setmem mem 0 PGSIZE)
         (bind (mappages pgdir a PGSIZE (V2P mem) (PTE_W OR PTE_U)) (\<lambda>r.
          if r < 0 then
            andthen (cprintf ''allocuvm out of memory (2)\<newline>'' [])
           (bind (deallocuvm pgdir newsz oldsz) (\<lambda>_. andthen (kfree mem) (return 0)))
          else allocuvm_loop n pgdir (a + PGSIZE) oldsz newsz))))"

definition allocuvm :: "u32 \<Rightarrow> u32 \<Rightarrow> u32 \<Rightarrow> ('z kalst_scheme, u32) kop" where
  "allocuvm pgdir oldsz newsz =
     (if newsz \<ge> KERNBASE then return 0
      else if newsz < oldsz then return oldsz
      else allocuvm_loop (2 ^ 20) pgdir (PGROUNDUP oldsz) oldsz newsz)"

definition clearpteu :: "u32 \<Rightarrow> u32 \<Rightarrow> ('z kalst_scheme, unit) kop" where
  "clearpteu pgdir uva = bind (walkpgdir pgdir uva False) (\<lambda>pte.
     if pte = 0 then panic ''clearpteu''
     else bind (read32 pte) (\<lambda>w. write32 pte (w AND NOT PTE_U)))"

fun copyuvm_loop :: "nat \<Rightarrow> u32 \<Rightarrow> u32 \<Rightarrow> u32 \<Rightarrow> u32 \<Rightarrow> ('z kalst_scheme, u32) kop" where
  "copyuvm_loop 0 pgdir d i sz = hang"
| "copyuvm_loop (Suc n) pgdir d i sz =
     (if \<not> i < sz then return d
      else bind (walkpgdir pgdir i False) (\<lambda>pte.
        if pte = 0 then panic ''copyuvm: pte should exist''
        else bind (read32 pte) (\<lambda>w.
        if w AND PTE_P = 0 then panic ''copyuvm: page not present''
        else bind kalloc (\<lambda>mem.
        if mem = 0 then andthen (freevm d) (return 0)
        else andthen (movemem mem (P2V (PTE_ADDR w)) PGSIZE)
         (bind (mappages d i PGSIZE (V2P mem) (PTE_FLAGS w)) (\<lambda>r.
          if r < 0 then andthen (kfree mem) (andthen (freevm d) (return 0))
          else copyuvm_loop n pgdir d (i + PGSIZE) sz))))))"

definition copyuvm :: "u32 \<Rightarrow> u32 \<Rightarrow> ('z vmst_scheme, u32) kop" where
  "copyuvm pgdir sz = bind setupkvm (\<lambda>d. if d = 0 then return 0 else copyuvm_loop (2 ^ 20 + 1) pgdir d 0 sz)"

text \<open>\<open>uva2ka\<close> reads the entry that \<open>walkpgdir\<close> found without a test for a null pointer.\<close>

definition uva2ka :: "u32 \<Rightarrow> u32 \<Rightarrow> ('z kalst_scheme, u32) kop" where
  "uva2ka pgdir uva = bind (walkpgdir pgdir uva False) (\<lambda>pte.
     if pte = 0 then fault ''uva2ka''
     else bind (read32 pte) (\<lambda>w.
       if w AND PTE_P = 0 then return 0
       else if w AND PTE_U = 0 then return 0
       else return (P2V (PTE_ADDR w))))"

text \<open>The bytes \<open>buf\<close> to the user address \<open>va\<close>; every round copies at least a byte.\<close>

fun copyout_loop :: "nat \<Rightarrow> u32 \<Rightarrow> u32 \<Rightarrow> u8 list \<Rightarrow> ('z kalst_scheme, int) kop" where
  "copyout_loop 0 pgdir va buf = hang"
| "copyout_loop (Suc k) pgdir va buf =
     (if \<not> length buf > 0 then return 0
      else let va0 = PGROUNDDOWN va in
        bind (uva2ka pgdir va0) (\<lambda>pa0.
        if pa0 = 0 then return (- 1)
        else let n = min (unat (PGSIZE - (va - va0))) (length buf) in
          andthen (modify (\<lambda>s. s\<lparr>kmem := store_bytes (pa0 + (va - va0)) (take n buf) (kmem s)\<rparr>))
            (copyout_loop k pgdir (va0 + PGSIZE) (drop n buf))))"

definition copyout :: "u32 \<Rightarrow> u32 \<Rightarrow> u8 list \<Rightarrow> ('z kalst_scheme, int) kop" where
  "copyout pgdir va buf = copyout_loop (Suc (length buf)) pgdir va buf"

section \<open>Addresses in pages\<close>

lemma page_aligned_unat: "page_ok k x \<Longrightarrow> unat x mod 4096 = 0"
  by (simp add: page_ok_def aligned_mod)

lemma PDX_less: "PDX va < 1024" and PTX_less: "PTX va < 1024"
proof -
  have "(x AND 0x3FF :: u32) < 1024" for x :: u32
  proof -
    have "x AND 0x3FF = take_bit 10 x" by (simp add: take_bit_eq_mask mask_eq_exp_minus_1)
    then show ?thesis by (simp add: take_bit_eq_mod word_less_nat_alt unat_mod_distrib)
  qed
  then show "PDX va < 1024" "PTX va < 1024" by (simp_all add: PDX_def PTX_def)
qed

lemma slot_offset: "i < 1024 \<Longrightarrow> 4 * i = (of_nat (4 * unat i) :: u32) \<and> 4 * unat i + 3 < 4096"
  by (simp add: word_less_nat_alt)

lemma slot_inj:
  assumes "x mod PGSIZE = 0" "y mod PGSIZE = 0" "i < 1024" "j < 1024" "x + 4 * i = y + 4 * j"
  shows "x = y \<and> i = j"
proof -
  have o: "4 * unat i < 4096" "4 * unat j < 4096"
    using slot_offset [OF assms(3)] slot_offset [OF assms(4)] by linarith+
  have "x + of_nat (4 * unat i) = y + of_nat (4 * unat j)"
    using assms(5) slot_offset [OF assms(3)] slot_offset [OF assms(4)] by (simp only:)
  then have "x = y \<and> 4 * unat i = 4 * unat j"
    using aligned_unique [OF _ aligned_mod [OF assms(1)] aligned_mod [OF assms(2)] o] by simp
  then show ?thesis by (simp add: word_unat_eq_iff)
qed

lemma slot_aligned:
  assumes "x mod PGSIZE = 0" "i < 1024"
  shows "unat (x + 4 * i) mod 4 = 0"
proof -
  obtain k where "unat x = 4096 * k" using aligned_mod [OF assms(1)] by auto
  then have k: "unat x = 4 * (1024 * k)" by simp
  have "unat (4 * i) = 4 * unat i" using assms(2) by (simp add: word_less_nat_alt unat_word_ariths)
  then have "unat (x + 4 * i) = (4 * (1024 * k + unat i)) mod 2 ^ 32" by (simp add: unat_word_ariths k)
  then show ?thesis by (simp add: mod_mod_cancel)
qed

lemma load_store_slot:
  assumes "x mod PGSIZE = 0" "y mod PGSIZE = 0" "i < 1024" "j < 1024"
  shows "load32 (store32 (x + 4 * i) w m) (y + 4 * j) = (if x = y \<and> i = j then w else load32 m (y + 4 * j))"
proof (cases "x = y \<and> i = j")
  case True
  then show ?thesis by simp
next
  case False
  then have "x + 4 * i \<noteq> y + 4 * j" using slot_inj [OF assms] by blast
  then show ?thesis using False slot_aligned [OF assms(1,3)] slot_aligned [OF assms(2,4)] by auto
qed

lemma load_clear_slot:
  assumes "x mod PGSIZE = 0" "y mod PGSIZE = 0" "j < 1024"
  shows "load32 (memset x 0 PGSIZE m) (y + 4 * j) = (if x = y then 0 else load32 m (y + 4 * j))"
proof (cases "x = y")
  case True
  have "memset x 0 PGSIZE m (y + 4 * j + of_nat k) = 0" if "k < 4" for k
  proof -
    have "y + 4 * j + of_nat k = x + of_nat (4 * unat j + k)" using slot_offset [OF assms(3)] True by simp
    moreover have "4 * unat j + k < 4096" using slot_offset [OF assms(3)] that by simp
    ultimately show ?thesis unfolding memset_eq by (simp add: store_bytes_nth del: of_nat_add)
  qed
  then have "load32 (memset x 0 PGSIZE m) (y + 4 * j) = load32 (\<lambda>_. 0) (y + 4 * j)"
    by (intro load32_cong) simp
  then show ?thesis using True by simp
next
  case False
  have "memset x 0 PGSIZE m (y + 4 * j + of_nat k) = m (y + 4 * j + of_nat k)" if "k < 4" for k
    unfolding memset_eq
  proof (rule store_bytes_other)
    fix i assume "i < length (replicate (unat PGSIZE) (ucast (0 :: u32) :: u8))"
    then have i: "i < 4096" by simp
    have k: "4 * unat j + k < 4096" using slot_offset [OF assms(3)] that by simp
    have "y + 4 * j + of_nat k = y + of_nat (4 * unat j + k)" using slot_offset [OF assms(3)] by simp
    then show "y + 4 * j + of_nat k \<noteq> x + of_nat i"
      using aligned_unique [of 4096 y x "4 * unat j + k" i] i k False assms(1,2) by (auto simp: aligned_mod add.assoc)
  qed
  then show ?thesis using False by (auto intro: load32_cong)
qed

text \<open>The first word of a page is its slot 0.\<close>

lemmas load_store_first = load_store_slot [where j = 0, simplified]
lemmas load_clear_first = load_clear_slot [where j = 0, simplified]

section \<open>Entries\<close>

lemma low_bits_zero:
  fixes v :: u32
  assumes "v mod PGSIZE = 0"
  shows "n < 12 \<Longrightarrow> \<not> bit v n"
proof -
  have "take_bit 12 v = 0" using assms by (simp add: take_bit_eq_mod)
  then have "bit (take_bit 12 v) n = bit (0 :: u32) n" by simp
  then show "n < 12 \<Longrightarrow> \<not> bit v n" by (simp add: bit_simps)
qed

lemma high_bits_zero:
  fixes w :: u32
  assumes "w < PGSIZE"
  shows "12 \<le> n \<Longrightarrow> \<not> bit w n"
proof -
  have "w = take_bit 12 w"
    using assms by (simp add: take_bit_eq_mod word_unat_eq_iff unat_mod_distrib word_less_nat_alt)
  then show "12 \<le> n \<Longrightarrow> \<not> bit w n" by (metis bit_take_bit_iff not_less)
qed

lemma PTE_ADDR_or:
  assumes "v mod PGSIZE = 0" "w < PGSIZE"
  shows "PTE_ADDR (v OR w) = v" and "PTE_FLAGS (v OR w) = w"
proof -
  have m: "(0xFFF :: u32) = mask 12" by (simp add: mask_eq_exp_minus_1)
  show "PTE_ADDR (v OR w) = v" unfolding PTE_ADDR_def m
    by (rule bit_word_eqI) (auto simp: bit_simps high_bits_zero [OF assms(2)] dest: low_bits_zero [OF assms(1)] intro: leI)
  show "PTE_FLAGS (v OR w) = w" unfolding PTE_FLAGS_def m
    by (rule bit_word_eqI, auto simp: bit_simps low_bits_zero [OF assms(1)]) (metis high_bits_zero [OF assms(2)] not_less)
qed

lemma PTE_ADDR_aligned: "PTE_ADDR w mod PGSIZE = 0"
proof -
  have m: "(0xFFF :: u32) = mask 12" by (simp add: mask_eq_exp_minus_1)
  have "take_bit 12 (PTE_ADDR w) = 0" unfolding PTE_ADDR_def m
    by (rule bit_word_eqI) (auto simp: bit_simps)
  then show ?thesis by (simp add: take_bit_eq_mod)
qed

lemma P2V_V2P [simp]: "P2V (V2P a) = a" and V2P_P2V [simp]: "V2P (P2V a) = a"
  by (simp_all add: P2V_def V2P_def)

lemma P2V_aligned: "v mod PGSIZE = 0 \<Longrightarrow> P2V v mod PGSIZE = 0"
proof -
  assume "v mod PGSIZE = 0"
  then obtain k where "unat v = 4096 * k" using aligned_mod [of v] by auto
  then have "unat (P2V v) = (4096 * (k + 0x80000)) mod 2 ^ 32" by (simp add: P2V_def unat_word_ariths)
  then have "unat (P2V v) mod 4096 = 0" by (simp add: mod_mod_cancel)
  then show ?thesis by (simp add: word_unat_eq_iff unat_mod_distrib)
qed

lemma V2P_aligned: "v mod PGSIZE = 0 \<Longrightarrow> V2P v mod PGSIZE = 0"
proof -
  have "V2P v = P2V v" by (simp add: V2P_def P2V_def diff_eq_eq)
  then show "v mod PGSIZE = 0 \<Longrightarrow> V2P v mod PGSIZE = 0" by (simp add: P2V_aligned)
qed

lemma or_present: "(w OR PTE_P) AND PTE_P \<noteq> (0 :: u32)"
proof -
  have "(w OR PTE_P) AND PTE_P = PTE_P" by (rule bit_word_eqI) (auto simp: bit_simps)
  then show ?thesis by simp
qed


section \<open>Translations\<close>

text \<open>The entry of directory slot \<open>i\<close>, the page table it names, and the page table entry of a virtual address.\<close>

definition pde_at :: "(u32 \<Rightarrow> u8) \<Rightarrow> u32 \<Rightarrow> u32 \<Rightarrow> u32" where
  "pde_at m pgdir i = load32 m (pgdir + 4 * i)"

definition table_at :: "(u32 \<Rightarrow> u8) \<Rightarrow> u32 \<Rightarrow> u32 \<Rightarrow> u32" where
  "table_at m pgdir i = P2V (PTE_ADDR (pde_at m pgdir i))"

definition present :: "u32 \<Rightarrow> bool" where
  "present w \<longleftrightarrow> w AND PTE_P \<noteq> 0"

definition pte_of :: "(u32 \<Rightarrow> u8) \<Rightarrow> u32 \<Rightarrow> u32 \<Rightarrow> u32" where
  "pte_of m pgdir va =
     (if present (pde_at m pgdir (PDX va)) then load32 m (table_at m pgdir (PDX va) + 4 * PTX va) else 0)"

text \<open>
  A well-formed page directory with the free pages \<open>ps\<close>: the directory and the page tables it names are pages of their own,
  none of them free.
\<close>

definition pt_wf :: "u32 \<Rightarrow> u32 list \<Rightarrow> 'z kalst_scheme \<Rightarrow> bool" where
  "pt_wf pgdir ps s \<longleftrightarrow>
     free_pages ps s \<and> page_ok (kend s) pgdir \<and> pgdir \<notin> set ps \<and>
     (\<forall>i<1024. present (pde_at (kmem s) pgdir i) \<longrightarrow>
        (let t = table_at (kmem s) pgdir i in page_ok (kend s) t \<and> t \<noteq> pgdir \<and> t \<notin> set ps)) \<and>
     (\<forall>i<1024. \<forall>j<1024. present (pde_at (kmem s) pgdir i) \<longrightarrow> present (pde_at (kmem s) pgdir j) \<longrightarrow>
        table_at (kmem s) pgdir i = table_at (kmem s) pgdir j \<longrightarrow> i = j)"

lemma pt_wfD:
  assumes "pt_wf pgdir ps s"
  shows "free_pages ps s" "page_ok (kend s) pgdir" "pgdir mod PGSIZE = 0" "pgdir \<notin> set ps"
    and "i < 1024 \<Longrightarrow> present (pde_at (kmem s) pgdir i) \<Longrightarrow>
      page_ok (kend s) (table_at (kmem s) pgdir i) \<and> table_at (kmem s) pgdir i mod PGSIZE = 0 \<and>
      table_at (kmem s) pgdir i \<noteq> pgdir \<and> table_at (kmem s) pgdir i \<notin> set ps"
    and "i < 1024 \<Longrightarrow> j < 1024 \<Longrightarrow> present (pde_at (kmem s) pgdir i) \<Longrightarrow>
      present (pde_at (kmem s) pgdir j) \<Longrightarrow> table_at (kmem s) pgdir i = table_at (kmem s) pgdir j \<Longrightarrow> i = j"
  using assms by (auto simp: pt_wf_def Let_def page_ok_def)

text \<open>Changes of the memory that a page directory and the free list do not see.\<close>

lemma pt_frame:
  assumes wf: "pt_wf pgdir ps s"
    and pd: "\<And>i. i < 1024 \<Longrightarrow> load32 m (pgdir + 4 * i) = load32 (kmem s) (pgdir + 4 * i)"
    and fl: "\<And>p. p \<in> set ps \<Longrightarrow> load32 m p = load32 (kmem s) p"
  shows "pt_wf pgdir ps (s\<lparr>kmem := m\<rparr>)"
proof -
  have "chain m (freelist s) ps = chain (kmem s) (freelist s) ps" by (rule chain_cong) (simp add: fl)
  then have "free_pages ps (s\<lparr>kmem := m\<rparr>)" using pt_wfD(1) [OF wf] by (simp add: free_pages_def)
  then show ?thesis using wf pd by (simp add: pt_wf_def pde_at_def table_at_def)
qed

text \<open>Writing an entry of a page table: the directory stays well formed, and only that entry changes.\<close>

lemma write_pte:
  fixes w :: u32
  assumes wf: "pt_wf pgdir ps s" and pr: "present (pde_at (kmem s) pgdir (PDX va))"
  defines "m \<equiv> store32 (table_at (kmem s) pgdir (PDX va) + 4 * PTX va) w (kmem s)"
  shows "pt_wf pgdir ps (s\<lparr>kmem := m\<rparr>)"
    and "pte_of m pgdir va' = (if PDX va' = PDX va \<and> PTX va' = PTX va then w else pte_of (kmem s) pgdir va')"
proof -
  let ?t = "table_at (kmem s) pgdir"
  have t: "?t (PDX va) mod PGSIZE = 0" "?t (PDX va) \<noteq> pgdir" "?t (PDX va) \<notin> set ps"
    using pt_wfD(5) [OF wf PDX_less pr] by auto
  have pg: "pgdir mod PGSIZE = 0" using pt_wfD(3) [OF wf] .
  have pd: "load32 m (pgdir + 4 * i) = load32 (kmem s) (pgdir + 4 * i)" if "i < 1024" for i
    unfolding m_def using t(2) by (simp add: load_store_slot [OF t(1) pg PTX_less that])
  show "pt_wf pgdir ps (s\<lparr>kmem := m\<rparr>)"
  proof (rule pt_frame [OF wf pd])
    fix p assume p: "p \<in> set ps"
    then have "p mod PGSIZE = 0" using pt_wfD(1) [OF wf] by (auto simp: free_pages_def page_ok_def)
    then show "load32 m p = load32 (kmem s) p"
      unfolding m_def using load_store_first [OF t(1) _ PTX_less, of p va w "kmem s"] p t(3) by auto
  qed simp
  have eq: "pde_at m pgdir (PDX va') = pde_at (kmem s) pgdir (PDX va')" "table_at m pgdir (PDX va') = ?t (PDX va')"
    by (simp_all add: pde_at_def table_at_def pd PDX_less)
  show "pte_of m pgdir va' = (if PDX va' = PDX va \<and> PTX va' = PTX va then w else pte_of (kmem s) pgdir va')"
  proof (cases "present (pde_at (kmem s) pgdir (PDX va'))")
    case True
    have t': "?t (PDX va') mod PGSIZE = 0" using pt_wfD(5) [OF wf PDX_less True] by auto
    have inj: "?t (PDX va) = ?t (PDX va') \<longleftrightarrow> PDX va' = PDX va"
      using pt_wfD(6) [OF wf PDX_less PDX_less pr True] by auto
    have "load32 m (?t (PDX va') + 4 * PTX va') =
        (if PDX va' = PDX va \<and> PTX va' = PTX va then w else load32 (kmem s) (?t (PDX va') + 4 * PTX va'))"
      unfolding m_def load_store_slot [OF t(1) t' PTX_less PTX_less] by (auto simp: inj)
    then show ?thesis using True by (simp add: pte_of_def eq)
  next
    case False
    then have "PDX va' \<noteq> PDX va" using pr by metis
    then show ?thesis using False by (simp add: pte_of_def eq)
  qed
qed

text \<open>A new, cleared page table in an empty directory slot.\<close>

lemma new_table:
  assumes wf: "pt_wf pgdir (p # ps) s" and ab: "\<not> present (pde_at (kmem s) pgdir (PDX va))"
  defines "m \<equiv> store32 (pgdir + 4 * PDX va) (V2P p OR PTE_P OR PTE_W OR PTE_U) (memset p 0 PGSIZE (kmem s))"
  defines "t \<equiv> s\<lparr>freelist := load32 (kmem s) p, kmem := m\<rparr>"
  shows "pt_wf pgdir ps t" and "pte_of m pgdir va' = pte_of (kmem s) pgdir va'"
    and "present (pde_at m pgdir (PDX va))" and "table_at m pgdir (PDX va) = p"
proof -
  have fp: "free_pages (p # ps) s" using pt_wfD(1) [OF wf] .
  have pg: "pgdir mod PGSIZE = 0" "page_ok (kend s) pgdir" "pgdir \<noteq> p" "pgdir \<notin> set ps"
    using pt_wfD(2-4) [OF wf] by auto
  have p: "p mod PGSIZE = 0" "page_ok (kend s) p" "p \<notin> set ps" using fp by (auto simp: free_pages_def page_ok_def)
  have pde: "pde_at m pgdir i =
      (if i = PDX va then V2P p OR PTE_P OR PTE_W OR PTE_U else pde_at (kmem s) pgdir i)" if "i < 1024" for i
    using pg(3) by (auto simp: pde_at_def m_def load_store_slot [OF pg(1) pg(1) PDX_less that] load_clear_slot [OF p(1) pg(1) that])
  have tab: "table_at m pgdir i = (if i = PDX va then p else table_at (kmem s) pgdir i)" if "i < 1024" for i
  proof (cases "i = PDX va")
    case True
    have "PTE_ADDR (V2P p OR 7) = V2P p" using V2P_aligned [OF p(1)] by (rule PTE_ADDR_or) simp
    then show ?thesis using True by (simp add: table_at_def pde [OF PDX_less])
  next
    case False
    then show ?thesis by (simp add: table_at_def pde [OF that])
  qed
  have pr: "present (V2P p OR PTE_P OR PTE_W OR PTE_U)"
    using or_present [of "V2P p OR 6"] by (simp add: present_def or.assoc)
  show "present (pde_at m pgdir (PDX va))" "table_at m pgdir (PDX va) = p"
    using pde [OF PDX_less] tab [OF PDX_less] pr by simp_all
  have "chain m (load32 (kmem s) p) ps = chain (kmem s) (load32 (kmem s) p) ps"
  proof (rule chain_cong)
    fix q assume q: "q \<in> set ps"
    then have qa: "q mod PGSIZE = 0" "q \<noteq> p" "q \<noteq> pgdir" using fp pg p(3) by (auto simp: free_pages_def page_ok_def)
    then show "load32 m q = load32 (kmem s) q"
      unfolding m_def using load_store_first [OF pg(1) qa(1) PDX_less] load_clear_first [OF p(1) qa(1)] by auto
  qed
  then have "free_pages ps t" using fp by (simp add: free_pages_def t_def)
  moreover have tabs: "table_at (kmem s) pgdir i \<noteq> p" if "i < 1024" "present (pde_at (kmem s) pgdir i)" for i
    using pt_wfD(5) [OF wf that] by auto
  ultimately show "pt_wf pgdir ps t"
    unfolding pt_wf_def t_def Let_def using pg p pt_wfD(5,6) [OF wf]
    by (auto simp: pde tab)
  show "pte_of m pgdir va' = pte_of (kmem s) pgdir va'"
  proof (cases "PDX va' = PDX va")
    case True
    have "load32 m (p + 4 * PTX va') = 0"
      unfolding m_def using pg(3) by (simp add: load_store_slot [OF pg(1) p(1) PDX_less PTX_less] load_clear_slot [OF p(1) p(1) PTX_less])
    then show ?thesis using True ab by (simp add: pte_of_def tab [OF PDX_less])
  next
    case False
    have "load32 m (table_at (kmem s) pgdir (PDX va') + 4 * PTX va') =
        load32 (kmem s) (table_at (kmem s) pgdir (PDX va') + 4 * PTX va')"
      if "present (pde_at (kmem s) pgdir (PDX va'))"
    proof -
      have ta: "table_at (kmem s) pgdir (PDX va') mod PGSIZE = 0" "table_at (kmem s) pgdir (PDX va') \<noteq> pgdir"
        "table_at (kmem s) pgdir (PDX va') \<noteq> p"
        using pt_wfD(5) [OF wf PDX_less that] by auto
      then show ?thesis
        unfolding m_def by (auto simp: load_store_slot [OF pg(1) ta(1) PDX_less PTX_less] load_clear_slot [OF p(1) ta(1) PTX_less])
    qed
    then show ?thesis using False by (simp add: pte_of_def tab pde PDX_less)
  qed
qed

section \<open>The operations\<close>

lemma table_slot_not_null:
  assumes "pt_wf pgdir ps s" and "present (pde_at (kmem s) pgdir (PDX va))"
  shows "table_at (kmem s) pgdir (PDX va) + 4 * PTX va \<noteq> 0"
proof
  assume h: "table_at (kmem s) pgdir (PDX va) + 4 * PTX va = 0"
  note t = pt_wfD(5) [OF assms(1) PDX_less assms(2)]
  then have "table_at (kmem s) pgdir (PDX va) = 0"
    using slot_inj [of "table_at (kmem s) pgdir (PDX va)" 0 "PTX va" 0] h PTX_less by simp
  then show False using t page_ok_not_null by blast
qed

text \<open>
  A walk that may allocate: it fails only when a page table is missing and there is no page; otherwise
  the result is the address of the entry, in a directory that is still well formed and has the same
  translations.
\<close>

lemma walkpgdir_alloc:
  assumes wf: "pt_wf pgdir ps s" and lk: "kmem_free s"
  shows "wp (walkpgdir pgdir va True) (\<lambda>r t d. d = e \<and>
    (if r = 0 then t = s \<and> ps = [] \<and> \<not> present (pde_at (kmem s) pgdir (PDX va))
     else r = table_at (kmem t) pgdir (PDX va) + 4 * PTX va \<and> present (pde_at (kmem t) pgdir (PDX va)) \<and>
       pt_wf pgdir (if present (pde_at (kmem s) pgdir (PDX va)) then ps else tl ps) t \<and> kmem_free t \<and> kend t = kend s \<and>
       (\<forall>va'. pte_of (kmem t) pgdir va' = pte_of (kmem s) pgdir va'))) s e"
proof (cases "present (pde_at (kmem s) pgdir (PDX va))")
  case True
  then show ?thesis using table_slot_not_null [OF wf True] wf lk
    by (simp add: walkpgdir_def Let_def wp_rules read32_def present_def pde_at_def table_at_def)
next
  case False
  then have ab: "load32 (kmem s) (pgdir + 4 * PDX va) AND PTE_P = 0" by (simp add: present_def pde_at_def)
  have fl: "chain (kmem s) (freelist s) ps" using pt_wfD(1) [OF wf] by (simp add: free_pages_def)
  show ?thesis
  proof (cases ps)
    case Nil
    then show ?thesis using fl lk ab False
      by (simp add: walkpgdir_def Let_def wp_rules read32_def)
  next
    case (Cons p qs)
    then have p: "freelist s = p" "p \<noteq> 0" using fl by auto
    note new = new_table [OF wf [unfolded Cons] False]
    let ?m = "store32 (pgdir + 4 * PDX va) (V2P p OR PTE_P OR PTE_W OR PTE_U) (memset p 0 PGSIZE (kmem s))"
    let ?t = "s\<lparr>freelist := load32 (kmem s) p, kmem := ?m\<rparr>"
    have nz: "p + 4 * PTX va \<noteq> 0"
      using table_slot_not_null [of pgdir qs ?t va] new(1,3,4) by simp
    have "kmem_free ?t" using lk by (simp add: kmem_free_def)
    then show ?thesis using False new nz ab p lk Cons
      by (simp add: walkpgdir_def Let_def wp_rules read32_def write32_def setmem_def)
  qed
qed

lemma PGROUNDDOWN_id: "a mod PGSIZE = 0 \<Longrightarrow> PGROUNDDOWN a = a"
proof -
  assume h: "a mod PGSIZE = 0"
  have m: "(PGSIZE - 1 :: u32) = mask 12" by (simp add: mask_eq_exp_minus_1)
  show ?thesis unfolding PGROUNDDOWN_def m
    by (rule bit_word_eqI) (auto simp: bit_simps dest: low_bits_zero [OF h] intro: leI)
qed

lemma PGROUNDDOWN_last: "a mod PGSIZE = 0 \<Longrightarrow> PGROUNDDOWN (a + PGSIZE - 1) = a"
proof -
  assume h: "a mod PGSIZE = 0"
  have m: "(PGSIZE - 1 :: u32) = mask 12" by (simp add: mask_eq_exp_minus_1)
  have "a + PGSIZE - 1 = a + mask 12" by (simp add: mask_eq_exp_minus_1)
  also have "\<dots> = a OR mask 12"
    by (rule disjunctive_add) (auto simp: bit_simps dest: low_bits_zero [OF h])
  finally have e: "a + PGSIZE - 1 = a OR mask 12" .
  show ?thesis unfolding PGROUNDDOWN_def m e [unfolded m]
    by (rule bit_word_eqI) (auto simp: bit_simps e dest: low_bits_zero [OF h] intro: leI)
qed

text \<open>What \<open>mappages\<close> does for a single page.\<close>

lemma mappages_page:
  assumes wf: "pt_wf pgdir ps s" and lk: "kmem_free s" and va: "va mod PGSIZE = 0"
    and un: "\<not> present (pte_of (kmem s) pgdir va)"
  shows "wp (mappages pgdir va PGSIZE pa perm) (\<lambda>r t d. d = e \<and>
    (if r = 0
     then (\<exists>qs. pt_wf pgdir qs t \<and> set qs \<subseteq> set ps) \<and> kmem_free t \<and> kend t = kend s \<and>
       (\<forall>va'. pte_of (kmem t) pgdir va' =
         (if PDX va' = PDX va \<and> PTX va' = PTX va then pa OR perm OR PTE_P else pte_of (kmem s) pgdir va'))
     else r = - 1 \<and> t = s \<and> ps = [])) s e"
proof -
  have fuel: "(2 ^ 20 :: nat) = Suc 1048575" by simp
  let ?Q = "\<lambda>(r :: int) t d. d = e \<and>
    (if r = 0
     then (\<exists>qs. pt_wf pgdir qs t \<and> set qs \<subseteq> set ps) \<and> kmem_free t \<and> kend t = kend s \<and>
       (\<forall>va'. pte_of (kmem t) pgdir va' =
         (if PDX va' = PDX va \<and> PTX va' = PTX va then pa OR perm OR PTE_P else pte_of (kmem s) pgdir va'))
     else r = - 1 \<and> t = s \<and> ps = [])"
  have "wp (walkpgdir pgdir va True) (\<lambda>pte. wp (if pte = 0 then return (- 1)
     else bind (read32 pte) (\<lambda>w.
     if w AND PTE_P \<noteq> 0 then panic ''remap''
     else andthen (write32 pte (pa OR perm OR PTE_P)) (return 0))) ?Q) s e"
    using walkpgdir_alloc [OF wf lk, of va e]
  proof (rule wp_mono, goal_cases)
    case (1 r t d)
    show ?case
    proof (cases "r = 0")
      case True
      then show ?thesis using 1 by (simp add: wp_rules)
    next
      case False
      let ?qs = "if present (pde_at (kmem s) pgdir (PDX va)) then ps else tl ps"
      have r: "r = table_at (kmem t) pgdir (PDX va) + 4 * PTX va" "present (pde_at (kmem t) pgdir (PDX va))"
        "pt_wf pgdir ?qs t" "kmem_free t" "kend t = kend s" "d = e"
        and tr: "\<And>va'. pte_of (kmem t) pgdir va' = pte_of (kmem s) pgdir va'"
        using 1 False by auto
      have sub: "set ?qs \<subseteq> set ps" using list.set_sel(2) [of ps] by (cases ps) auto
      have "\<not> present (load32 (kmem t) r)" using un r(1,2) tr [of va] by (simp add: pte_of_def)
      moreover note w = write_pte [OF r(3,2), of "pa OR perm OR PTE_P"]
      ultimately show ?thesis using False r sub tr
        by (auto simp: wp_rules read32_def write32_def present_def kmem_free_def)
    qed
  qed
  then show ?thesis
    by (simp only: mappages_def PGROUNDDOWN_id [OF va] PGROUNDDOWN_last [OF va] fuel mappages_loop.simps wp_bind refl if_True)
qed

section \<open>What the operations leave alone\<close>

text \<open>A part of the state that the allocator, the page tables and the console do not change.\<close>

definition vm_blind :: "('z kalst_scheme \<Rightarrow> 'f) \<Rightarrow> bool" where
  "vm_blind F \<longleftrightarrow> (\<forall>s h. F (s\<lparr>held := h\<rparr>) = F s) \<and> (\<forall>s m. F (s\<lparr>kmem := m\<rparr>) = F s) \<and>
     (\<forall>s k. F (s\<lparr>con := k\<rparr>) = F s) \<and> (\<forall>s p. F (s\<lparr>freelist := p\<rparr>) = F s)"

lemma vm_blindD:
  assumes "vm_blind F"
  shows "F (s\<lparr>held := h\<rparr>) = F s" "F (s\<lparr>kmem := m\<rparr>) = F s" "F (s\<lparr>con := k\<rparr>) = F s" "F (s\<lparr>freelist := p\<rparr>) = F s"
  using assms by (simp_all add: vm_blind_def)

lemma frame_mem [frame_intros]:
  "vm_blind F \<Longrightarrow> frame F (read32 a)" "vm_blind F \<Longrightarrow> frame F (write32 a w)"
  "vm_blind F \<Longrightarrow> frame F (setmem a w n)" "vm_blind F \<Longrightarrow> frame F (movemem a b n)"
  by (auto simp: mem_defs vm_blindD intro!: frame_intros)

lemma frame_kalloc [frame_intros]: "vm_blind F \<Longrightarrow> frame F kalloc"
  unfolding kalloc_def by (intro frame_intros) (auto simp: vm_blindD)

lemma frame_kfree [frame_intros]: "vm_blind F \<Longrightarrow> frame F (kfree v)"
  unfolding kfree_def by (intro frame_intros) (auto simp: vm_blindD)

lemma frame_walkpgdir [frame_intros]: "vm_blind F \<Longrightarrow> frame F (walkpgdir pgdir va alloc)"
  unfolding walkpgdir_def Let_def by (intro frame_intros)

lemma frame_mappages_loop: "vm_blind F \<Longrightarrow> frame F (mappages_loop n pgdir a final pa perm)"
  by (induction n arbitrary: a pa) (simp_all add: frame_intros)

lemma frame_mappages [frame_intros]: "vm_blind F \<Longrightarrow> frame F (mappages pgdir va sz pa perm)"
  by (simp add: mappages_def frame_mappages_loop)

lemma frame_deallocuvm_loop: "vm_blind F \<Longrightarrow> frame F (deallocuvm_loop n pgdir a oldsz)"
  by (induction n arbitrary: a) (simp_all add: Let_def frame_intros)

lemma frame_deallocuvm [frame_intros]: "vm_blind F \<Longrightarrow> frame F (deallocuvm pgdir oldsz newsz)"
  unfolding deallocuvm_def by (intro frame_intros frame_deallocuvm_loop)

lemma frame_freevm [frame_intros]: "vm_blind F \<Longrightarrow> frame F (freevm pgdir)"
  unfolding freevm_def by (intro frame_intros)

lemma frame_setupkvm_loop: "vm_blind F \<Longrightarrow> frame F (setupkvm_loop pgdir ks)"
  by (induction pgdir ks rule: setupkvm_loop.induct) (simp_all add: frame_intros)

lemma frame_setupkvm [frame_intros]: "vm_blind F \<Longrightarrow> frame F setupkvm"
  unfolding setupkvm_def by (intro frame_intros frame_setupkvm_loop)

lemma frame_allocuvm_loop: "vm_blind F \<Longrightarrow> frame F (allocuvm_loop n pgdir a oldsz newsz)"
  by (induction n arbitrary: a) (simp_all add: vm_blindD frame_intros)

lemma frame_allocuvm [frame_intros]: "vm_blind F \<Longrightarrow> frame F (allocuvm pgdir oldsz newsz)"
  unfolding allocuvm_def by (intro frame_intros frame_allocuvm_loop)

lemma frame_copyuvm_loop: "vm_blind F \<Longrightarrow> frame F (copyuvm_loop n pgdir d i sz)"
  by (induction n arbitrary: i) (simp_all add: frame_intros)

lemma frame_copyuvm [frame_intros]: "vm_blind F \<Longrightarrow> frame F (copyuvm pgdir sz)"
  unfolding copyuvm_def by (intro frame_intros frame_copyuvm_loop)

section \<open>Properties\<close>

text \<open>
  C14. \<open>mappages\<close> of one page maps that page and nothing else: in a well-formed page directory in which the page is not yet mapped, it
  either returns 0, and then the entry of the page is the physical address with the permissions and the present bit, the
  entries of all other virtual addresses are what they were, and the directory is still well formed with
  page tables that are not free; or it returns -1, and then no page was left and nothing has changed.
\<close>
theorem mappages_maps_one_page:
  assumes "pt_wf pgdir ps s" and "kmem_free s" and "va mod PGSIZE = 0"
    and "\<not> present (pte_of (kmem s) pgdir va)"
  shows "wp (mappages pgdir va PGSIZE pa perm) (\<lambda>r t d.
    if r = 0
    then (\<exists>qs. pt_wf pgdir qs t \<and> set qs \<subseteq> set ps) \<and>
      (\<forall>va'. pte_of (kmem t) pgdir va' =
        (if PDX va' = PDX va \<and> PTX va' = PTX va then pa OR perm OR PTE_P else pte_of (kmem s) pgdir va'))
    else r = - 1 \<and> t = s \<and> ps = []) s e"
  using mappages_page [OF assms] by (rule wp_mono) (auto split: if_splits)

definition vm_demo :: vmst where
  "vm_demo = \<lparr>held = [], kmem = (\<lambda>_. 0), con = con_demo, use_lock = True, freelist = 0x80101000, kend = 0x80100000,
     kpgdir = 0, cr3 = 0, kdata = 0x80108000\<rparr>"

lemma vm_demo_ok:
  "pt_wf 0x80102000 [0x80101000] vm_demo" "kmem_free vm_demo" "\<not> present (pte_of (kmem vm_demo) pgdir va)"
  by (simp_all add: vm_demo_def pt_wf_def free_pages_def page_ok_def V2P_def kmem_free_def pde_at_def present_def pte_of_def)

theorem mappages_maps_one_page_witness:
  "wp (mappages 0x80102000 0x1000 PGSIZE 0x103000 7) (\<lambda>r t d.
     r = 0 \<longrightarrow> pte_of (kmem t) 0x80102000 0x1234 = 0x103007 \<and> pte_of (kmem t) 0x80102000 0x2000 = 0) vm_demo []"
proof -
  have pte: "pte_of (kmem vm_demo) 0x80102000 va = 0" for va
    by (simp add: pte_of_def vm_demo_def)
  have "PDX 0x1234 = PDX 0x1000 \<and> PTX 0x1234 = PTX 0x1000" "\<not> (PDX 0x2000 = PDX 0x1000 \<and> PTX 0x2000 = PTX 0x1000)"
    by (simp_all add: PDX_def PTX_def)
  note tr = this
  have "wp (mappages 0x80102000 0x1000 PGSIZE 0x103000 7) (\<lambda>r t d.
    if r = 0
    then (\<exists>qs. pt_wf 0x80102000 qs t \<and> set qs \<subseteq> set [0x80101000]) \<and>
      (\<forall>va'. pte_of (kmem t) 0x80102000 va' =
        (if PDX va' = PDX 0x1000 \<and> PTX va' = PTX 0x1000 then 0x103000 OR 7 OR PTE_P else pte_of (kmem vm_demo) 0x80102000 va'))
    else r = - 1 \<and> t = vm_demo \<and> [0x80101000 :: u32] = []) vm_demo []"
    by (rule mappages_maps_one_page [OF vm_demo_ok(1,2) _ vm_demo_ok(3)]) simp
  then show ?thesis by (rule wp_mono) (use tr pte in \<open>auto split: if_splits\<close>)
qed

end
