(* ===== verification/Proc.thy ===== *)
theory Proc
  imports VM
begin

text \<open>
  The process table and the scheduler, \<open>proc.c\<close>, without the operations that need the file system
  (\<open>userinit\<close>, \<open>fork\<close> and \<open>exit\<close>, see \<open>ProcLife\<close>). A pointer to a process is its index in the table; \<open>cur\<close> is
  the process of the running processor, \<open>c->proc\<close>. Trap frame and context are in the process's kernel stack, in
  memory.

  \<open>sched\<close> gives up the processor: the next entry of the tape says what the rest of the system
  does until the scheduler switches back. The other way round, for the scheduler's loop, an entry of the tape is a run
  of the chosen process.
\<close>

abbreviation NPROC :: nat where "NPROC \<equiv> 64"
abbreviation NOFILE :: nat where "NOFILE \<equiv> 16"
abbreviation KSTACKSIZE :: u32 where "KSTACKSIZE \<equiv> 4096"

datatype procstate = UNUSED | EMBRYO | SLEEPING | RUNNABLE | RUNNING | ZOMBIE

text \<open>The addresses that processes sleep on.\<close>

datatype chan = ChNull | ChProc nat | ChTicks | ChInput | ChLog | ChBuf nat | ChSleep lockid
  | ChPipeRead u32 | ChPipeWrite u32

record proc =
  p_sz :: u32
  p_pgdir :: u32
  p_kstack :: u32
  p_state :: procstate
  p_pid :: int
  p_parent :: "nat option"
  p_tf :: u32
  p_context :: u32
  p_chan :: chan
  p_killed :: bool
  p_ofile :: "nat option list"
  p_cwd :: "nat option"
  p_name :: "u8 list"
  p_container_id :: int
  p_cont :: "nat option"

record procst = vmst +
  ptable :: "proc list"
  initproc :: "nat option"
  nextpid :: int
  cur :: "nat option"
  cpu_intena :: bool
  ts_esp0 :: u32
  sym_trapret :: u32
  sym_forkret :: u32

text \<open>Offsets of the fields of \<open>struct trapframe\<close> and \<open>struct context\<close>, and their sizes.\<close>

abbreviation (input) TF_SIZE :: u32 where "TF_SIZE \<equiv> 76"
abbreviation (input) TF_EAX :: u32 where "TF_EAX \<equiv> 28"
abbreviation (input) TF_ES :: u32 where "TF_ES \<equiv> 40"
abbreviation (input) TF_DS :: u32 where "TF_DS \<equiv> 44"
abbreviation (input) TF_TRAPNO :: u32 where "TF_TRAPNO \<equiv> 48"
abbreviation (input) TF_ERR :: u32 where "TF_ERR \<equiv> 52"
abbreviation (input) TF_EIP :: u32 where "TF_EIP \<equiv> 56"
abbreviation (input) TF_CS :: u32 where "TF_CS \<equiv> 60"
abbreviation (input) TF_EFLAGS :: u32 where "TF_EFLAGS \<equiv> 64"
abbreviation (input) TF_ESP :: u32 where "TF_ESP \<equiv> 68"
abbreviation (input) TF_SS :: u32 where "TF_SS \<equiv> 72"
abbreviation (input) CTX_SIZE :: u32 where "CTX_SIZE \<equiv> 20"
abbreviation (input) CTX_EIP :: u32 where "CTX_EIP \<equiv> 16"

section \<open>Access to the table\<close>

definition getp :: "nat \<Rightarrow> ('z procst_scheme, proc) kop" where
  "getp i = bind (gets ptable) (\<lambda>tab. if i < length tab then return (tab ! i) else fault ''ptable'')"

definition setp :: "nat \<Rightarrow> (proc \<Rightarrow> proc) \<Rightarrow> ('z procst_scheme, unit) kop" where
  "setp i f = modify (\<lambda>s. s\<lparr>ptable := (ptable s)[i := f (ptable s ! i)]\<rparr>)"

text \<open>\<open>myproc()\<close>, and its result where the code follows the pointer.\<close>

definition myproc :: "('z procst_scheme, nat option) kop" where
  "myproc = gets cur"

definition curproc :: "('z procst_scheme, nat) kop" where
  "curproc = bind myproc (\<lambda>p. case p of None \<Rightarrow> fault ''myproc'' | Some i \<Rightarrow> return i)"

section \<open>Allocation\<close>

definition allocproc :: "('z procst_scheme, nat option) kop" where
  "allocproc =
     andthen (lock PtableLk)
    (bind (gets ptable) (\<lambda>tab.
     case find_idx (\<lambda>p. p_state p = UNUSED) tab of
       None \<Rightarrow> andthen (unlock PtableLk) (return None)
     | Some i \<Rightarrow>
         bind (gets nextpid) (\<lambda>n.
         if n = 2147483647 then fault ''nextpid''
         else
         andthen (setp i (\<lambda>p. p\<lparr>p_state := EMBRYO, p_pid := n, p_container_id := - 1\<rparr>))
        (andthen (modify (\<lambda>s. s\<lparr>nextpid := n + 1\<rparr>))
        (andthen (unlock PtableLk)
        (bind kalloc (\<lambda>ks.
         if ks = 0 then andthen (setp i (\<lambda>p. p\<lparr>p_kstack := 0, p_state := UNUSED\<rparr>)) (return None)
         else
           let tf = ks + KSTACKSIZE - TF_SIZE; sp = tf - 4; ctx = sp - CTX_SIZE in
           andthen (setp i (\<lambda>p. p\<lparr>p_kstack := ks, p_tf := tf, p_context := ctx\<rparr>))
          (bind (gets sym_trapret) (\<lambda>trapret.
           bind (gets sym_forkret) (\<lambda>forkret.
           andthen (write32 sp trapret)
          (andthen (setmem ctx 0 CTX_SIZE)
          (andthen (write32 (ctx + CTX_EIP) forkret)
           (return (Some i))))))))))))))"

section \<open>Switching\<close>

definition switchuvm :: "nat option \<Rightarrow> ('z procst_scheme, unit) kop" where
  "switchuvm po = (case po of None \<Rightarrow> panic ''switchuvm: no process''
     | Some i \<Rightarrow> bind (getp i) (\<lambda>p.
         if p_kstack p = 0 then panic ''switchuvm: no kstack''
         else if p_pgdir p = 0 then panic ''switchuvm: no pgdir''
         else modify (\<lambda>s. s\<lparr>ts_esp0 := p_kstack p + KSTACKSIZE, cr3 := V2P (p_pgdir p)\<rparr>)))"

text \<open>
  \<open>sched\<close>. The number of locks held is the depth \<open>ncli\<close> of the processor; with a lock held interrupts are off, so that the
  test of \<open>FL_IF\<close> never fails.
\<close>

definition sched :: "('z procst_scheme, unit) kop" where
  "sched = bind curproc (\<lambda>i. bind (getp i) (\<lambda>p. bind (gets held) (\<lambda>hs.
     if PtableLk \<notin> set hs then panic ''sched ptable.lock''
     else if length hs \<noteq> 1 then panic ''sched locks''
     else if p_state p = RUNNING then panic ''sched running''
     else bind (gets cpu_intena) (\<lambda>intena.
       andthen yield_cpu (modify (\<lambda>s. s\<lparr>cpu_intena := intena\<rparr>))))))"

definition yield :: "('z procst_scheme, unit) kop" where
  "yield = andthen (lock PtableLk)
    (bind curproc (\<lambda>i. andthen (setp i (\<lambda>p. p\<lparr>p_state := RUNNABLE\<rparr>))
    (andthen sched (unlock PtableLk))))"

definition sleep :: "chan \<Rightarrow> lockid option \<Rightarrow> ('z procst_scheme, unit) kop" where
  "sleep chan lko = bind myproc (\<lambda>po. case po of
       None \<Rightarrow> panic ''sleep''
     | Some p \<Rightarrow> (case lko of
         None \<Rightarrow> panic ''sleep without lk''
       | Some lk \<Rightarrow>
           andthen (whenM (lk \<noteq> PtableLk) (andthen (lock PtableLk) (unlock lk)))
          (andthen (setp p (\<lambda>q. q\<lparr>p_chan := chan, p_state := SLEEPING\<rparr>))
          (andthen sched
          (andthen (setp p (\<lambda>q. q\<lparr>p_chan := ChNull\<rparr>))
           (whenM (lk \<noteq> PtableLk) (andthen (unlock PtableLk) (lock lk))))))))"

definition wake :: "chan \<Rightarrow> proc \<Rightarrow> proc" where
  "wake chan p = (if p_state p = SLEEPING \<and> p_chan p = chan then p\<lparr>p_state := RUNNABLE\<rparr> else p)"

definition wakeup1 :: "chan \<Rightarrow> ('z procst_scheme, unit) kop" where
  "wakeup1 chan = modify (\<lambda>s. s\<lparr>ptable := map (wake chan) (ptable s)\<rparr>)"

definition wakeup :: "chan \<Rightarrow> ('z procst_scheme, unit) kop" where
  "wakeup chan = andthen (lock PtableLk) (andthen (wakeup1 chan) (unlock PtableLk))"

definition kill :: "int \<Rightarrow> ('z procst_scheme, int) kop" where
  "kill pid = andthen (lock PtableLk)
    (bind (gets ptable) (\<lambda>tab.
     case find_idx (\<lambda>p. p_pid p = pid) tab of
       Some i \<Rightarrow>
         andthen (setp i (\<lambda>p. p\<lparr>p_killed := True\<rparr>))
        (andthen (whenM (p_state (tab ! i) = SLEEPING) (setp i (\<lambda>p. p\<lparr>p_state := RUNNABLE\<rparr>)))
        (andthen (unlock PtableLk) (return 0)))
     | None \<Rightarrow> andthen (unlock PtableLk) (return (- 1))))"

section \<open>Waiting for a child\<close>

text \<open>A round of the loop of \<open>wait\<close>: the scan of the table, and what follows it.\<close>

definition wait_round :: "nat \<Rightarrow> ('z procst_scheme, unit + int) kop" where
  "wait_round curp = bind (gets ptable) (\<lambda>tab.
     case find_idx (\<lambda>p. p_parent p = Some curp \<and> p_state p = ZOMBIE) tab of
       Some i \<Rightarrow>
         andthen (kfree (p_kstack (tab ! i)))
        (andthen (setp i (\<lambda>p. p\<lparr>p_kstack := 0\<rparr>))
        (andthen (freevm (p_pgdir (tab ! i)))
        (andthen (setp i (\<lambda>p. p\<lparr>p_pid := 0, p_parent := None, p_name := (p_name p)[0 := 0],
            p_killed := False, p_state := UNUSED\<rparr>))
        (andthen (unlock PtableLk)
         (return (Inr (p_pid (tab ! i))))))))
     | None \<Rightarrow>
         if \<not> (\<exists>p\<in>set tab. p_parent p = Some curp) \<or> p_killed (tab ! curp)
         then andthen (unlock PtableLk) (return (Inr (- 1)))
         else andthen (sleep (ChProc curp) (Some PtableLk)) (return (Inl ())))"

definition wait :: "('z procst_scheme, int) kop" where
  "wait = bind curproc (\<lambda>curp. andthen (lock PtableLk) (forever (\<lambda>_. wait_round curp) ()))"

section \<open>Growing a process\<close>

definition growproc :: "u32 \<Rightarrow> ('z procst_scheme, int) kop" where
  "growproc n = bind curproc (\<lambda>i. bind (getp i) (\<lambda>p.
     let sz = p_sz p; finish = (\<lambda>sz. andthen (setp i (\<lambda>p. p\<lparr>p_sz := sz\<rparr>))
         (andthen (switchuvm (Some i)) (return 0)))
     in
     if 0 <s n then bind (allocuvm (p_pgdir p) sz (sz + n)) (\<lambda>sz'. if sz' = 0 then return (- 1) else finish sz')
     else if n <s 0 then bind (deallocuvm (p_pgdir p) sz (sz + n)) (\<lambda>sz'. if sz' = 0 then return (- 1) else finish sz')
     else finish sz))"

section \<open>The scheduler\<close>

text \<open>
  A pass of the scheduler's loop over the table. The pass gives the list of the processes
  it has switched to, in order.
\<close>

fun scheduler_pass :: "nat list \<Rightarrow> ('z procst_scheme, nat list) kop" where
  "scheduler_pass [] = return []"
| "scheduler_pass (i # is) = bind (getp i) (\<lambda>p.
     if p_state p \<noteq> RUNNABLE then scheduler_pass is
     else
       andthen (modify (\<lambda>s. s\<lparr>cur := Some i\<rparr>))
      (andthen (switchuvm (Some i))
      (andthen (setp i (\<lambda>p. p\<lparr>p_state := RUNNING\<rparr>))
      (andthen yield_cpu
      (andthen switchkvm
      (andthen (modify (\<lambda>s. s\<lparr>cur := None\<rparr>))
       (bind (scheduler_pass is) (\<lambda>ran. return (i # ran)))))))))"

text \<open>One iteration of the endless loop of \<open>scheduler\<close>.\<close>

definition scheduler_round :: "('z procst_scheme, nat list) kop" where
  "scheduler_round =
     andthen (lock PtableLk)
    (bind (scheduler_pass [0..<NPROC]) (\<lambda>ran.
     andthen (unlock PtableLk) (return ran)))"

section \<open>Listings\<close>

definition state_text :: "procstate \<Rightarrow> string" where
  "state_text st = (case st of UNUSED \<Rightarrow> ''unused'' | EMBRYO \<Rightarrow> ''embryo'' | SLEEPING \<Rightarrow> ''sleep ''
     | RUNNABLE \<Rightarrow> ''runble'' | RUNNING \<Rightarrow> ''run   '' | ZOMBIE \<Rightarrow> ''zombie'')"

text \<open>A character array given to \<open>cprintf\<close>, and a string constant.\<close>

abbreviation arg_chars :: "u8 list \<Rightarrow> fmtarg" where "arg_chars bs \<equiv> AStr (Some bs)"
abbreviation arg_lit :: "string \<Rightarrow> fmtarg" where "arg_lit t \<equiv> AStr (Some (map of_char t @ [0]))"

definition ps :: "('z procst_scheme, int) kop" where
  "ps = bind (gets ptable) (\<lambda>tab.
     andthen (forM tab (\<lambda>p. whenM (p_state p \<noteq> UNUSED)
       (cprintf ''pid:%d name:%s \<newline>'' [AInt (of_int (p_pid p)), arg_chars (p_name p)])))
     (return 0))"

definition halt :: "('z procst_scheme, unit) kop" where
  "halt = cprintf ''in halt functions: '' []"

section \<open>Rules for the table\<close>

lemma wp_getp [wp_rules]:
  "wp (getp i) Q = (\<lambda>s e. i < length (ptable s) \<and> Q (ptable s ! i) s e)"
  "wlp (getp i) Q = (\<lambda>s e. i < length (ptable s) \<and> Q (ptable s ! i) s e)"
  by (simp_all add: fun_eq_iff getp_def wp_rules)

lemma pwp_getp [pwp_rules]:
  "pwp (getp i) Q = (\<lambda>s e. i < length (ptable s) \<longrightarrow> Q (ptable s ! i) s e)"
  by (simp add: fun_eq_iff getp_def pwp_rules)

lemma wp_setp [wp_rules]:
  "wp (setp i f) Q = (\<lambda>s. Q () (s\<lparr>ptable := (ptable s)[i := f (ptable s ! i)]\<rparr>))"
  "wlp (setp i f) Q = (\<lambda>s. Q () (s\<lparr>ptable := (ptable s)[i := f (ptable s ! i)]\<rparr>))"
  by (simp_all add: setp_def wp_rules)

lemma pwp_setp [pwp_rules]:
  "pwp (setp i f) Q = (\<lambda>s. Q () (s\<lparr>ptable := (ptable s)[i := f (ptable s ! i)]\<rparr>))"
  by (simp add: setp_def pwp_rules)

lemma wp_myproc [wp_rules]:
  "wp myproc Q = (\<lambda>s. Q (cur s) s)" "wlp myproc Q = (\<lambda>s. Q (cur s) s)"
  by (simp_all add: myproc_def wp_rules)

lemma pwp_myproc [pwp_rules]: "pwp myproc Q = (\<lambda>s. Q (cur s) s)"
  by (simp add: myproc_def pwp_rules)

lemma wp_curproc [wp_rules]:
  "wp curproc Q s e = (case cur s of None \<Rightarrow> False | Some i \<Rightarrow> Q i s e)"
  "wlp curproc Q s e = (case cur s of None \<Rightarrow> False | Some i \<Rightarrow> Q i s e)"
  by (simp_all add: curproc_def wp_rules split: option.split)

lemma pwp_curproc [pwp_rules]:
  "pwp curproc Q s e = (case cur s of None \<Rightarrow> True | Some i \<Rightarrow> Q i s e)"
  by (simp add: curproc_def pwp_rules split: option.split)

lemma wp_wakeup1 [wp_rules]:
  "wp (wakeup1 c) Q = (\<lambda>s. Q () (s\<lparr>ptable := map (wake c) (ptable s)\<rparr>))"
  "wlp (wakeup1 c) Q = (\<lambda>s. Q () (s\<lparr>ptable := map (wake c) (ptable s)\<rparr>))"
  by (simp_all add: wakeup1_def wp_rules)

lemma pwp_wakeup1 [pwp_rules]:
  "pwp (wakeup1 c) Q = (\<lambda>s. Q () (s\<lparr>ptable := map (wake c) (ptable s)\<rparr>))"
  by (simp add: wakeup1_def pwp_rules)

lemma wp_wakeup [wp_rules]:
  assumes "PtableLk \<notin> set (held s)"
  shows "wp (wakeup c) Q s e = Q () (s\<lparr>ptable := map (wake c) (ptable s)\<rparr>) e"
    and "wlp (wakeup c) Q s e = Q () (s\<lparr>ptable := map (wake c) (ptable s)\<rparr>) e"
  using assms by (simp_all add: wakeup_def wp_rules)

lemma pwp_wakeup [pwp_rules]:
  "pwp (wakeup c) Q s e = (PtableLk \<notin> set (held s) \<longrightarrow> Q () (s\<lparr>ptable := map (wake c) (ptable s)\<rparr>) e)"
  by (simp add: wakeup_def pwp_rules)

lemma pwp_sched [pwp_rules]:
  "pwp sched Q s e = (case cur s of None \<Rightarrow> True | Some i \<Rightarrow>
     i < length (ptable s) \<longrightarrow> held s = [PtableLk] \<longrightarrow> p_state (ptable s ! i) \<noteq> RUNNING \<longrightarrow>
     (case e of [] \<Rightarrow> True | f # d \<Rightarrow> Q () (f s\<lparr>cpu_intena := cpu_intena s\<rparr>) d))"
  by (auto simp: sched_def pwp_rules length_Suc_conv split: option.split list.split)

lemma wlp_sched [wp_rules]:
  "wlp sched Q s e = (case cur s of None \<Rightarrow> False | Some i \<Rightarrow>
     i < length (ptable s) \<and> held s = [PtableLk] \<and> p_state (ptable s ! i) \<noteq> RUNNING \<and>
     (case e of [] \<Rightarrow> True | f # d \<Rightarrow> Q () (f s\<lparr>cpu_intena := cpu_intena s\<rparr>) d))"
  by (auto simp: sched_def wp_rules length_Suc_conv split: option.split list.split)

lemma wp_sched [wp_rules]:
  "wp sched Q s e = (case cur s of None \<Rightarrow> False | Some i \<Rightarrow>
     i < length (ptable s) \<and> held s = [PtableLk] \<and> p_state (ptable s ! i) \<noteq> RUNNING \<and>
     (case e of [] \<Rightarrow> False | f # d \<Rightarrow> Q () (f s\<lparr>cpu_intena := cpu_intena s\<rparr>) d))"
  by (auto simp: sched_def wp_rules length_Suc_conv split: option.split list.split)

lemma vm_blind_proc [simp]:
  "vm_blind ptable" "vm_blind nextpid" "vm_blind cur" "vm_blind initproc" "vm_blind (\<lambda>s. (ptable s, nextpid s))"
  by (simp_all add: vm_blind_def)

section \<open>Process identifiers\<close>

text \<open>
  The invariant of the table: it has \<open>NPROC\<close> entries, the identifiers are below the next one to be given and
  those of the processes in use are positive; no two entries have the same identifier unless it is 0.
\<close>

definition pids_ok :: "proc list \<Rightarrow> int \<Rightarrow> bool" where
  "pids_ok tab n \<longleftrightarrow> length tab = NPROC \<and> 0 < n \<and>
     (\<forall>i<NPROC. 0 \<le> p_pid (tab ! i) \<and> p_pid (tab ! i) < n \<and> (p_state (tab ! i) \<noteq> UNUSED \<longrightarrow> 0 < p_pid (tab ! i))) \<and>
     (\<forall>i<NPROC. \<forall>j<NPROC. p_pid (tab ! i) = p_pid (tab ! j) \<longrightarrow> p_pid (tab ! i) \<noteq> 0 \<longrightarrow> i = j)"

lemma pids_ok_new:
  assumes "pids_ok tab n" and "i < NPROC" and "p_pid p = n"
  shows "pids_ok (tab[i := p]) (n + 1)"
proof -
  have "0 \<le> p_pid (tab ! j) \<and> p_pid (tab ! j) < n" if "j < NPROC" for j using assms(1) that by (simp add: pids_ok_def)
  then show ?thesis using assms unfolding pids_ok_def by (auto simp: nth_list_update_if)
qed

lemma pids_ok_update:
  assumes "pids_ok tab n"
    and "i < NPROC \<Longrightarrow> p_pid p = 0 \<or> p_pid p = p_pid (tab ! i)"
    and "i < NPROC \<Longrightarrow> p_state p \<noteq> UNUSED \<Longrightarrow> p_state (tab ! i) \<noteq> UNUSED \<and> p_pid p = p_pid (tab ! i)"
  shows "pids_ok (tab[i := p]) n"
proof (cases "i < NPROC")
  case True
  have "0 < p_pid (tab ! i)" if "p_state (tab ! i) \<noteq> UNUSED" using assms(1) that True by (simp add: pids_ok_def)
  then show ?thesis using assms True unfolding pids_ok_def by (auto simp: nth_list_update_if)
next
  case False
  then show ?thesis using assms by (simp add: pids_ok_def list_update_beyond)
qed

lemma pids_ok_map:
  assumes "pids_ok tab n" and "\<And>p. p_state (f p) = UNUSED \<longleftrightarrow> p_state p = UNUSED" and "\<And>p. p_pid (f p) = p_pid p"
  shows "pids_ok (map f tab) n"
  using assms unfolding pids_ok_def by (auto simp: nth_map)

lemma wake_fields [simp]:
  "p_pid (wake c p) = p_pid p" "p_state (wake c p) = UNUSED \<longleftrightarrow> p_state p = UNUSED"
  "p_parent (wake c p) = p_parent p" "p_kstack (wake c p) = p_kstack p" "p_pgdir (wake c p) = p_pgdir p"
  "p_killed (wake c p) = p_killed p" "p_chan (wake c p) = p_chan p"
  by (simp_all add: wake_def)

text \<open>The table together with the process that runs: it is in use and has not exited.\<close>

definition proc_inv :: "'z procst_scheme \<Rightarrow> bool" where
  "proc_inv s \<longleftrightarrow> pids_ok (ptable s) (nextpid s) \<and>
     (\<forall>i. cur s = Some i \<longrightarrow> i < NPROC \<and> p_state (ptable s ! i) \<notin> {UNUSED, ZOMBIE})"

definition tabs :: "'z procst_scheme \<Rightarrow> proc list \<times> int \<times> nat option" where
  "tabs s = (ptable s, nextpid s, cur s)"

lemma vm_blind_tabs [simp]: "vm_blind tabs"
  by (simp add: vm_blind_def tabs_def)

lemma proc_inv_tabs: "tabs s = tabs t \<Longrightarrow> proc_inv s = proc_inv t"
  by (simp add: tabs_def proc_inv_def)

lemma preserves_tabs: "frame tabs m \<Longrightarrow> preserves proc_inv m"
  by (rule preserves_frame, assumption, rule proc_inv_tabs)

lemma proc_inv_lock [preserves_intros]: "preserves proc_inv (lock lk)" "preserves proc_inv (unlock lk)"
  by (rule preserves_tabs, rule frame_intros, simp add: tabs_def)+

lemma proc_inv_vm [preserves_intros]:
  "preserves proc_inv kalloc" "preserves proc_inv (kfree v)" "preserves proc_inv (freevm p)"
  "preserves proc_inv (allocuvm p a b)" "preserves proc_inv (deallocuvm p a b)"
  "preserves proc_inv (write32 a w)" "preserves proc_inv (setmem a w n)"
  "preserves proc_inv (copyuvm p a)" "preserves proc_inv setupkvm"
  by (rule preserves_tabs, rule frame_intros, simp)+

lemma proc_inv_length: "proc_inv s \<Longrightarrow> length (ptable s) = NPROC"
  by (simp add: proc_inv_def pids_ok_def)

text \<open>A change of an entry that neither revives a free entry nor changes an identifier.\<close>

lemma proc_inv_update:
  assumes s: "proc_inv s" and p: "p_pid p = p_pid (ptable s ! i)"
    and r: "i < NPROC \<Longrightarrow> p_state p \<noteq> UNUSED \<Longrightarrow> p_state (ptable s ! i) \<noteq> UNUSED"
    and c: "cur s = Some i \<Longrightarrow> p_state p \<notin> {UNUSED, ZOMBIE}"
  shows "proc_inv (s\<lparr>ptable := (ptable s)[i := p]\<rparr>)"
proof -
  have "pids_ok ((ptable s)[i := p]) (nextpid s)"
    using s p r by (intro pids_ok_update) (simp_all add: proc_inv_def)
  moreover have "j < NPROC \<and> p_state ((ptable s)[i := p] ! j) \<notin> {UNUSED, ZOMBIE}" if "cur s = Some j" for j
  proof (cases "j = i")
    case True
    then show ?thesis using s c that by (simp add: proc_inv_def proc_inv_length [OF s])
  next
    case False
    then show ?thesis using s that by (simp add: proc_inv_def)
  qed
  ultimately show ?thesis by (simp add: proc_inv_def)
qed

lemma proc_inv_setp [preserves_intros]:
  assumes "\<And>p. p_pid (f p) = p_pid p" and "\<And>p. p_state (f p) = p_state p"
  shows "preserves proc_inv (setp i f)"
  unfolding setp_def
proof (rule preserves_modify)
  fix s assume s: "proc_inv s"
  show "proc_inv (s\<lparr>ptable := (ptable s)[i := f (ptable s ! i)]\<rparr>)"
    by (rule proc_inv_update [OF s]) (use s in \<open>simp_all add: assms proc_inv_def\<close>)
qed

lemma proc_inv_map:
  assumes s: "proc_inv s" and "\<And>p. p_pid (f p) = p_pid p"
    and "\<And>p. p_state (f p) = UNUSED \<longleftrightarrow> p_state p = UNUSED" and "\<And>p. p_state (f p) = ZOMBIE \<longleftrightarrow> p_state p = ZOMBIE"
  shows "proc_inv (s\<lparr>ptable := map f (ptable s)\<rparr>)"
  using pids_ok_map [of "ptable s" "nextpid s" f] assms proc_inv_length [OF s] by (simp add: proc_inv_def)

lemma proc_inv_held [simp]:
  "proc_inv (s\<lparr>held := h\<rparr>) = proc_inv s"
  "proc_inv (s\<lparr>held := h, ptable := tab\<rparr>) = proc_inv (s\<lparr>ptable := tab\<rparr>)"
  by (simp_all add: proc_inv_def)

lemma proc_inv_getp [preserves_intros]: "preserves proc_inv (getp i)"
  unfolding getp_def by (intro preserves_intros)

lemma proc_inv_curproc [preserves_intros]: "preserves proc_inv curproc" "preserves proc_inv myproc"
  by (simp_all add: preserves_def pwp_rules split: option.split)

lemma proc_inv_sched [preserves_intros]: "preserves proc_inv sched"
  unfolding sched_def by (intro preserves_intros) (simp add: proc_inv_def)

lemma proc_inv_wakeup [preserves_intros]: "preserves proc_inv (wakeup1 c)" "preserves proc_inv (wakeup c)"
proof -
  show "preserves proc_inv (wakeup1 c)" for c
    unfolding wakeup1_def by (rule preserves_modify, rule proc_inv_map) (simp_all add: wake_def)
  then show "preserves proc_inv (wakeup c)" unfolding wakeup_def by (intro preserves_intros)
qed

text \<open>The running process changes its own state and gives up the processor.\<close>

lemma proc_inv_cur:
  assumes s: "proc_inv s" "stable_tape proc_inv e" and i: "cur s = Some i"
    and f: "p_pid (f (ptable s ! i)) = p_pid (ptable s ! i)" "p_state (f (ptable s ! i)) \<notin> {UNUSED, ZOMBIE}"
    and m: "preserves proc_inv m"
  shows "pwp (andthen (setp i f) m) (\<lambda>_ t d. proc_inv t \<and> stable_tape proc_inv d) s e"
proof -
  have "proc_inv (s\<lparr>ptable := (ptable s)[i := f (ptable s ! i)]\<rparr>)"
    by (rule proc_inv_update [OF s(1) f(1)]) (use s(1) i f in \<open>simp_all add: proc_inv_def\<close>)
  then show ?thesis using preservesD [OF m _ s(2)] by (simp add: pwp_andthen pwp_setp)
qed

lemma yield_keeps:
  assumes "proc_inv s" "stable_tape proc_inv e"
  shows "pwp yield (\<lambda>_ t d. proc_inv t \<and> stable_tape proc_inv d) s e"
proof (cases "cur s")
  case None
  then show ?thesis by (simp add: yield_def pwp_andthen pwp_lock pwp_bind pwp_curproc)
next
  case (Some i)
  have "pwp (andthen (setp i (\<lambda>p. p\<lparr>p_state := RUNNABLE\<rparr>)) (andthen sched (unlock PtableLk)))
      (\<lambda>_ t d. proc_inv t \<and> stable_tape proc_inv d) (s\<lparr>held := PtableLk # held s\<rparr>) e"
    by (rule proc_inv_cur) (use assms Some in \<open>auto intro!: preserves_intros\<close>)
  then show ?thesis using Some unfolding yield_def
    by (simp add: pwp_andthen [of "lock _"] pwp_lock pwp_bind pwp_curproc)
qed

lemma sleep_keeps:
  assumes "proc_inv s" "stable_tape proc_inv e"
  shows "pwp (sleep c (Some lk)) (\<lambda>_ t d. proc_inv t \<and> stable_tape proc_inv d) s e"
proof (cases "cur s")
  case None
  then show ?thesis by (simp add: sleep_def pwp_bind pwp_myproc pwp_basic)
next
  case (Some i)
  let ?rest = "andthen sched (andthen (setp i (\<lambda>q. q\<lparr>p_chan := ChNull\<rparr>))
      (whenM (lk \<noteq> PtableLk) (andthen (unlock PtableLk) (lock lk))))"
  have rest: "preserves proc_inv ?rest" by (intro preserves_intros) simp_all
  have go: "pwp (andthen (setp i (\<lambda>q. q\<lparr>p_chan := c, p_state := SLEEPING\<rparr>)) ?rest)
      (\<lambda>_ t d. proc_inv t \<and> stable_tape proc_inv d) (s\<lparr>held := h\<rparr>) e" for h
    by (rule proc_inv_cur [OF _ _ _ _ _ rest]) (use assms Some in auto)
  show ?thesis using Some go [of "remove1 lk (PtableLk # held s)"] go [of "held s"]
    by (cases "lk = PtableLk")
      (simp_all add: sleep_def pwp_bind pwp_myproc pwp_andthen [of "whenM _ _"] pwp_when pwp_andthen [of "lock _"] pwp_lock pwp_unlock)
qed

lemma proc_inv_sleep [preserves_intros]: "preserves proc_inv (sleep c (Some lk))" "preserves proc_inv yield"
  by (rule preservesI, rule sleep_keeps, assumption+) (rule preservesI, rule yield_keeps)

lemma kill_keeps:
  assumes s: "proc_inv s" "stable_tape proc_inv e"
  shows "pwp (kill pid) (\<lambda>_ t d. proc_inv t \<and> stable_tape proc_inv d) s e"
proof (cases "find_idx (\<lambda>p. p_pid p = pid) (ptable s)")
    case None
    then show ?thesis using s by (simp add: kill_def pwp_rules del: find_idx_None)
  next
    case (Some i)
    let ?p = "(ptable s ! i)\<lparr>p_killed := True\<rparr>"
    let ?q = "?p\<lparr>p_state := RUNNABLE\<rparr>"
    have i: "i < length (ptable s)" using find_idx_SomeD [OF Some] by simp
    have "proc_inv (s\<lparr>ptable := (ptable s)[i := ?p]\<rparr>)"
      by (rule proc_inv_update [OF s(1)]) (use s(1) in \<open>simp_all add: proc_inv_def\<close>)
    moreover have "proc_inv (s\<lparr>ptable := (ptable s)[i := ?q]\<rparr>)" if "p_state (ptable s ! i) = SLEEPING"
      by (rule proc_inv_update [OF s(1)]) (simp_all add: that)
    ultimately show ?thesis using s(2) i Some by (simp add: kill_def pwp_rules del: find_idx_None)
qed

lemma allocproc_keeps:
  fixes s :: "'z procst_scheme"
  assumes s: "proc_inv s" "stable_tape proc_inv e"
  shows "pwp allocproc (\<lambda>_ t d. proc_inv t \<and> stable_tape proc_inv d) s e"
proof (cases "find_idx (\<lambda>p. p_state p = UNUSED) (ptable s)")
  case None
  then show ?thesis using s by (simp add: allocproc_def pwp_rules del: find_idx_None)
next
  case (Some i)
  define p where "p = (ptable s ! i)\<lparr>p_state := EMBRYO, p_pid := nextpid s, p_container_id := - 1\<rparr>"
  define t where "t = s\<lparr>ptable := (ptable s)[i := p], nextpid := nextpid s + 1\<rparr>"
  have i: "i < NPROC" "p_state (ptable s ! i) = UNUSED"
    using find_idx_SomeD [OF Some] proc_inv_length [OF s(1)] by simp_all
  have nc: "cur s \<noteq> Some i" using s(1) i(2) by (auto simp: proc_inv_def)
  have "pids_ok ((ptable s)[i := p]) (nextpid s + 1)"
    by (rule pids_ok_new [OF _ i(1)]) (use s(1) in \<open>simp_all add: proc_inv_def p_def\<close>)
  then have t: "proc_inv t" using s(1) nc by (auto simp: proc_inv_def t_def nth_list_update_neq)
  have fail: "proc_inv (u\<lparr>ptable := (ptable u)[i := (ptable u ! i)\<lparr>p_kstack := 0, p_state := UNUSED\<rparr>]\<rparr>)"
    if "tabs u = tabs t" for u
    by (rule proc_inv_update) (use that t nc in \<open>auto simp: proc_inv_tabs [OF that] tabs_def t_def\<close>)
  let ?Q = "\<lambda>_ t d. proc_inv t \<and> stable_tape proc_inv d"
  let ?rest = "\<lambda>ks. if ks = 0 then andthen (setp i (\<lambda>p. p\<lparr>p_kstack := 0, p_state := UNUSED\<rparr>)) (return None)
         else
           let tf = ks + KSTACKSIZE - TF_SIZE; sp = tf - 4; ctx = sp - CTX_SIZE in
           andthen (setp i (\<lambda>p. p\<lparr>p_kstack := ks, p_tf := tf, p_context := ctx\<rparr>))
          (bind (gets sym_trapret) (\<lambda>trapret.
           bind (gets sym_forkret) (\<lambda>forkret.
           andthen (write32 sp trapret)
          (andthen (setmem ctx 0 CTX_SIZE)
          (andthen (write32 (ctx + CTX_EIP) forkret)
           (return (Some i)))))))"
  have ok: "preserves proc_inv (?rest ks)" if "ks \<noteq> 0" for ks
    using that unfolding Let_def by simp (intro preserves_intros; simp)
  have "pwp kalloc (\<lambda>ks. pwp (?rest ks) ?Q) t e"
  proof (rule pwp_frame [where F = tabs])
    show "frame tabs kalloc" by (rule frame_intros) simp
    fix ks and u :: "'z procst_scheme" assume u: "tabs u = tabs t"
    show "pwp (?rest ks) ?Q u e"
    proof (cases "ks = 0")
      case True
      then show ?thesis using fail [OF u] s(2) by (simp add: pwp_rules)
    next
      case False
      have "proc_inv u" using t proc_inv_tabs [OF u] by simp
      then show ?thesis by (rule preservesD [OF ok [OF False] _ s(2)])
    qed
  qed
  then show ?thesis using Some proc_inv_length [OF s(1)]
    by (simp add: allocproc_def pwp_bind pwp_andthen pwp_lock pwp_unlock pwp_basic pwp_setp p_def t_def)
qed

lemma proc_inv_alloc [preserves_intros]: "preserves proc_inv allocproc" "preserves proc_inv (kill pid)"
  by (rule preservesI, rule allocproc_keeps, assumption+) (rule preservesI, rule kill_keeps)

text \<open>A run of \<open>m\<close> that leaves the table alone, and then a continuation.\<close>

lemma pwp_tabs:
  assumes "frame tabs m" and "\<And>x u. tabs u = tabs s \<Longrightarrow> pwp (f x) Q u e"
  shows "pwp m (\<lambda>x. pwp (f x) Q) s e"
  by (rule pwp_frame [OF assms(1)]) (rule assms(2))

lemma wait_round_keeps:
  fixes s :: "'z procst_scheme"
  assumes s: "proc_inv s" "stable_tape proc_inv e"
  shows "pwp (wait_round c) (\<lambda>_ t d. proc_inv t \<and> stable_tape proc_inv d) s e"
proof (cases "find_idx (\<lambda>p. p_parent p = Some c \<and> p_state p = ZOMBIE) (ptable s)")
  case None
  have a: "preserves (proc_inv :: 'z procst_scheme \<Rightarrow> bool) (andthen (unlock PtableLk) (return (Inr (- 1) :: unit + int)))"
    and b: "preserves (proc_inv :: 'z procst_scheme \<Rightarrow> bool)
      (andthen (sleep (ChProc c) (Some PtableLk)) (return (Inl () :: unit + int)))"
    by (intro preserves_intros)+
  show ?thesis using None preservesD [OF a s] preservesD [OF b s]
    by (simp add: wait_round_def pwp_bind pwp_basic del: find_idx_None)
next
  case (Some i)
  have i: "i < NPROC" "p_state (ptable s ! i) = ZOMBIE"
    using find_idx_SomeD [OF Some] proc_inv_length [OF s(1)] by simp_all
  have nc: "cur s \<noteq> Some i" using s(1) i(2) by (auto simp: proc_inv_def)
  let ?Q = "\<lambda>_ t d. proc_inv t \<and> stable_tape proc_inv d"
  let ?f = "\<lambda>p. p\<lparr>p_pid := 0, p_parent := None, p_name := (p_name p)[0 := 0], p_killed := False, p_state := UNUSED\<rparr>"
  have last: "pwp (andthen (setp i ?f) (andthen (unlock PtableLk) (return r))) ?Q u e"
    if "proc_inv u" "cur u \<noteq> Some i" for u :: "'z procst_scheme" and r :: "unit + int"
  proof -
    have "pids_ok ((ptable u)[i := ?f (ptable u ! i)]) (nextpid u)"
      by (rule pids_ok_update) (use that in \<open>simp_all add: proc_inv_def\<close>)
    then have "proc_inv (u\<lparr>ptable := (ptable u)[i := ?f (ptable u ! i)]\<rparr>)"
      using that by (auto simp: proc_inv_def nth_list_update_neq)
    then show ?thesis using s(2) by (simp add: pwp_rules)
  qed
  have mid: "pwp (freevm pg) (\<lambda>_. pwp (andthen (setp i ?f) (andthen (unlock PtableLk) (return r))) ?Q) u e"
    if "proc_inv u" "cur u \<noteq> Some i" for u :: "'z procst_scheme" and r :: "unit + int" and pg
  proof (rule pwp_tabs)
    show "frame tabs (freevm pg :: ('z procst_scheme, unit) kop)" by (rule frame_intros) simp
    fix v :: "'z procst_scheme" assume v: "tabs v = tabs u"
    show "pwp (andthen (setp i ?f) (andthen (unlock PtableLk) (return r))) ?Q v e"
      by (rule last) (use that proc_inv_tabs [OF v] v in \<open>simp_all add: tabs_def\<close>)
  qed
  have "pwp (kfree (p_kstack (ptable s ! i))) (\<lambda>_. pwp (andthen (setp i (\<lambda>p. p\<lparr>p_kstack := 0\<rparr>))
      (andthen (freevm (p_pgdir (ptable s ! i))) (andthen (setp i ?f) (andthen (unlock PtableLk) (return r))))) ?Q) s e"
    for r :: "unit + int"
  proof (rule pwp_tabs)
    show "frame tabs (kfree (p_kstack (ptable s ! i)) :: ('z procst_scheme, unit) kop)" by (rule frame_intros) simp
    fix u :: "'z procst_scheme" assume u: "tabs u = tabs s"
    have "proc_inv (u\<lparr>ptable := (ptable u)[i := (ptable u ! i)\<lparr>p_kstack := 0\<rparr>]\<rparr>)"
      by (rule proc_inv_update) (use s(1) u i nc proc_inv_tabs [OF u] in \<open>simp_all add: tabs_def\<close>)
    then show "pwp (andthen (setp i (\<lambda>p. p\<lparr>p_kstack := 0\<rparr>))
      (andthen (freevm (p_pgdir (ptable s ! i))) (andthen (setp i ?f) (andthen (unlock PtableLk) (return r))))) ?Q u e"
      using mid [of "u\<lparr>ptable := (ptable u)[i := (ptable u ! i)\<lparr>p_kstack := 0\<rparr>]\<rparr>"] u nc
      by (simp add: pwp_andthen [of "setp _ _"] pwp_andthen [of "freevm _"] pwp_setp tabs_def)
  qed
  then show ?thesis using Some
    by (simp add: wait_round_def pwp_bind pwp_basic pwp_andthen [of "kfree _"])
qed

lemma proc_inv_wait [preserves_intros]: "preserves proc_inv wait"
  unfolding wait_def
  by (intro preserves_intros) (rule preservesI, rule wait_round_keeps)

lemma proc_inv_switch [preserves_intros]: "preserves proc_inv (switchuvm po)" "preserves proc_inv switchkvm"
  unfolding switchuvm_def switchkvm_def
  by (cases po; simp; intro preserves_intros; simp add: proc_inv_def)
    (intro preserves_intros; simp add: proc_inv_def)

lemma proc_inv_growproc [preserves_intros]: "preserves proc_inv (growproc n)"
  unfolding growproc_def Let_def by (intro preserves_intros) simp_all

lemma wp_switchuvm [wp_rules]:
  "wp (switchuvm (Some i)) Q s e = (i < length (ptable s) \<and> p_kstack (ptable s ! i) \<noteq> 0 \<and> p_pgdir (ptable s ! i) \<noteq> 0 \<and>
     Q () (s\<lparr>ts_esp0 := p_kstack (ptable s ! i) + KSTACKSIZE, cr3 := V2P (p_pgdir (ptable s ! i))\<rparr>) e)"
  by (simp add: switchuvm_def wp_rules)

lemma pwp_switchuvm [pwp_rules]:
  "pwp (switchuvm (Some i)) Q s e = (i < length (ptable s) \<longrightarrow> p_kstack (ptable s ! i) \<noteq> 0 \<longrightarrow>
     p_pgdir (ptable s ! i) \<noteq> 0 \<longrightarrow>
     Q () (s\<lparr>ts_esp0 := p_kstack (ptable s ! i) + KSTACKSIZE, cr3 := V2P (p_pgdir (ptable s ! i))\<rparr>) e)"
  by (simp add: switchuvm_def pwp_rules)


lemma scheduler_pass_keeps:
  fixes s :: "'z procst_scheme"
  assumes "proc_inv s" "stable_tape proc_inv e"
  shows "pwp (scheduler_pass is) (\<lambda>_ t d. proc_inv t \<and> stable_tape proc_inv d) s e"
  using assms
proof (induction "is" arbitrary: s e)
  case Nil
  then show ?case by (simp add: pwp_rules)
next
  case (Cons i js)
  let ?Q = "\<lambda>_ t d. proc_inv t \<and> stable_tape proc_inv d"
  let ?rest = "andthen yield_cpu (andthen switchkvm (andthen (modify (\<lambda>s. s\<lparr>cur := None\<rparr>))
       (bind (scheduler_pass js) (\<lambda>ran. return (i # ran)))))"
  have "preserves (proc_inv :: 'z procst_scheme \<Rightarrow> bool) (scheduler_pass js)" using Cons.IH by (intro preservesI)
  then have rest: "preserves (proc_inv :: 'z procst_scheme \<Rightarrow> bool) ?rest" by (intro preserves_intros) (simp_all add: proc_inv_def)
  show ?case
  proof (cases "i < length (ptable s) \<and> p_state (ptable s ! i) = RUNNABLE")
    case False
    then show ?thesis using Cons by (simp add: pwp_bind pwp_getp)
  next
    case True
    let ?u = "s\<lparr>cur := Some i, ts_esp0 := p_kstack (ptable s ! i) + KSTACKSIZE, cr3 := V2P (p_pgdir (ptable s ! i))\<rparr>"
    have "proc_inv ?u" using Cons.prems(1) True proc_inv_length [of s] by (simp add: proc_inv_def)
    then have "pwp (andthen (setp i (\<lambda>p. p\<lparr>p_state := RUNNING\<rparr>)) ?rest) ?Q ?u e"
      by (rule proc_inv_cur) (use Cons.prems(2) rest in simp_all)
    then show ?thesis using True
      by (simp add: pwp_bind pwp_getp pwp_andthen [of "modify _"] pwp_andthen [of "switchuvm _"] pwp_switchuvm pwp_basic)
  qed
qed

lemma proc_inv_scheduler [preserves_intros]: "preserves proc_inv scheduler_round"
  unfolding scheduler_round_def
  by (intro preserves_intros) (rule preservesI, rule scheduler_pass_keeps)

section \<open>Round robin\<close>

text \<open>The scheduler can switch to every process that is ready.\<close>

definition sched_ok :: "'z procst_scheme \<Rightarrow> bool" where
  "sched_ok s \<longleftrightarrow> held s = [PtableLk] \<and> length (ptable s) = NPROC \<and>
     (\<forall>p\<in>set (ptable s). p_state p = RUNNABLE \<longrightarrow> p_kstack p \<noteq> 0 \<and> p_pgdir p \<noteq> 0)"

text \<open>
  The runs of the other processes: they come back with the table's lock held and the table in order, and a process that is ready and
  not running stays ready.
\<close>

definition fair_runs :: "nat \<Rightarrow> ('z procst_scheme \<Rightarrow> 'z procst_scheme) list \<Rightarrow> bool" where
  "fair_runs i e \<longleftrightarrow> (\<forall>f\<in>set e. \<forall>s. sched_ok s \<longrightarrow> sched_ok (f s) \<and>
     (cur s \<noteq> Some i \<longrightarrow> p_state (ptable s ! i) = RUNNABLE \<longrightarrow> p_state (ptable (f s) ! i) = RUNNABLE))"

lemma sched_ok_run:
  assumes "sched_ok s" and "j < NPROC"
  shows "sched_ok (s\<lparr>cur := c, ts_esp0 := a, cr3 := b, ptable := (ptable s)[j := (ptable s ! j)\<lparr>p_state := RUNNING\<rparr>]\<rparr>)"
  using assms unfolding sched_ok_def by (auto dest!: set_update_subset_insert [THEN subsetD])

lemma scheduler_pass_runs:
  assumes "sched_ok s" and "fair_runs i e" and "length js \<le> length e" and "\<forall>j\<in>set js. j < NPROC" and "distinct js"
  shows "wp (scheduler_pass js) (\<lambda>ran t d. sched_ok t \<and>
    (i \<in> set js \<longrightarrow> p_state (ptable s ! i) = RUNNABLE \<longrightarrow> i \<in> set ran)) s e"
  using assms
proof (induction js arbitrary: s e)
  case Nil
  then show ?case by (simp add: wp_rules)
next
  case (Cons j js)
  have j: "j < length (ptable s)" using Cons.prems by (simp add: sched_ok_def)
  show ?case
  proof (cases "p_state (ptable s ! j) = RUNNABLE")
    case False
    have "wp (scheduler_pass js) (\<lambda>ran t d. sched_ok t \<and>
        (i \<in> set js \<longrightarrow> p_state (ptable s ! i) = RUNNABLE \<longrightarrow> i \<in> set ran)) s e"
      using Cons.prems by (intro Cons.IH) auto
    then have "wp (scheduler_pass js) (\<lambda>ran t d. sched_ok t \<and>
        (i \<in> set (j # js) \<longrightarrow> p_state (ptable s ! i) = RUNNABLE \<longrightarrow> i \<in> set ran)) s e"
      by (rule wp_mono) (use False in auto)
    then show ?thesis using False j by (simp add: wp_bind wp_getp)
  next
    case True
    have ks: "p_kstack (ptable s ! j) \<noteq> 0" "p_pgdir (ptable s ! j) \<noteq> 0"
      using Cons.prems(1) True j by (auto simp: sched_ok_def)
    obtain f d where e: "e = f # d" using Cons.prems(3) by (cases e) auto
    let ?u = "s\<lparr>cur := Some j, ts_esp0 := p_kstack (ptable s ! j) + KSTACKSIZE, cr3 := V2P (p_pgdir (ptable s ! j)),
      ptable := (ptable s)[j := (ptable s ! j)\<lparr>p_state := RUNNING\<rparr>]\<rparr>"
    let ?v = "f ?u\<lparr>cr3 := V2P (kpgdir (f ?u)), cur := None\<rparr>"
    have u: "sched_ok ?u" using sched_ok_run [OF Cons.prems(1)] Cons.prems(4) by simp
    then have fu: "sched_ok (f ?u)" and keep: "cur ?u \<noteq> Some i \<Longrightarrow> p_state (ptable ?u ! i) = RUNNABLE \<Longrightarrow>
        p_state (ptable (f ?u) ! i) = RUNNABLE"
      using Cons.prems(2) by (auto simp: fair_runs_def e)
    have v: "sched_ok ?v" using fu by (simp add: sched_ok_def)
    have "wp (scheduler_pass js) (\<lambda>ran t d. sched_ok t \<and>
        (i \<in> set js \<longrightarrow> p_state (ptable ?v ! i) = RUNNABLE \<longrightarrow> i \<in> set ran)) ?v d"
      using Cons.prems v by (intro Cons.IH) (auto simp: e fair_runs_def)
    then have "wp (bind (scheduler_pass js) (\<lambda>ran. return (j # ran))) (\<lambda>ran t d. sched_ok t \<and>
        (i \<in> set (j # js) \<longrightarrow> p_state (ptable s ! i) = RUNNABLE \<longrightarrow> i \<in> set ran)) ?v d"
      unfolding wp_bind wp_return by (rule wp_mono) (use keep in auto)
    then show ?thesis using True j ks
      by (simp add: wp_bind wp_getp wp_andthen wp_switchuvm wp_return wp_modify wp_setp wp_yield e switchkvm_def)
  qed
qed

section \<open>Sleep and wakeup between two processors\<close>

text \<open>
  A process that waits for a condition and a process that makes it true, interleaved step by step. The sleeper runs
  \<open>acquire(lk); while(!cond) sleep(chan, lk); release(lk)\<close> and the waker
  \<open>acquire(lk); cond = 1; wakeup(chan); release(lk)\<close>; the steps inside are those of \<open>sleep\<close>, \<open>sched\<close>, the scheduler's
  resumption and \<open>wakeup\<close>. A lock is the number of the process that holds it.
\<close>

datatype sleeper_pc = SAcquire | STest | SLockTable | SUnlock | SMark | SSwitch | SAway | SBack | SRelock | SDone
datatype waker_pc = WAcquire | WSet | WLockTable | WWake | WUnlockTable | WUnlock | WDone

record swm =
  sw_cond :: bool
  sw_lk :: "nat option"
  sw_pt :: "nat option"
  sw_state :: procstate
  sw_s :: sleeper_pc
  sw_w :: waker_pc

definition sw_init :: "swm \<Rightarrow> bool" where
  "sw_init s \<longleftrightarrow> s = \<lparr>sw_cond = False, sw_lk = None, sw_pt = None, sw_state = RUNNING, sw_s = SAcquire, sw_w = WAcquire\<rparr>"

inductive sw_step :: "swm \<Rightarrow> swm \<Rightarrow> bool" where
  s_acquire: "sw_s s = SAcquire \<Longrightarrow> sw_lk s = None \<Longrightarrow> sw_step s (s\<lparr>sw_lk := Some 0, sw_s := STest\<rparr>)"
| s_leave: "sw_s s = STest \<Longrightarrow> sw_cond s \<Longrightarrow> sw_step s (s\<lparr>sw_lk := None, sw_s := SDone\<rparr>)"
| s_sleep: "sw_s s = STest \<Longrightarrow> \<not> sw_cond s \<Longrightarrow> sw_step s (s\<lparr>sw_s := SLockTable\<rparr>)"
| s_lock_table: "sw_s s = SLockTable \<Longrightarrow> sw_pt s = None \<Longrightarrow> sw_step s (s\<lparr>sw_pt := Some 0, sw_s := SUnlock\<rparr>)"
| s_unlock: "sw_s s = SUnlock \<Longrightarrow> sw_step s (s\<lparr>sw_lk := None, sw_s := SMark\<rparr>)"
| s_mark: "sw_s s = SMark \<Longrightarrow> sw_step s (s\<lparr>sw_state := SLEEPING, sw_s := SSwitch\<rparr>)"
| s_switch: "sw_s s = SSwitch \<Longrightarrow> sw_step s (s\<lparr>sw_pt := None, sw_s := SAway\<rparr>)"
| s_resume: "sw_s s = SAway \<Longrightarrow> sw_state s = RUNNABLE \<Longrightarrow> sw_pt s = None \<Longrightarrow>
    sw_step s (s\<lparr>sw_state := RUNNING, sw_pt := Some 0, sw_s := SBack\<rparr>)"
| s_unlock_table: "sw_s s = SBack \<Longrightarrow> sw_step s (s\<lparr>sw_pt := None, sw_s := SRelock\<rparr>)"
| s_relock: "sw_s s = SRelock \<Longrightarrow> sw_lk s = None \<Longrightarrow> sw_step s (s\<lparr>sw_lk := Some 0, sw_s := STest\<rparr>)"
| w_acquire: "sw_w s = WAcquire \<Longrightarrow> sw_lk s = None \<Longrightarrow> sw_step s (s\<lparr>sw_lk := Some 1, sw_w := WSet\<rparr>)"
| w_set: "sw_w s = WSet \<Longrightarrow> sw_step s (s\<lparr>sw_cond := True, sw_w := WLockTable\<rparr>)"
| w_lock_table: "sw_w s = WLockTable \<Longrightarrow> sw_pt s = None \<Longrightarrow> sw_step s (s\<lparr>sw_pt := Some 1, sw_w := WWake\<rparr>)"
| w_wake: "sw_w s = WWake \<Longrightarrow>
    sw_step s (s\<lparr>sw_state := if sw_state s = SLEEPING then RUNNABLE else sw_state s, sw_w := WUnlockTable\<rparr>)"
| w_unlock_table: "sw_w s = WUnlockTable \<Longrightarrow> sw_step s (s\<lparr>sw_pt := None, sw_w := WUnlock\<rparr>)"
| w_unlock: "sw_w s = WUnlock \<Longrightarrow> sw_step s (s\<lparr>sw_lk := None, sw_w := WDone\<rparr>)"

text \<open>Where each of them holds the two locks; where the sleeper is on its way to sleep; where the waker has woken it.\<close>

definition s_lk :: "sleeper_pc \<Rightarrow> bool" where "s_lk pc \<longleftrightarrow> pc \<in> {STest, SLockTable, SUnlock}"
definition s_pt :: "sleeper_pc \<Rightarrow> bool" where "s_pt pc \<longleftrightarrow> pc \<in> {SUnlock, SMark, SSwitch, SBack}"
definition s_going :: "sleeper_pc \<Rightarrow> bool" where "s_going pc \<longleftrightarrow> pc \<in> {SLockTable, SUnlock, SMark, SSwitch}"
definition w_lk :: "waker_pc \<Rightarrow> bool" where "w_lk pc \<longleftrightarrow> pc \<notin> {WAcquire, WDone}"
definition w_pt :: "waker_pc \<Rightarrow> bool" where "w_pt pc \<longleftrightarrow> pc \<in> {WWake, WUnlockTable}"
definition w_set :: "waker_pc \<Rightarrow> bool" where "w_set pc \<longleftrightarrow> pc \<notin> {WAcquire, WSet}"
definition w_woken :: "waker_pc \<Rightarrow> bool" where "w_woken pc \<longleftrightarrow> pc \<in> {WUnlockTable, WUnlock, WDone}"

lemma sw_pcs [simp]:
  "\<not> s_lk SAcquire" "s_lk STest" "s_lk SLockTable" "s_lk SUnlock" "\<not> s_lk SMark" "\<not> s_lk SSwitch" "\<not> s_lk SAway"
  "\<not> s_lk SBack" "\<not> s_lk SRelock" "\<not> s_lk SDone"
  "\<not> s_pt SAcquire" "\<not> s_pt STest" "\<not> s_pt SLockTable" "s_pt SUnlock" "s_pt SMark" "s_pt SSwitch" "\<not> s_pt SAway"
  "s_pt SBack" "\<not> s_pt SRelock" "\<not> s_pt SDone"
  "\<not> s_going SAcquire" "\<not> s_going STest" "s_going SLockTable" "s_going SUnlock" "s_going SMark" "s_going SSwitch"
  "\<not> s_going SAway" "\<not> s_going SBack" "\<not> s_going SRelock" "\<not> s_going SDone"
  "\<not> w_lk WAcquire" "w_lk WSet" "w_lk WLockTable" "w_lk WWake" "w_lk WUnlockTable" "w_lk WUnlock" "\<not> w_lk WDone"
  "\<not> w_pt WAcquire" "\<not> w_pt WSet" "\<not> w_pt WLockTable" "w_pt WWake" "w_pt WUnlockTable" "\<not> w_pt WUnlock" "\<not> w_pt WDone"
  "\<not> w_set WAcquire" "\<not> w_set WSet" "w_set WLockTable" "w_set WWake" "w_set WUnlockTable" "w_set WUnlock" "w_set WDone"
  "\<not> w_woken WAcquire" "\<not> w_woken WSet" "\<not> w_woken WLockTable" "\<not> w_woken WWake" "w_woken WUnlockTable"
  "w_woken WUnlock" "w_woken WDone"
  by (simp_all add: s_lk_def s_pt_def s_going_def w_lk_def w_pt_def w_set_def w_woken_def)

lemma s_going_locks: "s_going pc \<Longrightarrow> s_lk pc \<or> s_pt pc"
  by (cases pc) simp_all

lemma w_woken_set: "w_woken pc \<Longrightarrow> w_set pc"
  by (cases pc) simp_all

definition sw_inv :: "swm \<Rightarrow> bool" where
  "sw_inv s \<longleftrightarrow>
     sw_lk s = (if s_lk (sw_s s) then Some 0 else if w_lk (sw_w s) then Some 1 else None) \<and>
     sw_pt s = (if s_pt (sw_s s) then Some 0 else if w_pt (sw_w s) then Some 1 else None) \<and>
     \<not> (s_lk (sw_s s) \<and> w_lk (sw_w s)) \<and> \<not> (s_pt (sw_s s) \<and> w_pt (sw_w s)) \<and>
     (sw_cond s \<longleftrightarrow> w_set (sw_w s)) \<and>
     (sw_state s = SLEEPING \<longrightarrow> sw_s s = SSwitch \<or> sw_s s = SAway) \<and>
     (sw_s s = SAway \<longrightarrow> sw_state s = SLEEPING \<or> sw_state s = RUNNABLE) \<and>
     (sw_s s = SSwitch \<longrightarrow> sw_state s = SLEEPING) \<and>
     (w_woken (sw_w s) \<longrightarrow> \<not> s_going (sw_s s) \<and> sw_state s \<noteq> SLEEPING)"

interpretation swi: inductive_invariant sw_init sw_step sw_inv
proof
  fix s assume "sw_init s"
  then show "sw_inv s" by (simp add: sw_init_def sw_inv_def)
next
  fix s t assume "sw_inv s" "sw_step s t"
  from this(2,1) show "sw_inv t"
    by cases (simp_all add: sw_inv_def split: if_splits, auto dest: s_going_locks w_woken_set)
qed

lemma sw_progress:
  assumes s: "sw_inv s" and w: "sw_w s = WDone" and d: "sw_s s \<noteq> SDone"
  shows "\<exists>t. sw_step s t"
proof -
  have free: "\<not> s_lk (sw_s s) \<Longrightarrow> sw_lk s = None" "\<not> s_pt (sw_s s) \<Longrightarrow> sw_pt s = None"
    using s w by (simp_all add: sw_inv_def)
  have c: "sw_cond s" using s w by (simp add: sw_inv_def)
  have ng: "\<not> s_going (sw_s s)" and st: "sw_s s = SAway \<Longrightarrow> sw_state s = RUNNABLE"
    using s w by (auto simp: sw_inv_def)
  show ?thesis
    using d ng free st c
    by (cases "sw_s s")
      (auto intro: s_acquire s_leave s_sleep s_resume s_unlock_table s_relock)
qed

section \<open>Properties\<close>


definition sw_demo :: swm where
  "sw_demo = \<lparr>sw_cond = True, sw_lk = None, sw_pt = None, sw_state = RUNNABLE, sw_s = SAway, sw_w = WDone\<rparr>"

lemma sw_demo_reach: "reach sw_init sw_step sw_demo"
proof -
  define s0 where "s0 = \<lparr>sw_cond = False, sw_lk = None, sw_pt = None, sw_state = RUNNING, sw_s = SAcquire, sw_w = WAcquire\<rparr>"
  have "reach sw_init sw_step s0" by (rule reach_init) (simp add: sw_init_def s0_def)
  note r0 = this [unfolded s0_def]
  note r1 = reach_step [OF r0 s_acquire, simplified]
  note r2 = reach_step [OF r1 s_sleep, simplified]
  note r3 = reach_step [OF r2 s_lock_table, simplified]
  note r4 = reach_step [OF r3 s_unlock, simplified]
  note r5 = reach_step [OF r4 s_mark, simplified]
  note r6 = reach_step [OF r5 s_switch, simplified]
  note r7 = reach_step [OF r6 w_acquire, simplified]
  note r8 = reach_step [OF r7 w_set, simplified]
  note r9 = reach_step [OF r8 w_lock_table, simplified]
  note r10 = reach_step [OF r9 w_wake, simplified]
  note r11 = reach_step [OF r10 w_unlock_table, simplified]
  note r12 = reach_step [OF r11 w_unlock, simplified]
  show ?thesis using r12 by (simp add: sw_demo_def)
qed


text \<open>
  C16. The scheduler is round robin: a process that is ready when the scheduler begins a pass over the table is switched to
  in that pass, whatever the other processes do when they run, as long as their runs come back with the table's lock and a table in order
  and do not make the process unready; the pass ends without a panic when every run ends.
\<close>
theorem scheduler_round_robin:
  assumes "sched_ok (s\<lparr>held := [PtableLk]\<rparr>)" and "held s = []" and "fair_runs i e" and "NPROC \<le> length e"
    and "i < NPROC" and "p_state (ptable s ! i) = RUNNABLE"
  shows "wp scheduler_round (\<lambda>ran t d. i \<in> set ran \<and> held t = []) s e"
proof -
  have "wp (scheduler_pass [0..<NPROC]) (\<lambda>ran t d. sched_ok t \<and>
      (i \<in> set [0..<NPROC] \<longrightarrow> p_state (ptable (s\<lparr>held := [PtableLk]\<rparr>) ! i) = RUNNABLE \<longrightarrow> i \<in> set ran))
      (s\<lparr>held := [PtableLk]\<rparr>) e"
    by (rule scheduler_pass_runs [OF assms(1,3)]) (use assms(4) in auto)
  then have "wp (scheduler_pass [0..<NPROC]) (\<lambda>ran. wp (andthen (unlock PtableLk) (return ran))
      (\<lambda>ran t d. i \<in> set ran \<and> held t = [])) (s\<lparr>held := [PtableLk]\<rparr>) e"
    by (rule wp_mono) (use assms(5,6) in \<open>auto simp: wp_rules sched_ok_def\<close>)
  then show ?thesis using assms(2)
    by (simp add: scheduler_round_def wp_andthen [of "lock _"] wp_lock wp_bind del: upt_Suc)
qed

definition free_proc :: proc where
  "free_proc = \<lparr>p_sz = 0, p_pgdir = 0, p_kstack = 0, p_state = UNUSED, p_pid = 0, p_parent = None, p_tf = 0, p_context = 0,
     p_chan = ChNull, p_killed = False, p_ofile = replicate NOFILE None, p_cwd = None, p_name = replicate 16 0,
     p_container_id = 0, p_cont = None\<rparr>"

definition proc_demo :: procst where
  "proc_demo = \<lparr>held = [], kmem = (\<lambda>_. 0), con = con_demo, use_lock = True, freelist = 0x80101000, kend = 0x80100000,
     kpgdir = 0x80105000, cr3 = 0, kdata = 0x80108000,
     ptable = (replicate NPROC free_proc)
       [0 := free_proc\<lparr>p_state := RUNNABLE, p_pid := 1, p_kstack := 0x80110000, p_pgdir := 0x80111000\<rparr>,
        3 := free_proc\<lparr>p_state := RUNNABLE, p_pid := 2, p_parent := Some 0, p_kstack := 0x80112000, p_pgdir := 0x80113000\<rparr>],
     initproc = Some 0, nextpid = 3, cur = None, cpu_intena = True, ts_esp0 = 0, sym_trapret = 0x80105001, sym_forkret = 0x80105002\<rparr>"

theorem scheduler_round_robin_witness:
  "wp scheduler_round (\<lambda>ran t d. 3 \<in> set ran \<and> held t = []) proc_demo (replicate 64 id)"
  by (rule scheduler_round_robin)
    (auto simp: sched_ok_def fair_runs_def proc_demo_def free_proc_def dest!: set_update_subset_insert [THEN subsetD])


definition wait_demo :: procst where
  "wait_demo = proc_demo\<lparr>ptable := (ptable proc_demo)[3 := (ptable proc_demo ! 3)\<lparr>p_state := ZOMBIE\<rparr>], cur := Some 0\<rparr>"


text \<open>
  C18. \<open>kill\<close> of a positive identifier acts on one process: with the table's invariant, if a process has the identifier, the call returns 0,
  that process is marked as killed and made ready if it was asleep, and all other entries stay; otherwise it returns -1 and
  changes nothing.
\<close>
theorem kill_hits_one_process:
  assumes inv: "pids_ok (ptable s) (nextpid s)" and lk: "PtableLk \<notin> set (held s)" and pid: "0 < pid"
  shows "(\<forall>i<NPROC. p_pid (ptable s ! i) = pid \<longrightarrow>
      (\<exists>p. kill pid s e = Ret 0 (s\<lparr>ptable := (ptable s)[i := p]\<rparr>) e \<and> p_killed p \<and> p_pid p = pid \<and>
        p_state p = (if p_state (ptable s ! i) = SLEEPING then RUNNABLE else p_state (ptable s ! i)))) \<and>
    ((\<forall>p\<in>set (ptable s). p_pid p \<noteq> pid) \<longrightarrow> kill pid s e = Ret (- 1) s e)"
proof (intro conjI allI impI)
  fix i assume i: "i < NPROC" "p_pid (ptable s ! i) = pid"
  have len: "length (ptable s) = NPROC" using inv by (simp add: pids_ok_def)
  have f: "find_idx (\<lambda>p. p_pid p = pid) (ptable s) = Some i"
    by (rule find_idx_unique) (use inv i pid len in \<open>auto simp: pids_ok_def\<close>)
  let ?p = "(ptable s ! i)\<lparr>p_killed := True\<rparr>"
  let ?q = "if p_state (ptable s ! i) = SLEEPING then ?p\<lparr>p_state := RUNNABLE\<rparr> else ?p"
  have "kill pid s e = Ret 0 (s\<lparr>ptable := (ptable s)[i := ?q]\<rparr>) e"
    by (rule wp_eq_ret) (use lk f i len in \<open>simp add: kill_def wp_rules\<close>)
  then show "\<exists>p. kill pid s e = Ret 0 (s\<lparr>ptable := (ptable s)[i := p]\<rparr>) e \<and> p_killed p \<and> p_pid p = pid \<and>
      p_state p = (if p_state (ptable s ! i) = SLEEPING then RUNNABLE else p_state (ptable s ! i))"
    using i(2) by (intro exI [of _ ?q]) simp
next
  assume "\<forall>p\<in>set (ptable s). p_pid p \<noteq> pid"
  then have "find_idx (\<lambda>p. p_pid p = pid) (ptable s) = None" by simp
  then show "kill pid s e = Ret (- 1) s e"
    by (intro wp_eq_ret) (use lk in \<open>simp add: kill_def wp_rules del: find_idx_None\<close>)
qed

lemma proc_demo_pids: "pids_ok (ptable proc_demo) (nextpid proc_demo)"
  by (auto simp: pids_ok_def proc_demo_def free_proc_def nth_list_update_if)

theorem kill_hits_one_process_witness:
  "kill 7 proc_demo [] = Ret (- 1) proc_demo [] \<and>
   (\<exists>p. kill 2 proc_demo [] = Ret 0 (proc_demo\<lparr>ptable := (ptable proc_demo)[3 := p]\<rparr>) [] \<and> p_killed p)"
proof
  have lk: "PtableLk \<notin> set (held proc_demo)" by (simp add: proc_demo_def)
  have "\<forall>p\<in>set (ptable proc_demo). p_pid p \<noteq> 7"
    by (auto simp: proc_demo_def free_proc_def dest!: set_update_subset_insert [THEN subsetD])
  then show "kill 7 proc_demo [] = Ret (- 1) proc_demo []"
    using kill_hits_one_process [OF proc_demo_pids lk, of 7 "[]"] by simp
  have "p_pid (ptable proc_demo ! 3) = 2" by (simp add: proc_demo_def)
  then show "\<exists>p. kill 2 proc_demo [] = Ret 0 (proc_demo\<lparr>ptable := (ptable proc_demo)[3 := p]\<rparr>) [] \<and> p_killed p"
    using kill_hits_one_process [OF proc_demo_pids lk, of 2 "[]", simplified, THEN conjunct1, rule_format, of 3] by auto
qed

text \<open>
  C19. \<open>kill(0)\<close> is not refused: it finds a free entry, whose identifier is 0, reports success and leaves the entry marked; the mark is
  not reset when the entry is given to a new process, which is thus killed before it runs. The statement is for a table whose first
  entry with identifier 0 is its first free entry, as \<open>wait\<close> leaves it.
\<close>
theorem kill_zero_marks_next_process:
  assumes "find_idx (\<lambda>p. p_pid p = 0) (ptable s) = Some i" and "find_idx (\<lambda>p. p_state p = UNUSED) (ptable s) = Some i"
    and "PtableLk \<notin> set (held s)" and "kmem_free s" and "freelist s \<noteq> 0" and "nextpid s < 2147483647"
  shows "wp (bind (kill 0) (\<lambda>r. bind allocproc (\<lambda>np. return (r, np))))
    (\<lambda>(r, np) t d. r = 0 \<and> np = Some i \<and> p_killed (ptable t ! i)) s e"
proof -
  have i: "i < length (ptable s)" "p_state (ptable s ! i) = UNUSED"
    using find_idx_SomeD [OF assms(2)] by simp_all
  have k: "kill 0 s e = Ret 0 (s\<lparr>ptable := (ptable s)[i := (ptable s ! i)\<lparr>p_killed := True\<rparr>]\<rparr>) e"
    by (rule wp_eq_ret) (use assms(1,3) i in \<open>simp add: kill_def wp_rules\<close>)
  let ?t = "s\<lparr>ptable := (ptable s)[i := (ptable s ! i)\<lparr>p_killed := True\<rparr>]\<rparr>"
  have f: "find_idx (\<lambda>p. p_state p = UNUSED) (ptable ?t) = Some i"
    using find_idx_update [of i "ptable s" "\<lambda>p. p_state p = UNUSED" "(ptable s ! i)\<lparr>p_killed := True\<rparr>"] assms(2) by simp
  have "wp allocproc (\<lambda>np t d. np = Some i \<and> p_killed (ptable t ! i)) ?t e"
    using f i assms(3-6)
    by (simp add: allocproc_def wp_rules kmem_free_def mem_defs Let_def)
  then show ?thesis using k by (auto simp: wp_def bind_def return_def split: result.splits)
qed

theorem kill_zero_marks_next_process_witness:
  "wp (bind (kill 0) (\<lambda>r. bind allocproc (\<lambda>np. return (r, np))))
    (\<lambda>(r, np) t d. r = 0 \<and> np = Some 1 \<and> p_killed (ptable t ! 1)) proc_demo []"
  by (rule kill_zero_marks_next_process) (simp_all add: proc_demo_def free_proc_def kmem_free_def replicate_lit)


end
