(* ===== verification/Trace.thy ===== *)
theory Trace
  imports Proc
begin

text \<open>
  The system call trace of \<open>proc.c\<close>: a flag and an array of counters, with \<open>toggle\<close> and \<open>print_count\<close>. The counting itself
  is in \<open>syscall\<close>. The array \<open>syscall_arr\<close> of names has as many entries as the array of counters.
\<close>

record trcst = procst +
  trace :: int
  counter :: "u32 list"

abbreviation num_syscall :: nat where "num_syscall \<equiv> 33"

definition syscall_arr :: "string list" where
  "syscall_arr =
    [''sys_fork'', ''sys_exit'', ''sys_wait'', ''sys_pipe'', ''sys_read'', ''sys_kill'', ''sys_exec'', ''sys_fstat'',
     ''sys_chdir'', ''sys_dup'', ''sys_getpid'', ''sys_sbrk'', ''sys_sleep'', ''sys_uptime'', ''sys_open'',
     ''sys_write'', ''sys_mknod'', ''sys_unlink'', ''sys_link'', ''sys_mkdir'', ''sys_close'', ''sys_halt'',
     ''sys_toggle'', ''sys_print_count'', ''sys_ps'', ''sys_send'', ''sys_recv'', ''sys_send_multi'',
     ''sys_create_container'', ''sys_destroy_container'', ''sys_join_container'', ''sys_leave_container'',
     ''sys_container_malloc'']"

definition toggle :: "('z trcst_scheme, int) kop" where
  "toggle = bind (gets trace) (\<lambda>t.
     if t = 0 then andthen (modify (\<lambda>s. s\<lparr>trace := 1\<rparr>)) (return 0)
     else andthen (modify (\<lambda>s. s\<lparr>trace := 0\<rparr>))
       (andthen (forM [0..<num_syscall] (\<lambda>i. modify (\<lambda>s. s\<lparr>counter := (counter s)[i := 0]\<rparr>))) (return 0)))"

definition print_count :: "('z trcst_scheme, int) kop" where
  "print_count = andthen (forM [0..<num_syscall] (\<lambda>i. bind (gets counter) (\<lambda>cs.
     whenM (cs ! i \<noteq> 0) (cprintf ''%s %d\<newline>'' [arg_lit (syscall_arr ! i), AInt (cs ! i)])))) (return 0)"

text \<open>The counting in \<open>syscall\<close>: a counter outside the array is a fault.\<close>

definition count_call :: "int \<Rightarrow> ('z trcst_scheme, unit) kop" where
  "count_call num = bind (gets trace) (\<lambda>t. whenM (t = 1) (bind (gets counter) (\<lambda>cs.
     if nat (num - 1) < length cs
     then modify (\<lambda>s. s\<lparr>counter := cs[nat (num - 1) := cs ! nat (num - 1) + 1]\<rparr>)
     else fault ''counter'')))"

section \<open>Switching the trace off resets every counter\<close>

lemma clear_loop:
  "n \<le> length (counter s) \<Longrightarrow>
   forM [k..<n] (\<lambda>i. modify (\<lambda>s. s\<lparr>counter := (counter s)[i := 0]\<rparr>)) s e =
   Ret () (s\<lparr>counter := take k (counter s) @ replicate (n - k) 0 @ drop (max k n) (counter s)\<rparr>) e"
proof (induction "n - k" arbitrary: k s)
  case 0
  then show ?case by (simp add: monad_defs max_def)
next
  case (Suc d)
  then have k: "k < n" "[k..<n] = k # [Suc k..<n]" by (simp_all add: upt_conv_Cons)
  let ?s = "s\<lparr>counter := (counter s)[k := 0]\<rparr>"
  have IH: "forM [Suc k..<n] (\<lambda>i. modify (\<lambda>s. s\<lparr>counter := (counter s)[i := 0]\<rparr>)) ?s e =
    Ret () (?s\<lparr>counter := take (Suc k) (counter ?s) @ replicate (n - Suc k) 0 @ drop (max (Suc k) n) (counter ?s)\<rparr>) e"
    by (rule Suc.hyps(1)) (use Suc k in auto)
  have "take (Suc k) ((counter s)[k := 0]) = take k (counter s) @ [0]"
    using k Suc.prems by (simp add: take_Suc_conv_app_nth)
  moreover have "replicate (n - k) (0 :: u32) = 0 # replicate (n - Suc k) 0" using k by (simp add: Suc_diff_Suc [symmetric])
  ultimately show ?case using IH k by (simp add: monad_defs max_def)
qed

lemma toggle_off:
  assumes "trace s \<noteq> 0" and "length (counter s) = num_syscall"
  shows "toggle s e = Ret 0 (s\<lparr>trace := 0, counter := replicate num_syscall 0\<rparr>) e"
  using assms clear_loop [of num_syscall "s\<lparr>trace := 0\<rparr>" 0 e]
  by (simp add: toggle_def bind_def gets_def andthen_def modify_def return_def del: upt_Suc upt_rec_numeral forM.simps)

section \<open>Properties\<close>

text \<open>
  C20. Toggling the trace twice gives back a trace that is off, with every counter 0, from a state in which it was off; and a system call
  number that has a counter is counted in it when the trace is on and not at all when it is off.
\<close>
theorem toggle_twice_and_count:
  assumes "trace s = 0" and "length (counter s) = num_syscall" and "0 < num" and "num \<le> 33"
  shows "bind toggle (\<lambda>_. toggle) s e = Ret 0 (s\<lparr>counter := replicate num_syscall 0\<rparr>) e \<and>
    count_call num s e = Ret () s e \<and>
    bind toggle (\<lambda>_. count_call num) s e =
      Ret () (s\<lparr>trace := 1, counter := (counter s)[nat (num - 1) := counter s ! nat (num - 1) + 1]\<rparr>) e"
proof (intro conjI)
  have on: "toggle s e = Ret 0 (s\<lparr>trace := 1\<rparr>) e" using assms(1) by (simp add: toggle_def monad_defs)
  show "bind toggle (\<lambda>_. toggle) s e = Ret 0 (s\<lparr>counter := replicate num_syscall 0\<rparr>) e"
    using on toggle_off [of "s\<lparr>trace := 1\<rparr>" e] assms(1,2) by (simp add: bind_def)
  show "count_call num s e = Ret () s e" using assms(1) by (simp add: count_call_def monad_defs)
  show "bind toggle (\<lambda>_. count_call num) s e =
      Ret () (s\<lparr>trace := 1, counter := (counter s)[nat (num - 1) := counter s ! nat (num - 1) + 1]\<rparr>) e"
    using on assms by (simp add: count_call_def monad_defs)
qed

definition trc_demo :: trcst where
  "trc_demo = procst.extend proc_demo (trcst.fields 0 (replicate num_syscall 7))"

lemma trc_demo_fields [simp]: "trace trc_demo = 0" "counter trc_demo = replicate num_syscall 7"
  by (simp_all add: trc_demo_def procst.extend_def trcst.fields_def)

theorem toggle_twice_and_count_witness:
  "bind toggle (\<lambda>_. toggle) trc_demo [] = Ret 0 (trc_demo\<lparr>counter := replicate num_syscall 0\<rparr>) []"
  using toggle_twice_and_count [of trc_demo 1 "[]"] by simp

end
