(* ===== verification/Ipc.thy ===== *)
theory Ipc
  imports Trace
begin

text \<open>
  Messages between processes, \<open>proc.c\<close>: a queue of 8-byte messages per process with \<open>send\<close> and
  \<open>recv\<close>, and the multicast part, which keeps one message in \<open>mean_buffer\<close> and wakes processes through a map of process
  identifiers. A message is the list of the bytes at the user's pointer; what \<open>recv\<close> and \<open>read_mean\<close> write there is their
  result.

  The abstract queue is the list of the messages in it. The locale \<open>fifo\<close> is the interface of a bounded queue; it is
  shown for the message queues here and, with the operation that reads the first element, for the pipe and
  for the console's input elsewhere. The operation \<open>front\<close> of the message queue is not part of it: at the wrap of the array it
  reads outside the array.
\<close>

abbreviation MSGBUFFSIZE :: nat where "MSGBUFFSIZE \<equiv> 200"
abbreviation MSGSIZE :: nat where "MSGSIZE \<equiv> 8"

record msgq =
  q_front :: nat
  q_rear :: nat
  q_size :: nat
  q_array :: "u8 list list"

definition isEmpty :: "msgq \<Rightarrow> bool" where
  "isEmpty q \<longleftrightarrow> q_size q = 0"

definition enqueue :: "msgq \<Rightarrow> u8 list \<Rightarrow> msgq option" where
  "enqueue q item =
     (if q_size q = MSGBUFFSIZE then None
      else let r = (q_rear q + 1) mod MSGBUFFSIZE
        in Some (q\<lparr>q_rear := r, q_array := (q_array q)[r := item], q_size := q_size q + 1\<rparr>))"

definition dequeue :: "msgq \<Rightarrow> msgq option" where
  "dequeue q =
     (if isEmpty q then None
      else Some (q\<lparr>q_front := (q_front q + 1) mod MSGBUFFSIZE, q_size := q_size q - 1\<rparr>))"

text \<open>The index of the row that \<open>rear\<close> and \<open>front\<close> point to.\<close>

definition rear :: "msgq \<Rightarrow> nat" where "rear q = q_rear q"
definition front :: "msgq \<Rightarrow> nat" where "front q = q_front q + 1"

record ipcst = trcst +
  msg_queue :: "msgq list"
  bsmap :: "(int \<times> int) list"
  map_len :: nat
  mean_buffer :: "u8 list"

text \<open>The queue of the process with identifier \<open>pid\<close>, \<open>msg_queue[pid-1]\<close>.\<close>

definition queue_of :: "int \<Rightarrow> ('z ipcst_scheme, nat) kop" where
  "queue_of pid = bind (gets msg_queue) (\<lambda>qs.
     if 1 \<le> pid \<and> nat (pid - 1) < length qs then return (nat (pid - 1)) else fault ''msg_queue'')"

definition setq :: "nat \<Rightarrow> msgq \<Rightarrow> ('z ipcst_scheme, unit) kop" where
  "setq i q = modify (\<lambda>s. s\<lparr>msg_queue := (msg_queue s)[i := q]\<rparr>)"

definition print_queue :: "msgq \<Rightarrow> ('z ipcst_scheme, unit) kop" where
  "print_queue q = forM [q_front q + 1..<q_rear q + 1] (\<lambda>i.
     if i < length (q_array q) then
       let m = q_array q ! i in
       cprintf ''   queue element: %d\<newline>''
         [AInt (ucast (m ! 0) OR push_bit 8 (ucast (m ! 1)) OR push_bit 16 (ucast (m ! 2)) OR push_bit 24 (ucast (m ! 3)))]
     else fault ''print_queue'')"

text \<open>The entry of the table with the identifier, or the pointer past its end.\<close>

definition find_proc :: "int \<Rightarrow> proc list \<Rightarrow> nat" where
  "find_proc pid tab = (case find_idx (\<lambda>p. p_pid p = pid) tab of Some i \<Rightarrow> i | None \<Rightarrow> length tab)"

section \<open>Sending and receiving\<close>

text \<open>
  \<open>send\<close>: the two branches differ in the call of \<open>wakeup\<close> only. A full queue is left with its lock held.
\<close>

definition send_enqueue :: "int \<Rightarrow> u8 list \<Rightarrow> ('z ipcst_scheme, int) kop" where
  "send_enqueue pid in_msg = bind (queue_of pid) (\<lambda>qi.
     andthen (lock (MsgLk qi))
    (bind (gets (\<lambda>s. msg_queue s ! qi)) (\<lambda>q.
     case enqueue q in_msg of
       None \<Rightarrow> return (- 1)
     | Some q' \<Rightarrow> andthen (setq qi q') (andthen (unlock (MsgLk qi)) (return 0)))))"

definition send :: "int \<Rightarrow> int \<Rightarrow> u8 list \<Rightarrow> ('z ipcst_scheme, int) kop" where
  "send send_pid rec_pid msg = bind (gets ptable) (\<lambda>tab.
     let i = find_proc rec_pid tab in
     bind (getp i) (\<lambda>p.
     if p_state p = SLEEPING
     then andthen (wakeup (ChProc i)) (send_enqueue (p_pid p) msg)
     else send_enqueue (p_pid p) msg))"

text \<open>
  \<open>recv\<close>: the result of the call and the bytes written to the user's buffer, if any. The pointer \<open>m\<close> is taken before the
  queue's lock; the queue is not looked at again after the sleep.
\<close>

definition recv :: "('z ipcst_scheme, int \<times> u8 list option) kop" where
  "recv = bind curproc (\<lambda>c. bind (getp c) (\<lambda>p.
     bind (queue_of (p_pid p)) (\<lambda>qi.
     bind (gets (\<lambda>s. msg_queue s ! qi)) (\<lambda>q.
     andthen (whenM (q_size q = 0)
       (andthen (lock PtableLk) (andthen (sleep (ChProc c) (Some PtableLk)) (unlock PtableLk))))
    (bind (gets (\<lambda>s. front (msg_queue s ! qi))) (\<lambda>m.
     andthen (lock (MsgLk qi))
    (bind (gets (\<lambda>s. msg_queue s ! qi)) (\<lambda>q.
     case dequeue q of
       None \<Rightarrow> return (- 1, None)
     | Some q' \<Rightarrow>
         andthen (setq qi q')
        (if m < length (q_array q')
         then andthen (unlock (MsgLk qi)) (return (0, Some (strncpy (\<lambda>i. q_array q' ! m ! i) 8)))
         else fault ''front'')))))))))"

section \<open>Multicast\<close>

definition get_proc :: "int \<Rightarrow> ('z procst_scheme, proc) kop" where
  "get_proc pid = bind (gets ptable) (\<lambda>tab. getp (find_proc pid tab))"

definition wakeupcustom :: "int \<Rightarrow> ('z procst_scheme, int) kop" where
  "wakeupcustom pid = bind (gets ptable) (\<lambda>tab.
     andthen (wakeup1 (ChProc (find_proc pid tab))) (return 0))"

definition sleepcustom :: "int \<Rightarrow> ('z procst_scheme, int) kop" where
  "sleepcustom pid = bind (gets ptable) (\<lambda>tab.
     andthen (lock PtableLk)
    (andthen (sleep (ChProc (find_proc pid tab)) (Some PtableLk))
    (andthen (unlock PtableLk) (return 0))))"

text \<open>The inner loop of \<open>send_multi\<close>: the first of the \<open>map_len\<close> entries with the brother's identifier.\<close>

fun send_multi_one :: "nat \<Rightarrow> nat \<Rightarrow> int \<Rightarrow> ('z ipcst_scheme, unit) kop" where
  "send_multi_one 0 j rec_pid = skip"
| "send_multi_one (Suc n) j rec_pid = bind (gets bsmap) (\<lambda>m.
     if j < length m then
       if fst (m ! j) = rec_pid then bind (wakeupcustom (snd (m ! j))) (\<lambda>_. skip)
       else send_multi_one n (j + 1) rec_pid
     else fault ''map'')"

definition send_multi :: "int \<Rightarrow> int list \<Rightarrow> u8 list \<Rightarrow> ('z ipcst_scheme, int) kop" where
  "send_multi send_pid rec_pid msg =
     andthen (modify (\<lambda>s. s\<lparr>mean_buffer := msg\<rparr>))
    (andthen (forM rec_pid (\<lambda>r. bind (gets map_len) (\<lambda>n. send_multi_one n 0 r))) (return 0))"

definition store :: "int \<Rightarrow> int \<Rightarrow> ('z ipcst_scheme, int) kop" where
  "store brother_pid sister_pid = bind (gets map_len) (\<lambda>n. bind (gets bsmap) (\<lambda>m.
     if n < length m
     then andthen (modify (\<lambda>s. s\<lparr>bsmap := m[n := (brother_pid, sister_pid)], map_len := n + 1\<rparr>)) (return 0)
     else fault ''map''))"

definition read_mean :: "('z ipcst_scheme, int \<times> u8 list) kop" where
  "read_mean = bind (gets mean_buffer) (\<lambda>m. return (0, m))"

section \<open>The queue as a list\<close>

definition mq_inv :: "msgq \<Rightarrow> bool" where
  "mq_inv q \<longleftrightarrow> q_front q < MSGBUFFSIZE \<and> q_size q \<le> MSGBUFFSIZE \<and>
     q_rear q = (q_front q + q_size q) mod MSGBUFFSIZE \<and> length (q_array q) = MSGBUFFSIZE"

definition mq_contents :: "msgq \<Rightarrow> u8 list list" where
  "mq_contents q = map (\<lambda>k. q_array q ! ((q_front q + 1 + k) mod MSGBUFFSIZE)) [0..<q_size q]"

lemma length_mq_contents [simp]: "length (mq_contents q) = q_size q"
  by (simp add: mq_contents_def)

lemma ring_index_inj:
  fixes f n :: nat
  assumes "(f + i) mod n = (f + j) mod n" and "i < n" and "j < n"
  shows "i = j"
proof -
  have "j \<le> i" if "(f + i) mod n = (f + j) mod n" "i < n" "j < n" for i j :: nat
  proof (rule ccontr)
    assume "\<not> j \<le> i"
    then have "n dvd (f + j) - (f + i)" using mod_eq_dvd_iff_nat [of "f + i" "f + j" n] that(1) by simp
    then show False using \<open>\<not> j \<le> i\<close> that(3) nat_dvd_not_less [of "j - i" n] by simp
  qed
  from this [of i j] this [of j i] show ?thesis using assms by simp
qed

lemma enqueue_ok:
  assumes "mq_inv q" and "q_size q < MSGBUFFSIZE"
  shows "\<exists>q'. enqueue q x = Some q' \<and> mq_inv q' \<and> mq_contents q' = mq_contents q @ [x]"
proof -
  define r where "r = (q_rear q + 1) mod MSGBUFFSIZE"
  have r: "r = (q_front q + 1 + q_size q) mod MSGBUFFSIZE" "r < MSGBUFFSIZE"
    using assms by (simp_all add: r_def mq_inv_def mod_Suc_eq)
  let ?q = "q\<lparr>q_rear := r, q_array := (q_array q)[r := x], q_size := q_size q + 1\<rparr>"
  have "enqueue q x = Some ?q" using assms by (simp add: enqueue_def r_def Let_def)
  moreover have "mq_inv ?q" using assms r by (simp add: mq_inv_def)
  moreover have "mq_contents ?q = mq_contents q @ [x]"
  proof -
    have "(q_array q)[r := x] ! ((q_front q + 1 + k) mod MSGBUFFSIZE) = q_array q ! ((q_front q + 1 + k) mod MSGBUFFSIZE)"
      if "k < q_size q" for k
    proof -
      have "r \<noteq> (q_front q + 1 + k) mod MSGBUFFSIZE"
        using ring_index_inj [of "q_front q + 1" "q_size q" MSGBUFFSIZE k] r(1) that assms(2) by auto
      then show ?thesis by (rule nth_list_update_neq)
    qed
    then have "map (\<lambda>k. (q_array q)[r := x] ! ((q_front q + 1 + k) mod MSGBUFFSIZE)) [0..<q_size q] = mq_contents q"
      by (simp add: mq_contents_def)
    moreover have "(q_array q)[r := x] ! ((q_front q + 1 + q_size q) mod MSGBUFFSIZE) = x"
      using r assms by (simp add: mq_inv_def)
    ultimately show ?thesis by (simp add: mq_contents_def)
  qed
  ultimately show ?thesis by blast
qed

lemma dequeue_ok:
  assumes "mq_inv q" and "mq_contents q = x # xs"
  shows "\<exists>q'. dequeue q = Some q' \<and> mq_inv q' \<and> mq_contents q' = xs"
proof -
  have sz: "q_size q = Suc (length xs)" using length_mq_contents [of q] assms(2) by simp
  let ?q = "q\<lparr>q_front := (q_front q + 1) mod MSGBUFFSIZE, q_size := q_size q - 1\<rparr>"
  have "dequeue q = Some ?q" using sz by (simp add: dequeue_def isEmpty_def)
  moreover have "(Suc (q_front q) mod MSGBUFFSIZE + length xs) mod MSGBUFFSIZE = (q_front q + Suc (length xs)) mod MSGBUFFSIZE"
    by (simp add: mod_add_left_eq)
  then have "mq_inv ?q" using assms(1) sz by (simp add: mq_inv_def)
  moreover have "mq_contents ?q = tl (mq_contents q)"
  proof -
    have "Suc (Suc (q_front q) mod MSGBUFFSIZE + k) mod MSGBUFFSIZE = Suc (Suc (q_front q + k)) mod MSGBUFFSIZE" for k
      using mod_add_left_eq [of "Suc (q_front q)" MSGBUFFSIZE "Suc k"] by simp
    then show ?thesis using sz by (simp add: mq_contents_def upt_conv_Cons map_Suc_upt [symmetric] del: upt_Suc)
  qed
  ultimately show ?thesis using assms(2) by simp
qed

interpretation mq: fifo mq_inv mq_contents MSGBUFFSIZE enqueue dequeue
proof
  fix q x assume "mq_inv q" "length (mq_contents q) < MSGBUFFSIZE"
  then show "\<exists>q'. enqueue q x = Some q' \<and> mq_inv q' \<and> mq_contents q' = mq_contents q @ [x]"
    by (intro enqueue_ok) simp_all
next
  fix q x assume "mq_inv q" "length (mq_contents q) = MSGBUFFSIZE"
  then show "enqueue q x = None" by (simp add: enqueue_def)
next
  fix q x xs assume "mq_inv q" "mq_contents q = x # xs"
  then show "\<exists>q'. dequeue q = Some q' \<and> mq_inv q' \<and> mq_contents q' = xs" by (rule dequeue_ok)
next
  fix q assume "mq_inv q" "mq_contents q = []"
  then show "dequeue q = None" using length_mq_contents [of q] by (simp add: dequeue_def isEmpty_def)
next
  fix q assume "mq_inv q"
  then show "length (mq_contents q) \<le> MSGBUFFSIZE" by (simp add: mq_inv_def)
qed

lemma front_head:
  assumes "mq_inv q" and "mq_contents q = x # xs" and "q_front q \<noteq> 199"
  shows "front q < length (q_array q)" and "q_array q ! front q = x"
proof -
  have "q_size q = Suc (length xs)" using length_mq_contents [of q] assms(2) by simp
  then have "hd (mq_contents q) = q_array q ! ((q_front q + 1) mod MSGBUFFSIZE)"
    by (simp add: mq_contents_def hd_map upt_conv_Cons del: upt_Suc)
  then show "front q < length (q_array q)" "q_array q ! front q = x"
    using assms by (simp_all add: mq_inv_def front_def)
qed

section \<open>Send and receive on the lists\<close>

definition msgs :: "nat \<Rightarrow> 'z ipcst_scheme \<Rightarrow> u8 list list" where
  "msgs i s = mq_contents (msg_queue s ! i)"

lemma find_proc_index:
  assumes "pids_ok (ptable s) (nextpid s)" and "i < NPROC" and "p_pid (ptable s ! i) = pid" and "0 < pid"
  shows "find_proc pid (ptable s) = i"
proof -
  have "find_idx (\<lambda>p. p_pid p = pid) (ptable s) = Some i"
    by (rule find_idx_unique) (use assms in \<open>auto simp: pids_ok_def\<close>)
  then show ?thesis by (simp add: find_proc_def)
qed

lemma send_enqueue_ret:
  assumes "1 \<le> pid" and "nat (pid - 1) < length (msg_queue s)" and "MsgLk (nat (pid - 1)) \<notin> set (held s)"
    and "enqueue (msg_queue s ! nat (pid - 1)) m = Some q"
  shows "send_enqueue pid m s e = Ret 0 (s\<lparr>msg_queue := (msg_queue s)[nat (pid - 1) := q]\<rparr>) e"
  by (rule wp_eq_ret) (use assms in \<open>simp add: send_enqueue_def queue_of_def setq_def wp_rules\<close>)

lemma recv_ret:
  assumes c: "cur s = Some c" "c < length (ptable s)" "1 \<le> p_pid (ptable s ! c)"
    and qi: "qi = nat (p_pid (ptable s ! c) - 1)" "qi < length (msg_queue s)" "MsgLk qi \<notin> set (held s)"
    and ne: "q_size (msg_queue s ! qi) \<noteq> 0" and f: "front (msg_queue s ! qi) < length (q_array (msg_queue s ! qi))"
    and d: "dequeue (msg_queue s ! qi) = Some q"
  shows "recv s e = Ret (0, Some (strncpy (\<lambda>i. q_array (msg_queue s ! qi) ! front (msg_queue s ! qi) ! i) 8))
    (s\<lparr>msg_queue := (msg_queue s)[qi := q]\<rparr>) e"
proof -
  have "q_array q = q_array (msg_queue s ! qi)" using d by (auto simp: dequeue_def split: if_splits)
  then show ?thesis
    by (intro wp_eq_ret) (use assms in \<open>simp add: recv_def queue_of_def setq_def wp_rules\<close>)
qed

text \<open>
  What the receiver finds in its buffer: \<open>strncpy\<close> copies the bytes before the first zero and fills the rest with zeros. The state in
  which the receiver has given up the processor.
\<close>

definition delivered :: "u8 list \<Rightarrow> u8 list" where
  "delivered x = takeWhile (\<lambda>b. b \<noteq> 0) x @ replicate (MSGSIZE - length (takeWhile (\<lambda>b. b \<noteq> 0) x)) 0"

definition awaiting :: "nat \<Rightarrow> 'z ipcst_scheme \<Rightarrow> 'z ipcst_scheme" where
  "awaiting i s = s\<lparr>held := [PtableLk], ptable := (ptable s)[i := (ptable s ! i)\<lparr>p_chan := ChProc i, p_state := SLEEPING\<rparr>]\<rparr>"

lemma strncpy_list:
  "strncpy (\<lambda>i. x ! i) (length x) = takeWhile (\<lambda>b. b \<noteq> 0) x @ replicate (length x - length (takeWhile (\<lambda>b. b \<noteq> 0) x)) 0"
  by (induction x) simp_all

lemma strncpy_delivered: "length x = MSGSIZE \<Longrightarrow> strncpy (\<lambda>i. x ! i) 8 = delivered x"
  using strncpy_list [of x] by (simp add: delivered_def)

lemma delivered_text:
  assumes "length x = MSGSIZE" and "0 \<notin> set x"
  shows "delivered x = x"
proof -
  have all: "takeWhile (\<lambda>b. b \<noteq> 0) x = x" using assms(2) by auto
  show ?thesis unfolding delivered_def all using assms(1) by simp
qed

lemma queue_front:
  "enqueue q x = Some q' \<Longrightarrow> q_front q' = q_front q"
  "dequeue q = Some q' \<Longrightarrow> mq_inv q \<Longrightarrow> q_front q \<noteq> 199 \<Longrightarrow> q_front q' = q_front q + 1"
  by (auto simp: enqueue_def dequeue_def mq_inv_def Let_def split: if_splits)

lemma recv_first:
  assumes c: "cur s = Some i" "i < length (ptable s)" "1 \<le> p_pid (ptable s ! i)"
    and qi: "qi = nat (p_pid (ptable s ! i) - 1)" "qi < length (msg_queue s)" "MsgLk qi \<notin> set (held s)"
    and q: "mq_inv (msg_queue s ! qi)" "msgs qi s = x # xs" "q_front (msg_queue s ! qi) \<noteq> 199" and x: "length x = MSGSIZE"
  shows "\<exists>q'. recv s e = Ret (0, Some (delivered x)) (s\<lparr>msg_queue := (msg_queue s)[qi := q']\<rparr>) e \<and>
    mq_inv q' \<and> mq_contents q' = xs \<and> q_front q' = q_front (msg_queue s ! qi) + 1"
proof -
  have c': "mq_contents (msg_queue s ! qi) = x # xs" using q(2) by (simp add: msgs_def)
  obtain q' where q': "dequeue (msg_queue s ! qi) = Some q'" "mq_inv q'" "mq_contents q' = xs"
    using mq.pop_ok [OF q(1) c'] by auto
  have sz: "q_size (msg_queue s ! qi) \<noteq> 0" using length_mq_contents [of "msg_queue s ! qi"] c' by simp
  note fr = front_head [OF q(1) c' q(3)]
  show ?thesis using recv_ret [OF c qi sz fr(1) q'(1), of e] fr(2) q'(2,3) queue_front(2) [OF q'(1) q(1,3)] strncpy_delivered [OF x] by auto
qed

text \<open>A receiver that finds its queue empty, and is resumed.\<close>

lemma recv_sleeps:
  assumes c: "cur s = Some i" "i < length (ptable s)" "1 \<le> p_pid (ptable s ! i)"
    and qi: "qi = nat (p_pid (ptable s ! i) - 1)" "qi < length (msg_queue s)" and em: "q_size (msg_queue s ! qi) = 0" and h: "held s = []"
  shows "recv s [] = Stuck"
    and "\<lbrakk>held (f (awaiting i s)) = [PtableLk]; mq_inv (msg_queue (f (awaiting i s)) ! qi); msgs qi (f (awaiting i s)) = x # xs;
      q_front (msg_queue (f (awaiting i s)) ! qi) \<noteq> 199; length x = MSGSIZE; qi < length (msg_queue (f (awaiting i s)))\<rbrakk> \<Longrightarrow>
      wp recv (\<lambda>r t d. r = (0, Some (delivered x)) \<and> d = e \<and> held t = [] \<and> mq_inv (msg_queue t ! qi) \<and> msgs qi t = xs \<and>
        q_front (msg_queue t ! qi) = q_front (msg_queue (f (awaiting i s)) ! qi) + 1 \<and> msg_queue t = (msg_queue (f (awaiting i s)))[qi := msg_queue t ! qi]) s (f # e)"
proof -
  show "recv s [] = Stuck"
    using assms by (simp add: recv_def queue_of_def sleep_def sched_def curproc_def myproc_def getp_def setp_def lock_def yield_cpu_def monad_defs)
  assume f: "held (f (awaiting i s)) = [PtableLk]" "mq_inv (msg_queue (f (awaiting i s)) ! qi)" "msgs qi (f (awaiting i s)) = x # xs"
    "q_front (msg_queue (f (awaiting i s)) ! qi) \<noteq> 199" "length x = MSGSIZE" "qi < length (msg_queue (f (awaiting i s)))"
  define u where "u = f (awaiting i s)"
  note f = f [folded u_def]
  have c': "mq_contents (msg_queue u ! qi) = x # xs" using f(3) by (simp add: msgs_def)
  obtain q' where q': "dequeue (msg_queue u ! qi) = Some q'" "mq_inv q'" "mq_contents q' = xs" using mq.pop_ok [OF f(2) c'] by auto
  have arr: "q_array q' = q_array (msg_queue u ! qi)" using q'(1) by (auto simp: dequeue_def split: if_splits)
  note fr = front_head [OF f(2) c' f(4)]
  have au: "f (s\<lparr>held := [PtableLk], ptable := (ptable s)[i := (ptable s ! i)\<lparr>p_chan := ChProc i, p_state := SLEEPING\<rparr>]\<rparr>) = u"
    by (simp add: u_def awaiting_def)
  show "wp recv (\<lambda>r t d. r = (0, Some (delivered x)) \<and> d = e \<and> held t = [] \<and> mq_inv (msg_queue t ! qi) \<and> msgs qi t = xs \<and>
        q_front (msg_queue t ! qi) = q_front (msg_queue (f (awaiting i s)) ! qi) + 1 \<and> msg_queue t = (msg_queue (f (awaiting i s)))[qi := msg_queue t ! qi]) s (f # e)"
    using assms f(1,6) q' fr arr queue_front(2) [OF q'(1) f(2,4)] strncpy_delivered [OF f(5)]
    by (simp add: recv_def queue_of_def setq_def sleep_def wp_rules au msgs_def flip: u_def)
qed

section \<open>Properties\<close>

text \<open>
  C21. Messages of eight bytes are delivered in the order they were sent. Sending to a process whose queue has room appends the message to that queue and
  changes nothing else, except that a receiver that sleeps is woken. Receiving takes the first message off the caller's queue
  and leaves the other queues as they are; the caller gets the message up to its first zero byte and zeros after that, so all of it when it
  has no zero byte; the front index moves by one. A caller whose queue is empty sleeps, and once it is resumed with a message in its queue, gets the first one in the
  same way. Receiving is stated for a front index that is not the last one of the array, where \<open>front\<close> reads outside of
  it, and sending for a queue that is not full, where the lock is kept.
\<close>
theorem send_recv_fifo:
  fixes s :: "'z ipcst_scheme"
  assumes tab: "pids_ok (ptable s) (nextpid s)" and i: "i < NPROC" "p_pid (ptable s ! i) = pid" "0 < pid" "pid \<le> 64"
    and q: "length (msg_queue s) = NPROC" "mq_inv (msg_queue s ! nat (pid - 1))" and lk: "held s = []" and x: "length x = MSGSIZE"
  shows "(length (msgs (nat (pid - 1)) s) < MSGBUFFSIZE \<longrightarrow>
      wp (send me pid x) (\<lambda>r t d. r = 0 \<and> d = e \<and> msgs (nat (pid - 1)) t = msgs (nat (pid - 1)) s @ [x] \<and>
        mq_inv (msg_queue t ! nat (pid - 1)) \<and> q_front (msg_queue t ! nat (pid - 1)) = q_front (msg_queue s ! nat (pid - 1)) \<and>
        t = s\<lparr>ptable := (if p_state (ptable s ! i) = SLEEPING then map (wake (ChProc i)) (ptable s) else ptable s),
              msg_queue := (msg_queue s)[nat (pid - 1) := msg_queue t ! nat (pid - 1)]\<rparr>) s e) \<and>
    (cur s = Some i \<and> msgs (nat (pid - 1)) s = x # xs \<and> q_front (msg_queue s ! nat (pid - 1)) \<noteq> 199 \<longrightarrow>
      wp recv (\<lambda>r t d. r = (0, Some (delivered x)) \<and> d = e \<and> msgs (nat (pid - 1)) t = xs \<and>
        mq_inv (msg_queue t ! nat (pid - 1)) \<and> q_front (msg_queue t ! nat (pid - 1)) = q_front (msg_queue s ! nat (pid - 1)) + 1 \<and>
        t = s\<lparr>msg_queue := (msg_queue s)[nat (pid - 1) := msg_queue t ! nat (pid - 1)]\<rparr>) s e) \<and>
    (cur s = Some i \<and> msgs (nat (pid - 1)) s = [] \<longrightarrow> recv s [] = Stuck) \<and>
    (cur s = Some i \<and> msgs (nat (pid - 1)) s = [] \<and> held (f (awaiting i s)) = [PtableLk] \<and>
      length (msg_queue (f (awaiting i s))) = NPROC \<and> mq_inv (msg_queue (f (awaiting i s)) ! nat (pid - 1)) \<and>
      msgs (nat (pid - 1)) (f (awaiting i s)) = x # xs \<and> q_front (msg_queue (f (awaiting i s)) ! nat (pid - 1)) \<noteq> 199 \<longrightarrow>
      wp recv (\<lambda>r t d. r = (0, Some (delivered x)) \<and> d = e \<and> held t = [] \<and> msgs (nat (pid - 1)) t = xs \<and> mq_inv (msg_queue t ! nat (pid - 1)) \<and>
        q_front (msg_queue t ! nat (pid - 1)) = q_front (msg_queue (f (awaiting i s)) ! nat (pid - 1)) + 1 \<and>
        msg_queue t = (msg_queue (f (awaiting i s)))[nat (pid - 1) := msg_queue t ! nat (pid - 1)]) s (f # e)) \<and>
    (0 \<notin> set x \<longrightarrow> delivered x = x)"
proof -
  let ?qi = "nat (pid - 1)"
  have len: "i < length (ptable s)" using tab i(1) by (simp add: pids_ok_def)
  have p1: "1 \<le> p_pid (ptable s ! i)" "?qi = nat (p_pid (ptable s ! i) - 1)" and qi: "1 \<le> pid" "?qi < length (msg_queue s)"
    using i q by auto
  have nl: "MsgLk ?qi \<notin> set (held s)" "PtableLk \<notin> set (held s)" using lk by simp_all
  have empty: "q_size (msg_queue s ! ?qi) = 0" if "msgs ?qi s = []" using that length_mq_contents [of "msg_queue s ! ?qi"] by (simp add: msgs_def)
  show ?thesis
  proof (intro conjI impI)
    let ?tab = "if p_state (ptable s ! i) = SLEEPING then map (wake (ChProc i)) (ptable s) else ptable s"
    assume h: "length (msgs ?qi s) < MSGBUFFSIZE"
    then obtain q' where q': "enqueue (msg_queue s ! ?qi) x = Some q'" "mq_inv q'" "mq_contents q' = mq_contents (msg_queue s ! ?qi) @ [x]"
      using mq.push_ok [OF q(2), of x] by (auto simp: msgs_def)
    have "send me pid x s e = Ret 0 (s\<lparr>ptable := ?tab, msg_queue := (msg_queue s)[?qi := q']\<rparr>) e"
      by (rule wp_eq_ret) (use i len nl find_proc_index [OF tab i(1-3)] qi q'(1)
        in \<open>simp add: send_def send_enqueue_def queue_of_def setq_def wp_rules Let_def\<close>)
    then show "wp (send me pid x) (\<lambda>r t d. r = 0 \<and> d = e \<and> msgs ?qi t = msgs ?qi s @ [x] \<and> mq_inv (msg_queue t ! ?qi) \<and>
        q_front (msg_queue t ! ?qi) = q_front (msg_queue s ! ?qi) \<and> t = s\<lparr>ptable := ?tab, msg_queue := (msg_queue s)[?qi := msg_queue t ! ?qi]\<rparr>) s e"
      using q' qi queue_front(1) [OF q'(1)] by (simp add: wp_def msgs_def)
  next
    assume h: "cur s = Some i \<and> msgs ?qi s = x # xs \<and> q_front (msg_queue s ! ?qi) \<noteq> 199"
    then obtain q' where q': "recv s e = Ret (0, Some (delivered x)) (s\<lparr>msg_queue := (msg_queue s)[?qi := q']\<rparr>) e"
        "mq_inv q'" "mq_contents q' = xs" "q_front q' = q_front (msg_queue s ! ?qi) + 1"
      using recv_first [OF _ len p1 qi(2) nl(1) q(2) _ _ x, of xs e] by blast
    then show "wp recv (\<lambda>r t d. r = (0, Some (delivered x)) \<and> d = e \<and> msgs ?qi t = xs \<and>
        mq_inv (msg_queue t ! ?qi) \<and> q_front (msg_queue t ! ?qi) = q_front (msg_queue s ! ?qi) + 1 \<and> t = s\<lparr>msg_queue := (msg_queue s)[?qi := msg_queue t ! ?qi]\<rparr>) s e"
      using qi by (simp add: wp_def msgs_def)
  next
    assume "cur s = Some i \<and> msgs ?qi s = []"
    then show "recv s [] = Stuck" using recv_sleeps(1) [OF _ len p1 qi(2) empty lk] by blast
  next
    assume h: "cur s = Some i \<and> msgs ?qi s = [] \<and> held (f (awaiting i s)) = [PtableLk] \<and>
      length (msg_queue (f (awaiting i s))) = NPROC \<and> mq_inv (msg_queue (f (awaiting i s)) ! ?qi) \<and>
      msgs ?qi (f (awaiting i s)) = x # xs \<and> q_front (msg_queue (f (awaiting i s)) ! ?qi) \<noteq> 199"
    show "wp recv (\<lambda>r t d. r = (0, Some (delivered x)) \<and> d = e \<and> held t = [] \<and> msgs ?qi t = xs \<and> mq_inv (msg_queue t ! ?qi) \<and>
        q_front (msg_queue t ! ?qi) = q_front (msg_queue (f (awaiting i s)) ! ?qi) + 1 \<and> msg_queue t = (msg_queue (f (awaiting i s)))[?qi := msg_queue t ! ?qi]) s (f # e)"
      by (rule wp_mono [OF recv_sleeps(2) [OF _ len p1 qi(2) empty lk]]) (use h x q(1) qi(2) in auto)
  qed (use delivered_text [OF x] in simp)
qed

definition empty_queue :: msgq where
  "empty_queue = \<lparr>q_front = 0, q_rear = 0, q_size = 0, q_array = replicate MSGBUFFSIZE (replicate MSGSIZE 0)\<rparr>"

definition ipc_demo :: ipcst where
  "ipc_demo = trcst.extend (trc_demo\<lparr>cur := Some 3\<rparr>)
     (ipcst.fields (replicate NPROC empty_queue) (replicate NPROC (0, 0)) 0 (replicate MSGSIZE 0))"

lemma ipc_demo_fields [simp]:
  "ptable ipc_demo = ptable proc_demo" "nextpid ipc_demo = nextpid proc_demo" "held ipc_demo = []" "cur ipc_demo = Some 3"
  "msg_queue ipc_demo = replicate NPROC empty_queue" "bsmap ipc_demo = replicate NPROC (0, 0)" "map_len ipc_demo = 0"
  by (simp_all add: ipc_demo_def trcst.extend_def ipcst.fields_def trc_demo_def procst.extend_def trcst.fields_def proc_demo_def)

lemma empty_queue_ok [simp]: "mq_inv empty_queue" "mq_contents empty_queue = []"
  by (simp_all add: mq_inv_def mq_contents_def empty_queue_def)

text \<open>
  The process with identifier 2 receives while its queue is empty; the process with identifier 1 sends to it while it sleeps, and
  then sends it a second message, which it receives at once.
\<close>

definition hi :: "u8 list" where "hi = map of_char ''hi there''"
definition yo :: "u8 list" where "yo = [0x79, 0x6F, 0, 1, 2, 3, 4, 5]"

definition hi_sent :: "ipcst \<Rightarrow> ipcst" where
  "hi_sent u = (case send 1 2 hi (u\<lparr>held := []\<rparr>) [] of Ret r t e \<Rightarrow> t\<lparr>held := [PtableLk]\<rparr> | _ \<Rightarrow> u)"

definition yo_demo :: ipcst where
  "yo_demo = ipc_demo\<lparr>msg_queue := (msg_queue ipc_demo)[1 := empty_queue\<lparr>q_rear := 1, q_size := 1, q_array := (q_array empty_queue)[1 := yo]\<rparr>]\<rparr>"

lemma awaiting_pids: "pids_ok (ptable (awaiting 3 ipc_demo)) (nextpid (awaiting 3 ipc_demo))"
  unfolding awaiting_def by simp (rule pids_ok_update [OF proc_demo_pids], simp_all add: proc_demo_def)

theorem send_recv_fifo_witness:
  "recv ipc_demo [] = Stuck \<and>
   wp recv (\<lambda>r t d. r = (0, Some hi) \<and> msgs 1 t = []) ipc_demo [hi_sent] \<and>
   wp recv (\<lambda>r t d. r = (0, Some (0x79 # 0x6F # replicate 6 0)) \<and> msgs 1 t = []) yo_demo []"
proof (intro conjI)
  have dem: "pids_ok (ptable ipc_demo) (nextpid ipc_demo)" "p_pid (ptable ipc_demo ! 3) = 2" "length hi = MSGSIZE" "0 \<notin> set hi"
    "length yo = MSGSIZE"
    using proc_demo_pids by (simp_all add: proc_demo_def hi_def yo_def)
  show "recv ipc_demo [] = Stuck"
    using send_recv_fifo [of ipc_demo 3 2 hi 1 "[]" "[]" id] dem by (simp add: msgs_def)
  define u where "u = awaiting 3 ipc_demo\<lparr>held := []\<rparr>"
  have u: "pids_ok (ptable u) (nextpid u)" "p_pid (ptable u ! 3) = 2" "held u = []" "length (msg_queue u) = NPROC"
      "mq_inv (msg_queue u ! 1)" "msgs 1 u = []" "q_front (msg_queue u ! 1) = 0"
    using awaiting_pids by (simp_all add: u_def awaiting_def proc_demo_def msgs_def empty_queue_def mq_inv_def mq_contents_def)
  have len: "length (msg_queue t) = NPROC" if "t = u\<lparr>ptable := a, msg_queue := (msg_queue u)[Suc 0 := b]\<rparr>" for t a b
    by (simp add: that u(4))
  have "wp (send 1 2 hi) (\<lambda>r t d. msgs 1 t = [hi] \<and> mq_inv (msg_queue t ! 1) \<and> length (msg_queue t) = NPROC \<and>
      q_front (msg_queue t ! 1) = 0) u []"
    using send_recv_fifo [of u 3 2 hi 1 "[]" "[]" id, THEN conjunct1] u dem(3) by (simp, elim wp_mono) (auto dest: len)
  then show "wp recv (\<lambda>r t d. r = (0, Some hi) \<and> msgs 1 t = []) ipc_demo [hi_sent]"
    using send_recv_fifo [of ipc_demo 3 2 hi 1 "[]" "[]" hi_sent] dem delivered_text [of hi]
    by (auto simp: hi_sent_def wp_def msgs_def u_def split: result.splits)
  show "wp recv (\<lambda>r t d. r = (0, Some (0x79 # 0x6F # replicate 6 0)) \<and> msgs 1 t = []) yo_demo []"
    using send_recv_fifo [of yo_demo 3 2 yo 1 "[]" "[]" id] dem
    by (auto simp: yo_demo_def msgs_def mq_contents_def mq_inv_def empty_queue_def delivered_def yo_def elim!: wp_mono)
qed

text \<open>
  C22. The array's wrap is not handled by \<open>front\<close>: when the front index is the last of the array, receiving reads
  the row after the last one, although the queue holds a message and \<open>dequeue\<close> itself wraps. The front
  index gets there after 199 messages.
\<close>
theorem recv_reads_past_array:
  assumes "cur s = Some c" and "c < length (ptable s)" and "1 \<le> p_pid (ptable s ! c)"
    and "nat (p_pid (ptable s ! c) - 1) < length (msg_queue s)" and "MsgLk (nat (p_pid (ptable s ! c) - 1)) \<notin> set (held s)"
    and "mq_inv (msg_queue s ! nat (p_pid (ptable s ! c) - 1))" and "msgs (nat (p_pid (ptable s ! c) - 1)) s \<noteq> []"
    and "q_front (msg_queue s ! nat (p_pid (ptable s ! c) - 1)) = 199"
  shows "recv s e = Fault ''front''"
proof -
  define q where "q = msg_queue s ! nat (p_pid (ptable s ! c) - 1)"
  have "q_size q \<noteq> 0" using assms(7) by (auto simp: msgs_def q_def mq_contents_def)
  moreover have "front q = 200" "length (q_array q) = 200" using assms(6,8) by (simp_all add: q_def front_def mq_inv_def)
  ultimately show ?thesis using assms(1-5)
    by (simp add: recv_def queue_of_def setq_def curproc_def myproc_def getp_def lock_def monad_defs dequeue_def isEmpty_def q_def)
qed

definition wrap_demo :: ipcst where
  "wrap_demo = ipc_demo\<lparr>msg_queue := (msg_queue ipc_demo)[1 := empty_queue\<lparr>q_front := 199, q_rear := 0, q_size := 1\<rparr>]\<rparr>"

theorem recv_reads_past_array_witness: "recv wrap_demo [] = Fault ''front''"
  by (rule recv_reads_past_array [of _ 3])
    (simp_all add: wrap_demo_def proc_demo_def msgs_def mq_contents_def mq_inv_def empty_queue_def)

text \<open>
  C23. A full queue costs its lock: sending to a process whose queue is full returns -1 with the queue's lock held, and the next operation of the
  same processor on that queue panics in \<open>acquire\<close>.
\<close>
theorem send_full_keeps_lock:
  assumes tab: "pids_ok (ptable s) (nextpid s)" and i: "i < NPROC" "p_pid (ptable s ! i) = pid" "0 < pid" "pid \<le> 64"
    and st: "p_state (ptable s ! i) \<noteq> SLEEPING"
    and q: "length (msg_queue s) = NPROC" "mq_inv (msg_queue s ! nat (pid - 1))" "length (msgs (nat (pid - 1)) s) = MSGBUFFSIZE"
    and lk: "MsgLk (nat (pid - 1)) \<notin> set (held s)"
  shows "send me pid m s e = Ret (- 1) (s\<lparr>held := MsgLk (nat (pid - 1)) # held s\<rparr>) e \<and>
    bind (send me pid m) (\<lambda>_. send me pid m') s e = Panic ''acquire''"
proof -
  have len: "length (ptable s) = NPROC" using tab by (simp add: pids_ok_def)
  have full: "enqueue (msg_queue s ! nat (pid - 1)) x = None" for x using q mq.push_full by (simp add: msgs_def)
  have fp: "find_proc pid (ptable s) = i" by (rule find_proc_index [OF tab i(1-3)])
  have "send me pid m s e = Ret (- 1) (s\<lparr>held := MsgLk (nat (pid - 1)) # held s\<rparr>) e"
    using st i len fp q(1) lk full by (simp add: send_def send_enqueue_def queue_of_def getp_def lock_def monad_defs Let_def)
  moreover have "send me pid m' (s\<lparr>held := MsgLk (nat (pid - 1)) # held s\<rparr>) e = Panic ''acquire''"
    using st i len fp q(1) by (simp add: send_def send_enqueue_def queue_of_def getp_def lock_def monad_defs Let_def)
  ultimately show ?thesis by (simp add: bind_def)
qed

definition full_demo :: ipcst where
  "full_demo = ipc_demo\<lparr>msg_queue := (msg_queue ipc_demo)[1 := empty_queue\<lparr>q_front := 5, q_rear := 5, q_size := 200\<rparr>]\<rparr>"

theorem send_full_keeps_lock_witness:
  "send 1 2 (replicate 8 65) full_demo [] = Ret (- 1) (full_demo\<lparr>held := [MsgLk 1]\<rparr>) []"
  using send_full_keeps_lock [of full_demo 3 2 1 "replicate 8 65" "[]" "[]"] proc_demo_pids
  by (simp add: full_demo_def proc_demo_def msgs_def mq_inv_def empty_queue_def)

text \<open>
  C24. \<open>recv\<close> does not look again after its sleep: woken while its queue is still empty, as by \<open>kill\<close>, it returns -1 with the
  queue's lock held.
\<close>
theorem recv_woken_empty_keeps_lock:
  assumes c: "cur s = Some c" "c < length (ptable s)" "1 \<le> p_pid (ptable s ! c)"
    and qi: "qi = nat (p_pid (ptable s ! c) - 1)" "qi < length (msg_queue s)"
    and em: "q_size (msg_queue s ! qi) = 0" and h: "held s = []"
    and f: "\<And>u. msg_queue (f u) = msg_queue u \<and> held (f u) = held u"
  shows "wp recv (\<lambda>r t d. r = (- 1, None) \<and> held t = [MsgLk qi] \<and> d = e) s (f # e)"
proof -
  have "dequeue (msg_queue s ! qi) = None" using em by (simp add: dequeue_def isEmpty_def)
  then show ?thesis using assms
    by (simp add: recv_def queue_of_def sleep_def wp_rules)
qed

theorem recv_woken_empty_keeps_lock_witness:
  "wp recv (\<lambda>r t d. r = (- 1, None) \<and> held t = [MsgLk 1] \<and> d = []) ipc_demo [id]"
  by (rule recv_woken_empty_keeps_lock [of _ 3]) (simp_all add: proc_demo_def empty_queue_def)

text \<open>
  C25. The queues are indexed by process identifiers, which are never reused: a message to a process whose identifier is above 64 is written
  outside the array of queues.
\<close>
theorem send_pid_outside_queues:
  assumes "pids_ok (ptable s) (nextpid s)" and "i < NPROC" and "p_pid (ptable s ! i) = pid" and "64 < pid"
    and "p_state (ptable s ! i) \<noteq> SLEEPING" and "length (msg_queue s) = NPROC"
  shows "send me pid m s e = Fault ''msg_queue''"
proof -
  have "length (ptable s) = NPROC" using assms(1) by (simp add: pids_ok_def)
  moreover have "find_proc pid (ptable s) = i" by (rule find_proc_index) (use assms in simp_all)
  moreover have "\<not> nat (pid - 1) < NPROC" using assms(4) by linarith
  ultimately show ?thesis using assms by (simp add: send_def send_enqueue_def queue_of_def getp_def monad_defs Let_def)
qed

definition pid_demo :: ipcst where
  "pid_demo = ipc_demo\<lparr>ptable := (ptable proc_demo)[3 := (ptable proc_demo ! 3)\<lparr>p_pid := 65\<rparr>], nextpid := 66\<rparr>"

theorem send_pid_outside_queues_witness: "send 1 65 (replicate 8 65) pid_demo [] = Fault ''msg_queue''"
  by (rule send_pid_outside_queues [of _ 3])
    (auto simp: pid_demo_def proc_demo_def free_proc_def pids_ok_def nth_list_update_if)

end
