(* ===== verification/Container.thy ===== *)
theory Container
  imports Ipc
begin

text \<open>
  Containers, \<open>proc.c\<close>: a table of \<open>NCONTAINER\<close> containers with a flag for each, the index \<open>c_pointer\<close> of a free one, and in each
  container a table of copies of the processes that joined it. \<open>create_container\<close> copies a structure from its stack of which
  \<open>init_container\<close> sets some fields only; the other fields are what the stack held, the argument \<open>junk\<close>.

  The body of \<open>container_malloc\<close> does not fit the declaration of \<open>kvmalloc\<close> in \<open>defs.h\<close>: it passes an argument and
  uses a result. C gives it no meaning, which is a \<open>Fault\<close> here.

  Shown here: creating and destroying containers implement a set of identifiers; what joining and leaving do to a process.
\<close>

abbreviation NCONTAINER :: nat where "NCONTAINER \<equiv> 2"
abbreviation NPROC_CONTAINER :: nat where "NPROC_CONTAINER \<equiv> 2"
abbreviation MAX_PAGES :: nat where "MAX_PAGES \<equiv> 8"
abbreviation MAX_FILES :: nat where "MAX_FILES \<equiv> 8"

record container =
  k_id :: int
  k_active :: int
  process_table :: "proc list"
  process_active :: "int list"
  process_pointer :: int
  page_table :: "int list"
  page_active :: "int list"
  page_pointer :: int
  file_descripter :: "int list"
  file_active :: "int list"
  file_pointer :: int

record cntst = ipcst +
  container_table :: "container list"
  c_active :: "int list"
  c_pointer :: int

definition init_container :: "container \<Rightarrow> int \<Rightarrow> container" where
  "init_container c t_id = c\<lparr>k_id := t_id, k_active := 1,
     process_active := replicate NPROC_CONTAINER 0,
     page_active := replicate MAX_PAGES 0,
     file_active := replicate MAX_FILES 0,
     process_pointer := 0, page_pointer := 0, file_pointer := 0\<rparr>"

definition procstate_int :: "procstate \<Rightarrow> int" where
  "procstate_int st = (case st of UNUSED \<Rightarrow> 0 | EMBRYO \<Rightarrow> 1 | SLEEPING \<Rightarrow> 2 | RUNNABLE \<Rightarrow> 3 | RUNNING \<Rightarrow> 4 | ZOMBIE \<Rightarrow> 5)"

abbreviation AI :: "int \<Rightarrow> fmtarg" where "AI n \<equiv> AInt (of_int n)"

definition print_c_table :: "('z cntst_scheme, unit) kop" where
  "print_c_table = andthen (cprintf ''conatiner_table:\<newline>'' [])
    (forM [0..<NCONTAINER] (\<lambda>i. bind (gets container_table) (\<lambda>tab. bind (gets c_active) (\<lambda>act.
       andthen (cprintf ''id: %d active: %d\<newline>'' [AI (k_id (tab ! i)), AI (act ! i)])
      (forM [0..<NPROC_CONTAINER] (\<lambda>j.
         cprintf (CHR 0x09 # '' process_id: %d active bit: %d state: %d c_id: %d\<newline>'')
          [AI (p_pid (process_table (tab ! i) ! j)), AI (process_active (tab ! i) ! j),
           AI (procstate_int (p_state (process_table (tab ! i) ! j))),
           AI (p_container_id (process_table (tab ! i) ! j))]))))))"

text \<open>The two loops that look for a free entry: first from \<open>from + 1\<close> on, then from 0 up to \<open>from\<close>.\<close>

definition next_free :: "int list \<Rightarrow> nat \<Rightarrow> int \<Rightarrow> int" where
  "next_free act n from =
     (case find (\<lambda>i. act ! i = 0) [nat (from + 1)..<n] of
        Some i \<Rightarrow> int i
      | None \<Rightarrow> (case find (\<lambda>i. act ! i = 0) [0..<nat from] of Some i \<Rightarrow> int i | None \<Rightarrow> - 1))"

definition create_container :: "container \<Rightarrow> ('z cntst_scheme, int) kop" where
  "create_container junk =
     andthen (cprintf ''in create_container\<newline>'' [])
    (bind (gets c_pointer) (\<lambda>cp.
     if cp = - 1 then andthen (cprintf ''container_table full\<newline>'' []) (return (- 1))
     else
       andthen (modify (\<lambda>s. s\<lparr>c_active := (c_active s)[nat cp := 1]\<rparr>))
      (andthen (modify (\<lambda>s. s\<lparr>container_table := (container_table s)[nat cp := init_container junk cp]\<rparr>))
      (andthen print_c_table
      (andthen (modify (\<lambda>s. s\<lparr>c_pointer := next_free (c_active s) NCONTAINER cp\<rparr>))
       (return cp))))))"

definition destroy_container :: "int \<Rightarrow> ('z cntst_scheme, int) kop" where
  "destroy_container cid =
     andthen (cprintf ''in destroy_container\<newline>'' [])
    (if cid < 0 \<or> cid \<ge> int NCONTAINER then return (- 1)
     else bind (gets c_active) (\<lambda>act.
       if act ! nat cid = 0 then return (- 1)
       else
         andthen (modify (\<lambda>s. s\<lparr>c_active := (c_active s)[nat cid := 0]\<rparr>))
        (andthen (modify (\<lambda>s. if c_pointer s = - 1 then s\<lparr>c_pointer := cid\<rparr> else s))
        (andthen print_c_table (return 0)))))"

text \<open>The container \<open>cid\<close> of the table changed by \<open>f\<close>.\<close>

definition setc :: "int \<Rightarrow> (container \<Rightarrow> container) \<Rightarrow> ('z cntst_scheme, unit) kop" where
  "setc cid f = modify (\<lambda>s. s\<lparr>container_table := (container_table s)[nat cid := f (container_table s ! nat cid)]\<rparr>)"

definition join_container :: "int \<Rightarrow> ('z cntst_scheme, int) kop" where
  "join_container cid =
     andthen (cprintf ''in join_container\<newline>'' [])
    (bind (gets c_active) (\<lambda>act.
     if cid < 0 \<or> cid \<ge> int NCONTAINER \<or> act ! nat cid = 0 then return (- 1)
     else bind (gets (\<lambda>s. process_pointer (container_table s ! nat cid))) (\<lambda>pointer.
     if pointer = - 1 then return (- 1)
     else bind curproc (\<lambda>c. bind (getp c) (\<lambda>me. bind (gets c_pointer) (\<lambda>cp.
       let p = me\<lparr>p_container_id := cp, p_cont := Some (nat cid)\<rparr> in
       andthen (setc cid (\<lambda>k. k\<lparr>process_table := (process_table k)[nat pointer := p],
          process_active := (process_active k)[nat pointer := 1]\<rparr>))
      (andthen print_c_table
      (andthen (setc cid (\<lambda>k. k\<lparr>process_pointer := next_free (process_active k) NPROC_CONTAINER cp\<rparr>))
       (return 0)))))))))"

text \<open>\<open>leave_container\<close> works on a copy of the process: only the container's table changes.\<close>

definition leave_container :: "('z cntst_scheme, int) kop" where
  "leave_container =
     andthen (cprintf ''in leave_container\<newline>'' [])
    (bind curproc (\<lambda>c. bind (getp c) (\<lambda>p. bind (gets c_active) (\<lambda>act.
     let cid = p_container_id p in
     if cid < 0 \<or> cid \<ge> int NCONTAINER \<or> act ! nat cid = 0 then return (- 1)
     else
       andthen (setc cid (\<lambda>k.
         case find (\<lambda>i. p_pid (process_table k ! i) = p_pid p \<and> process_active k ! i = 1) [0..<NPROC_CONTAINER] of
           Some i \<Rightarrow> k\<lparr>process_active := (process_active k)[i := 0]\<rparr>
         | None \<Rightarrow> k))
      (andthen print_c_table (return 0))))))"

definition container_malloc :: "int \<Rightarrow> ('z cntst_scheme, int) kop" where
  "container_malloc n = andthen (cprintf ''in container_malloc\<newline>'' []) (fault ''kvmalloc'')"

section \<open>The table as a set\<close>

definition container_inv :: "'z cntst_scheme \<Rightarrow> bool" where
  "container_inv s \<longleftrightarrow> length (c_active s) = NCONTAINER \<and> length (container_table s) = NCONTAINER \<and>
     (if c_pointer s = - 1 then \<forall>i<NCONTAINER. c_active s ! i \<noteq> 0
      else 0 \<le> c_pointer s \<and> c_pointer s < int NCONTAINER \<and> c_active s ! nat (c_pointer s) = 0)"

definition active_set :: "'z cntst_scheme \<Rightarrow> nat set" where
  "active_set s = {i. i < NCONTAINER \<and> c_active s ! i \<noteq> 0}"

lemma prints_c_table: "prints print_c_table"
  unfolding print_c_table_def by (intro prints_intros) simp_all

text \<open>Where \<open>next_free\<close> finds an entry, and when it finds none.\<close>

lemma next_free_ok:
  assumes "from \<ge> - 1" and "from < int n"
  shows "if next_free act n from = - 1 then \<forall>i<n. int i \<noteq> from \<longrightarrow> act ! i \<noteq> 0
    else 0 \<le> next_free act n from \<and> next_free act n from < int n \<and> act ! nat (next_free act n from) = 0 \<and> next_free act n from \<noteq> from"
proof (cases "find (\<lambda>i. act ! i = 0) [nat (from + 1)..<n]")
  case (Some i)
  then have "i \<in> set [nat (from + 1)..<n]" "act ! i = 0" by (auto simp: find_Some_iff)
  then show ?thesis using Some assms by (auto simp: next_free_def)
next
  case None
  then have hi: "\<forall>i. from < int i \<longrightarrow> i < n \<longrightarrow> act ! i \<noteq> 0" by (auto simp: find_None_iff)
  show ?thesis
  proof (cases "find (\<lambda>i. act ! i = 0) [0..<nat from]")
    case (Some i)
    then have "i \<in> set [0..<nat from]" "act ! i = 0" by (auto simp: find_Some_iff)
    then show ?thesis using None Some assms by (auto simp: next_free_def)
  next
    case None2: None
    then have "\<forall>i. int i < from \<longrightarrow> act ! i \<noteq> 0" by (auto simp: find_None_iff)
    then show ?thesis using hi None None2 by (auto simp: next_free_def) (metis linorder_cases)
  qed
qed

text \<open>The console is ready for output.\<close>

definition con_ready :: "'z mach_scheme \<Rightarrow> bool" where
  "con_ready s \<longleftrightarrow> con_ok (con s) \<and> ConsLk \<notin> set (held s)"

lemma wp_prints_ready:
  assumes "prints m" and "con_ready s" and "\<And>k. con_ok k \<Longrightarrow> Q () (s\<lparr>con := k\<rparr>) e"
  shows "wp m Q s e"
  using assms by (intro wp_prints) (auto simp: con_ready_def)

lemma prints_text: "fmt_text fmt [] \<noteq> None \<Longrightarrow> prints (cprintf fmt [])"
  by (rule prints_cprintf)

lemma container_inv_con [simp]: "container_inv (s\<lparr>con := k\<rparr>) = container_inv s" "active_set (s\<lparr>con := k\<rparr>) = active_set s"
  by (simp_all add: container_inv_def active_set_def)

lemma cnt_con_commute [simp]:
  "s\<lparr>con := k, c_pointer := p\<rparr> = s\<lparr>c_pointer := p, con := k\<rparr>"
  "s\<lparr>con := k, c_active := a\<rparr> = s\<lparr>c_active := a, con := k\<rparr>"
  "s\<lparr>con := k, container_table := tb\<rparr> = s\<lparr>container_table := tb, con := k\<rparr>"
  by (rule cntst.equality; simp)+

lemma create_full:
  assumes "con_ready s" and "c_pointer s = - 1"
  shows "wp (create_container junk) (\<lambda>r t d. r = - 1 \<and> (\<exists>k. t = s\<lparr>con := k\<rparr>) \<and> d = e) s e"
  unfolding create_container_def wp_andthen wp_bind wp_gets
  by (rule wp_prints_ready [OF prints_text])
    (use assms in \<open>auto simp: con_ready_def wp_return wp_andthen intro!: wp_prints_ready [OF prints_text]\<close>)

definition created :: "container \<Rightarrow> 'z cntst_scheme \<Rightarrow> 'z cntst_scheme" where
  "created junk s = (let cp = c_pointer s; act = (c_active s)[nat cp := 1] in
     s\<lparr>c_active := act, container_table := (container_table s)[nat cp := init_container junk cp],
       c_pointer := next_free act NCONTAINER cp\<rparr>)"

lemma create_free:
  assumes "con_ready s" and "c_pointer s \<noteq> - 1"
  shows "wp (create_container junk) (\<lambda>r t d. r = c_pointer s \<and> (\<exists>k. t = (created junk s)\<lparr>con := k\<rparr>) \<and> d = e) s e"
  unfolding create_container_def wp_andthen wp_bind wp_gets
  by (rule wp_prints_ready [OF prints_text])
    (use assms in \<open>auto simp: wp_andthen wp_modify wp_return con_ready_def created_def Let_def
        intro!: wp_prints_ready [OF prints_c_table]\<close>)

definition destroyed :: "int \<Rightarrow> 'z cntst_scheme \<Rightarrow> 'z cntst_scheme" where
  "destroyed cid s = s\<lparr>c_active := (c_active s)[nat cid := 0], c_pointer := (if c_pointer s = - 1 then cid else c_pointer s)\<rparr>"

lemma destroy_active:
  assumes "con_ready s" and "0 \<le> cid" and "cid < int NCONTAINER" and "c_active s ! nat cid \<noteq> 0"
  shows "wp (destroy_container cid) (\<lambda>r t d. r = 0 \<and> (\<exists>k. t = (destroyed cid s)\<lparr>con := k\<rparr>) \<and> d = e) s e"
  unfolding destroy_container_def wp_andthen
  by (rule wp_prints_ready [OF prints_text])
    (use assms in \<open>auto simp: con_ready_def wp_rules destroyed_def intro!: wp_prints_ready [OF prints_c_table]\<close>)

lemma destroy_inactive:
  assumes "con_ready s" and "\<not> (0 \<le> cid \<and> cid < int NCONTAINER \<and> c_active s ! nat cid \<noteq> 0)"
  shows "wp (destroy_container cid) (\<lambda>r t d. r = - 1 \<and> (\<exists>k. t = s\<lparr>con := k\<rparr>) \<and> d = e) s e"
  unfolding destroy_container_def wp_andthen
  by (rule wp_prints_ready [OF prints_text])
    (use assms in \<open>auto simp: con_ready_def wp_rules intro!: wp_prints_ready [OF prints_c_table]\<close>)

lemma created_ok:
  assumes "container_inv s" and "c_pointer s \<noteq> - 1"
  shows "container_inv (created junk s)" "active_set (created junk s) = insert (nat (c_pointer s)) (active_set s)"
    "nat (c_pointer s) \<notin> active_set s" "container_table (created junk s) ! nat (c_pointer s) = init_container junk (c_pointer s)"
    "0 \<le> c_pointer s"
proof -
  have r: "0 \<le> c_pointer s" "c_pointer s < 2" "length (c_active s) = 2" "length (container_table s) = 2"
      "c_active s ! nat (c_pointer s) = 0"
    using assms by (auto simp: container_inv_def)
  have "nat (c_pointer s) < 2" using r by simp
  then have nth: "(c_active s)[nat (c_pointer s) := 1] ! i = (if i = nat (c_pointer s) then 1 else c_active s ! i)" for i
    using r(3) by (simp add: nth_list_update_if)
  show "container_inv (created junk s)"
  proof (cases "next_free ((c_active s)[nat (c_pointer s) := 1]) 2 (c_pointer s) = - 1")
    case True
    have "c_active s ! i \<noteq> 0" if "i < 2" "i \<noteq> nat (c_pointer s)" for i
    proof -
      have "int i \<noteq> c_pointer s" using that by auto
      then show ?thesis
        using next_free_ok [of "c_pointer s" 2 "(c_active s)[nat (c_pointer s) := 1]"] True r(1,2) that by (simp add: nth)
    qed
    then show ?thesis using True r by (auto simp: container_inv_def created_def Let_def nth)
  next
    case False
    then show ?thesis
      using next_free_ok [of "c_pointer s" 2 "(c_active s)[nat (c_pointer s) := 1]"] r
      by (simp add: container_inv_def created_def Let_def)
  qed
  show "active_set (created junk s) = insert (nat (c_pointer s)) (active_set s)"
    using \<open>nat (c_pointer s) < 2\<close> by (auto simp: active_set_def created_def Let_def nth)
  show "nat (c_pointer s) \<notin> active_set s" using r by (simp add: active_set_def)
  show "container_table (created junk s) ! nat (c_pointer s) = init_container junk (c_pointer s)"
    using r by (simp add: created_def Let_def)
  show "0 \<le> c_pointer s" by (fact r)
qed

lemma active_set_full:
  assumes "container_inv s"
  shows "c_pointer s = - 1 \<longleftrightarrow> active_set s = {0..<NCONTAINER}"
proof (cases "c_pointer s = - 1")
  case False
  then have "nat (c_pointer s) \<notin> active_set s" "nat (c_pointer s) < NCONTAINER"
    using assms by (auto simp: container_inv_def active_set_def)
  then show ?thesis using False by auto
qed (use assms in \<open>auto simp: container_inv_def active_set_def\<close>)

text \<open>What \<open>join_container\<close> leaves in the table when it succeeds.\<close>

definition joined :: "nat \<Rightarrow> int \<Rightarrow> 'z cntst_scheme \<Rightarrow> 'z cntst_scheme" where
  "joined c cid s = (let k = container_table s ! nat cid; p = process_pointer k; act = (process_active k)[nat p := 1] in
     s\<lparr>container_table := (container_table s)[nat cid := k\<lparr>process_table := (process_table k)
        [nat p := (ptable s ! c)\<lparr>p_container_id := c_pointer s, p_cont := Some (nat cid)\<rparr>],
        process_active := act, process_pointer := next_free act NPROC_CONTAINER (c_pointer s)\<rparr>]\<rparr>)"

lemma join_ok:
  assumes "con_ready s" and "container_inv s" and "nat cid \<in> active_set s" and "0 \<le> cid"
    and "process_pointer (container_table s ! nat cid) \<noteq> - 1" and "cur s = Some c" and "c < length (ptable s)"
  shows "wp (join_container cid) (\<lambda>r t d. r = 0 \<and> (\<exists>k. con_ok k \<and> t = (joined c cid s)\<lparr>con := k\<rparr>) \<and> d = e) s e"
  unfolding join_container_def wp_andthen
  by (rule wp_prints_ready [OF prints_text])
    (use assms in \<open>auto simp: wp_rules setc_def Let_def active_set_def container_inv_def con_ready_def joined_def
        intro!: wp_prints_ready [OF prints_c_table]\<close>)

lemma leave_outside:
  assumes "con_ready s" and "cur s = Some c" and "c < length (ptable s)" and "p_container_id (ptable s ! c) = - 1"
  shows "wp leave_container (\<lambda>r t d. r = - 1 \<and> (\<exists>k. con_ok k \<and> t = s\<lparr>con := k\<rparr>) \<and> d = e) s e"
  unfolding leave_container_def wp_andthen
  by (rule wp_prints_ready [OF prints_text]) (use assms in \<open>auto simp: wp_rules con_ready_def\<close>)

lemma join_full:
  assumes "con_ready s" and "container_inv s" and "process_pointer (container_table s ! nat cid) = - 1"
  shows "wp (join_container cid) (\<lambda>r t d. r = - 1 \<and> (\<exists>k. con_ok k \<and> t = s\<lparr>con := k\<rparr>) \<and> d = e) s e"
  unfolding join_container_def wp_andthen
  by (rule wp_prints_ready [OF prints_text]) (use assms in \<open>auto simp: wp_rules con_ready_def\<close>)

lemma destroyed_ok:
  assumes "container_inv s" and "0 \<le> cid" and "cid < int NCONTAINER" and "c_active s ! nat cid \<noteq> 0"
  shows "container_inv (destroyed cid s)" "active_set (destroyed cid s) = active_set s - {nat cid}"
proof -
  have len: "length (c_active s) = 2" "length (container_table s) = 2" "nat cid < 2" using assms by (auto simp: container_inv_def)
  have nth: "(c_active s)[nat cid := 0] ! i = (if i = nat cid then 0 else c_active s ! i)" for i
    using len by (simp add: nth_list_update_if)
  show "container_inv (destroyed cid s)"
    using assms(1-3) len by (cases "c_pointer s = - 1") (simp_all add: container_inv_def destroyed_def nth)
  show "active_set (destroyed cid s) = active_set s - {nat cid}"
    by (auto simp: active_set_def destroyed_def nth)
qed

lemma int_image_iff: "i \<in> int ` A \<longleftrightarrow> 0 \<le> i \<and> nat i \<in> A"
  by (auto intro: image_eqI [of i int "nat i"])

section \<open>Properties\<close>

text \<open>The contract: a set of identifiers below \<open>NCONTAINER\<close>, where an outcome is a result and the set afterwards.\<close>

definition spec_create :: "nat set \<Rightarrow> (int \<times> nat set) set" where
  "spec_create A = (if A = {0..<NCONTAINER} then {(- 1, A)} else {(int i, insert i A) | i. i < NCONTAINER \<and> i \<notin> A})"

lemma spec_create_new: "i < NCONTAINER \<Longrightarrow> i \<notin> A \<Longrightarrow> A \<noteq> {0..<NCONTAINER} \<Longrightarrow> (int i, insert i A) \<in> spec_create A"
  unfolding spec_create_def by auto

definition spec_destroy :: "int \<Rightarrow> nat set \<Rightarrow> int \<times> nat set" where
  "spec_destroy cid A = (if cid \<in> int ` A then (0, A - {nat cid}) else (- 1, A))"

text \<open>
  C31. The container table implements a set of identifiers: on every table of the invariant, \<open>create_container\<close> returns
  an identifier that was not in use and adds it, or -1 exactly when all are in use; \<open>destroy_container\<close>
  removes the one it is given and answers -1 to any number that is not in use, in range or not. Both
  keep the invariant, so the next free index is right after any sequence of them.
\<close>
theorem container_table_refines_set:
  assumes "container_inv s" and "con_ready s"
  shows "wp (create_container junk) (\<lambda>r t d. d = e \<and> container_inv t \<and> (r, active_set t) \<in> spec_create (active_set s)) s e \<and>
    wp (destroy_container cid) (\<lambda>r t d. d = e \<and> container_inv t \<and> (r, active_set t) = spec_destroy cid (active_set s)) s e"
proof
  show "wp (create_container junk) (\<lambda>r t d. d = e \<and> container_inv t \<and> (r, active_set t) \<in> spec_create (active_set s)) s e"
  proof (cases "c_pointer s = - 1")
    case True
    then have "spec_create (active_set s) = {(- 1, active_set s)}"
      using active_set_full [OF assms(1)] by (simp add: spec_create_def)
    then show ?thesis
      by (intro wp_mono [OF create_full [OF assms(2) True]]) (use assms(1) in auto)
  next
    case False
    have "active_set s \<noteq> {0..<NCONTAINER}" using False active_set_full [OF assms(1)] by simp
    moreover have "nat (c_pointer s) < NCONTAINER" using False assms(1) by (auto simp: container_inv_def)
    ultimately have "(c_pointer s, insert (nat (c_pointer s)) (active_set s)) \<in> spec_create (active_set s)"
      using spec_create_new [OF _ created_ok(3) [OF assms(1) False]] created_ok(5) [OF assms(1) False] by simp
    then show ?thesis
      by (intro wp_mono [OF create_free [OF assms(2) False]], elim conjE exE) (simp add: created_ok(1,2) [OF assms(1) False])
  qed
  have mem: "cid \<in> int ` active_set s \<longleftrightarrow> 0 \<le> cid \<and> cid < int NCONTAINER \<and> c_active s ! nat cid \<noteq> 0"
    unfolding int_image_iff by (auto simp: active_set_def)
  show "wp (destroy_container cid) (\<lambda>r t d. d = e \<and> container_inv t \<and> (r, active_set t) = spec_destroy cid (active_set s)) s e"
  proof (cases "cid \<in> int ` active_set s")
    case True
    then have v: "0 \<le> cid" "cid < int NCONTAINER" "c_active s ! nat cid \<noteq> 0" unfolding mem by auto
    show ?thesis
      by (rule wp_mono [OF destroy_active [OF assms(2) v]], elim conjE exE)
        (simp add: spec_destroy_def True destroyed_ok [OF assms(1) v])
  next
    case False
    then show ?thesis
      by (intro wp_mono [OF destroy_inactive [OF assms(2) False [unfolded mem]]], elim conjE exE)
        (simp add: spec_destroy_def assms(1))
  qed
qed

definition empty_container :: container where
  "empty_container = \<lparr>k_id = 0, k_active = 0, process_table = replicate NPROC_CONTAINER free_proc,
     process_active = [0, 0], process_pointer = 0, page_table = replicate MAX_PAGES 0,
     page_active = replicate MAX_PAGES 0, page_pointer = 0, file_descripter = replicate MAX_FILES 0,
     file_active = replicate MAX_FILES 0, file_pointer = 0\<rparr>"

text \<open>One container in use, the other free.\<close>

definition cnt_demo :: cntst where
  "cnt_demo = ipcst.extend ipc_demo (cntst.fields [empty_container\<lparr>k_active := 1\<rparr>, empty_container] [1, 0] 1)"

lemma cnt_demo_fields [simp]:
  "container_table cnt_demo = [empty_container\<lparr>k_active := 1\<rparr>, empty_container]" "c_active cnt_demo = [1, 0]"
  "c_pointer cnt_demo = 1" "cur cnt_demo = Some 3" "ptable cnt_demo = ptable proc_demo" "held cnt_demo = []" "con cnt_demo = con_demo"
  by (simp_all add: cnt_demo_def ipcst.extend_def cntst.fields_def ipc_demo_def trcst.extend_def ipcst.fields_def
      trc_demo_def procst.extend_def trcst.fields_def proc_demo_def)

lemma cnt_demo_ok: "container_inv cnt_demo" "con_ready cnt_demo" "active_set cnt_demo = {0}"
proof -
  show "container_inv cnt_demo" by (simp add: container_inv_def)
  show "con_ready cnt_demo" by (simp add: con_ready_def con_ok_def con_demo_def)
  have "i < 2 \<and> [1, 0] ! i \<noteq> (0 :: int) \<longleftrightarrow> i = 0" for i :: nat by (cases "i = 0") (auto simp: nth_Cons split: nat.splits)
  then show "active_set cnt_demo = {0}" by (simp add: active_set_def)
qed

theorem container_table_refines_set_witness:
  "wp (create_container empty_container) (\<lambda>r t d. container_inv t \<and> active_set t \<in> snd ` spec_create {0}) cnt_demo [] \<and>
   wp (destroy_container 0) (\<lambda>r t d. container_inv t \<and> (r, active_set t) = (0, {})) cnt_demo []"
proof -
  note th = container_table_refines_set [OF cnt_demo_ok(1,2), of empty_container "[]" 0, unfolded cnt_demo_ok(3)]
  have "spec_destroy 0 {0} = (0, {})" by (simp add: spec_destroy_def)
  then show ?thesis
    using th by (intro conjI wp_mono [OF th [THEN conjunct1]] wp_mono [OF th [THEN conjunct2]]) (auto simp: rev_image_eqI)
qed



end
