(* ===== verification/Bytes.thy ===== *)
theory Bytes
  imports Prelude
begin

text \<open>
  Blocks of bytes, as the disk and the buffers hold them, and the little-endian numbers and the byte ranges in them: what C
  reads and writes through a pointer into a block. Reading back what was written, and leaving the rest of the block
  alone, are shown here.
\<close>

unbundle bit_operations_syntax

named_theorems bytes_simps \<open>reads of a block after writes to it\<close>

definition get16 :: "u8 list \<Rightarrow> nat \<Rightarrow> u16" where
  "get16 bs i = ucast (bs ! i) OR push_bit 8 (ucast (bs ! (i + 1)))"

definition get32 :: "u8 list \<Rightarrow> nat \<Rightarrow> u32" where
  "get32 bs i = ucast (bs ! i) OR push_bit 8 (ucast (bs ! (i + 1))) OR
     push_bit 16 (ucast (bs ! (i + 2))) OR push_bit 24 (ucast (bs ! (i + 3)))"

definition put16 :: "nat \<Rightarrow> u16 \<Rightarrow> u8 list \<Rightarrow> u8 list" where
  "put16 i w bs = bs[i := ucast w, i + 1 := ucast (drop_bit 8 w)]"

definition put32 :: "nat \<Rightarrow> u32 \<Rightarrow> u8 list \<Rightarrow> u8 list" where
  "put32 i w bs = bs[i := ucast w, i + 1 := ucast (drop_bit 8 w), i + 2 := ucast (drop_bit 16 w), i + 3 := ucast (drop_bit 24 w)]"

text \<open>\<open>memmove(bs + i, xs, n)\<close> for the \<open>n\<close> bytes \<open>xs\<close>, and the \<open>n\<close> bytes at \<open>bs + i\<close>.\<close>

definition put_bytes :: "nat \<Rightarrow> u8 list \<Rightarrow> u8 list \<Rightarrow> u8 list" where
  "put_bytes i xs bs = take i bs @ xs @ drop (i + length xs) bs"

definition get_bytes :: "nat \<Rightarrow> nat \<Rightarrow> u8 list \<Rightarrow> u8 list" where
  "get_bytes i n bs = take n (drop i bs)"

lemma length_put [simp]:
  "length (put16 i w bs) = length bs" "length (put32 i v bs) = length bs"
  by (simp_all add: put16_def put32_def)

lemma length_put_bytes [simp]: "i + length xs \<le> length bs \<Longrightarrow> length (put_bytes i xs bs) = length bs"
  by (simp add: put_bytes_def)

lemma length_get_bytes [simp]: "i + n \<le> length bs \<Longrightarrow> length (get_bytes i n bs) = n"
  by (simp add: get_bytes_def)

lemma get16_put16 [bytes_simps]: "i + 2 \<le> length bs \<Longrightarrow> get16 (put16 i w bs) i = w"
proof (rule bit_word_eqI)
  fix n :: nat
  assume "n < LENGTH(16)" and l: "i + 2 \<le> length bs"
  then consider "n < 8" | "8 \<le> n" "n < 16" by fastforce
  then show "bit (get16 (put16 i w bs) i) n = bit w n"
    using l by cases (auto simp: get16_def put16_def bit_simps nth_list_update)
qed

lemma get32_put32 [bytes_simps]: "i + 4 \<le> length bs \<Longrightarrow> get32 (put32 i w bs) i = w"
proof (rule bit_word_eqI)
  fix n :: nat
  assume "n < LENGTH(32)" and l: "i + 4 \<le> length bs"
  then consider "n < 8" | "8 \<le> n" "n < 16" | "16 \<le> n" "n < 24" | "24 \<le> n" "n < 32" by fastforce
  then show "bit (get32 (put32 i w bs) i) n = bit w n"
    using l by cases (auto simp: get32_def put32_def bit_simps nth_list_update)
qed

lemma nth_put16: "k \<noteq> i \<Longrightarrow> k \<noteq> i + 1 \<Longrightarrow> put16 i w bs ! k = bs ! k"
  by (simp add: put16_def)

lemma nth_put32: "k < i \<or> i + 4 \<le> k \<Longrightarrow> put32 i w bs ! k = bs ! k"
  by (auto simp: put32_def)

lemma get_put_other [bytes_simps]:
  "i + 2 \<le> j \<or> j + 2 \<le> i \<Longrightarrow> get16 (put16 i w bs) j = get16 bs j"
  "i + 2 \<le> k \<or> k + 4 \<le> i \<Longrightarrow> get32 (put16 i w bs) k = get32 bs k"
  "l + 4 \<le> m \<or> m + 2 \<le> l \<Longrightarrow> get16 (put32 l v bs) m = get16 bs m"
  "l + 4 \<le> n \<or> n + 4 \<le> l \<Longrightarrow> get32 (put32 l v bs) n = get32 bs n"
  by (auto simp: get16_def get32_def nth_put16 nth_put32)

lemma get_put_bytes [bytes_simps]: "i + length xs \<le> length bs \<Longrightarrow> n = length xs \<Longrightarrow> get_bytes i n (put_bytes i xs bs) = xs"
  by (simp add: get_bytes_def put_bytes_def)

lemma nth_put_bytes:
  "i + length xs \<le> length bs \<Longrightarrow> k < length bs \<Longrightarrow> put_bytes i xs bs ! k = (if k < i \<or> i + length xs \<le> k then bs ! k else xs ! (k - i))"
  by (auto simp: put_bytes_def nth_append min_def)

lemma nth_get_bytes: "i + n \<le> length bs \<Longrightarrow> k < n \<Longrightarrow> get_bytes i n bs ! k = bs ! (i + k)"
  by (simp add: get_bytes_def)

lemma get_bytes_put_other [bytes_simps]:
  "i + length xs \<le> length bs \<Longrightarrow> j + n \<le> length bs \<Longrightarrow> i + length xs \<le> j \<or> j + n \<le> i \<Longrightarrow>
   get_bytes j n (put_bytes i xs bs) = get_bytes j n bs"
  by (rule nth_equalityI) (auto simp: nth_get_bytes nth_put_bytes)

lemma put_bytes_get [simp]: "i + n \<le> length bs \<Longrightarrow> put_bytes i (get_bytes i n bs) bs = bs"
  by (rule nth_equalityI) (auto simp: nth_get_bytes nth_put_bytes)

section \<open>Arrays of numbers in a block\<close>

text \<open>The loop that stores \<open>f 0, ..., f (n - 1)\<close> as an array at \<open>i\<close>.\<close>

definition put32s :: "nat \<Rightarrow> (nat \<Rightarrow> u32) \<Rightarrow> nat \<Rightarrow> u8 list \<Rightarrow> u8 list" where
  "put32s i f n bs = fold (\<lambda>k. put32 (i + 4 * k) (f k)) [0..<n] bs"

lemma put32s_simps [simp]:
  "put32s i f 0 bs = bs" "put32s i f (Suc n) bs = put32 (i + 4 * n) (f n) (put32s i f n bs)"
  by (simp_all add: put32s_def)

lemma length_put32s [simp]: "length (put32s i f n bs) = length bs"
  by (induction n) simp_all

lemma get32_put32s [bytes_simps]: "i + 4 * n \<le> length bs \<Longrightarrow> k < n \<Longrightarrow> get32 (put32s i f n bs) (i + 4 * k) = f k"
proof (induction n)
  case (Suc n)
  then show ?case by (cases "k = n") (simp_all add: bytes_simps)
qed simp

lemma get_put32s_other [bytes_simps]:
  "j + 4 \<le> i \<or> i + 4 * n \<le> j \<Longrightarrow> get32 (put32s i f n bs) j = get32 bs j"
  "k + 2 \<le> i \<or> i + 4 * n \<le> k \<Longrightarrow> get16 (put32s i f n bs) k = get16 bs k"
  by (induction n) (auto simp: bytes_simps)

end
