(* ===== verification/Bio.thy ===== *)
theory Bio
  imports Sleeplock
begin

text \<open>
  The buffer cache, \<open>bio.c\<close>, on the disk of \<open>memide.c\<close>, which keeps the blocks in memory and answers at once. A buffer
  is an index; the buffers are linked in a ring through \<open>prev\<close> and \<open>next\<close>, and the index \<open>NBUF\<close> is the
  structure \<open>head\<close> of the ring. Sleep lock \<open>BufSleepLk i\<close> is the lock of buffer \<open>i\<close>.

  The walks along the ring end at \<open>head\<close>. On a damaged ring they would not; the walk has
  \<open>NBUF\<close> steps of fuel, as a ring without repetition needs no more.
\<close>

unbundle bit_operations_syntax

abbreviation NBUF :: nat where "NBUF \<equiv> 30"
abbreviation BSIZE :: nat where "BSIZE \<equiv> 512"

text \<open>The flags of a buffer.\<close>

definition B_VALID :: u32 where "B_VALID = 0x2"
definition B_DIRTY :: u32 where "B_DIRTY = 0x4"

record buf =
  b_flags :: u32
  b_dev :: u32
  b_blockno :: u32
  b_refcnt :: u32
  b_prev :: nat
  b_next :: nat
  b_qnext :: "nat option"
  b_data :: "u8 list"

record biost = slst +
  bufs :: "buf list"
  disk :: "u8 list list"

definition getb :: "nat \<Rightarrow> ('z biost_scheme, buf) kop" where
  "getb i = gets (\<lambda>s. bufs s ! i)"

definition setb :: "nat \<Rightarrow> (buf \<Rightarrow> buf) \<Rightarrow> ('z biost_scheme, unit) kop" where
  "setb i f = modify (\<lambda>s. s\<lparr>bufs := (bufs s)[i := f (bufs s ! i)]\<rparr>)"

section \<open>The disk in memory\<close>

definition iderw :: "nat \<Rightarrow> ('z biost_scheme, unit) kop" where
  "iderw i = bind (holdingsleep (BufSleepLk i)) (\<lambda>h. bind (getb i) (\<lambda>b. bind (gets disk) (\<lambda>dsk.
     if \<not> h then panic ''iderw: buf not locked''
     else if b_flags b AND (B_VALID OR B_DIRTY) = B_VALID then panic ''iderw: nothing to do''
     else if b_dev b \<noteq> 1 then panic ''iderw: request not for disk 1''
     else if length dsk \<le> unat (b_blockno b) then panic ''iderw: block out of range''
     else andthen
       (if b_flags b AND B_DIRTY \<noteq> 0
        then andthen (setb i (\<lambda>b. b\<lparr>b_flags := b_flags b AND NOT B_DIRTY\<rparr>))
               (modify (\<lambda>s. s\<lparr>disk := (disk s)[unat (b_blockno b) := b_data b]\<rparr>))
        else setb i (\<lambda>c. c\<lparr>b_data := dsk ! unat (b_blockno b)\<rparr>))
       (setb i (\<lambda>b. b\<lparr>b_flags := b_flags b OR B_VALID\<rparr>)))))"

section \<open>The ring of buffers\<close>

text \<open>Buffer \<open>b\<close> put after the head of the ring.\<close>

definition link_front :: "nat \<Rightarrow> ('z biost_scheme, unit) kop" where
  "link_front b = bind (getb NBUF) (\<lambda>h. seqM [
     setb b (\<lambda>x. x\<lparr>b_next := b_next h, b_prev := NBUF\<rparr>),
     bind (getb NBUF) (\<lambda>h. setb (b_next h) (\<lambda>x. x\<lparr>b_prev := b\<rparr>)),
     setb NBUF (\<lambda>x. x\<lparr>b_next := b\<rparr>)])"

definition binit :: "('z biost_scheme, unit) kop" where
  "binit = andthen (setb NBUF (\<lambda>x. x\<lparr>b_prev := NBUF, b_next := NBUF\<rparr>))
     (forM [0..<NBUF] (\<lambda>b. bind (getb NBUF) (\<lambda>h. seqM [
        setb b (\<lambda>x. x\<lparr>b_next := b_next h, b_prev := NBUF\<rparr>),
        initsleeplock (BufSleepLk b),
        bind (getb NBUF) (\<lambda>h. setb (b_next h) (\<lambda>x. x\<lparr>b_prev := b\<rparr>)),
        setb NBUF (\<lambda>x. x\<lparr>b_next := b\<rparr>)])))"

text \<open>
  A walk along the ring from \<open>b\<close>, in the direction \<open>dir\<close>, to the first buffer that satisfies \<open>P\<close>. The result
  \<open>Some NBUF\<close> says that the walk has reached the head, \<open>None\<close> that it is out of fuel.
\<close>

fun bscan :: "nat \<Rightarrow> (buf \<Rightarrow> nat) \<Rightarrow> (buf \<Rightarrow> bool) \<Rightarrow> buf list \<Rightarrow> nat \<Rightarrow> nat option" where
  "bscan 0 dir P bs b = (if b = NBUF then Some NBUF else None)"
| "bscan (Suc n) dir P bs b = (if b = NBUF then Some NBUF else if P (bs ! b) then Some b else bscan n dir P bs (dir (bs ! b)))"

definition bget :: "u32 \<Rightarrow> u32 \<Rightarrow> ('z biost_scheme, nat) kop" where
  "bget dev blockno = andthen (lock BcacheLk) (bind (gets bufs) (\<lambda>bs.
     case bscan NBUF b_next (\<lambda>b. b_dev b = dev \<and> b_blockno b = blockno) bs (b_next (bs ! NBUF)) of
       None \<Rightarrow> hang
     | Some i \<Rightarrow>
         if i \<noteq> NBUF then
           andthen (seqM [setb i (\<lambda>b. b\<lparr>b_refcnt := b_refcnt b + 1\<rparr>), unlock BcacheLk, acquiresleep (BufSleepLk i)]) (return i)
         else (case bscan NBUF b_prev (\<lambda>b. b_refcnt b = 0 \<and> b_flags b AND B_DIRTY = 0) bs (b_prev (bs ! NBUF)) of
             None \<Rightarrow> hang
           | Some i \<Rightarrow>
               if i \<noteq> NBUF then
                 andthen (seqM [setb i (\<lambda>b. b\<lparr>b_dev := dev, b_blockno := blockno, b_flags := 0, b_refcnt := 1\<rparr>),
                   unlock BcacheLk, acquiresleep (BufSleepLk i)]) (return i)
               else panic ''bget: no buffers'')))"

definition bread :: "u32 \<Rightarrow> u32 \<Rightarrow> ('z biost_scheme, nat) kop" where
  "bread dev blockno = bind (bget dev blockno) (\<lambda>i. bind (getb i) (\<lambda>b.
     andthen (whenM (b_flags b AND B_VALID = 0) (iderw i)) (return i)))"

definition bwrite :: "nat \<Rightarrow> ('z biost_scheme, unit) kop" where
  "bwrite i = bind (holdingsleep (BufSleepLk i)) (\<lambda>h.
     if \<not> h then panic ''bwrite''
     else seqM [setb i (\<lambda>b. b\<lparr>b_flags := b_flags b OR B_DIRTY\<rparr>), iderw i])"

definition brelse :: "nat \<Rightarrow> ('z biost_scheme, unit) kop" where
  "brelse i = bind (holdingsleep (BufSleepLk i)) (\<lambda>h.
     if \<not> h then panic ''brelse''
     else seqM [
       releasesleep (BufSleepLk i),
       lock BcacheLk,
       setb i (\<lambda>b. b\<lparr>b_refcnt := b_refcnt b - 1\<rparr>),
       bind (getb i) (\<lambda>b. whenM (b_refcnt b = 0) (seqM [
         setb (b_next b) (\<lambda>x. x\<lparr>b_prev := b_prev b\<rparr>),
         bind (getb i) (\<lambda>b. setb (b_prev b) (\<lambda>x. x\<lparr>b_next := b_next b\<rparr>)),
         link_front i])),
       unlock BcacheLk])"

section \<open>Doubly linked segments\<close>

text \<open>
  The nodes \<open>xs\<close> lie between \<open>a\<close> and \<open>c\<close>, linked both ways; \<open>nx\<close> and \<open>pv\<close> are the links. The ring is the segment from the
  head back to the head.
\<close>

fun dlseg :: "(nat \<Rightarrow> nat) \<Rightarrow> (nat \<Rightarrow> nat) \<Rightarrow> nat \<Rightarrow> nat list \<Rightarrow> nat \<Rightarrow> bool" where
  "dlseg nx pv a [] c \<longleftrightarrow> nx a = c \<and> pv c = a"
| "dlseg nx pv a (x # xs) c \<longleftrightarrow> nx a = x \<and> pv x = a \<and> dlseg nx pv x xs c"

lemmas upd_at = fun_upd_same fun_upd_other

lemma dlseg_append: "dlseg nx pv a (xs @ x # ys) c \<longleftrightarrow> dlseg nx pv a xs x \<and> dlseg nx pv x ys c"
  by (induction xs arbitrary: a) auto

lemma dlseg_next_upd [simp]: "u \<noteq> a \<Longrightarrow> u \<notin> set xs \<Longrightarrow> dlseg (nx(u := v)) pv a xs c = dlseg nx pv a xs c"
  by (induction xs arbitrary: a) auto

lemma dlseg_prev_upd [simp]: "u \<noteq> c \<Longrightarrow> u \<notin> set xs \<Longrightarrow> dlseg nx (pv(u := v)) a xs c = dlseg nx pv a xs c"
  by (induction xs arbitrary: a) auto

lemma dlseg_ends:
  assumes "dlseg nx pv a xs c"
  shows "nx a = hd (xs @ [c])" "pv c = last (a # xs)"
proof -
  show "nx a = hd (xs @ [c])" using assms by (cases xs) auto
  show "pv c = last (a # xs)" using assms by (induction xs arbitrary: a) auto
qed

text \<open>Taking a node out, and putting one in behind the head.\<close>

lemma dlseg_unlink:
  assumes "dlseg nx pv h xs i" and "dlseg nx pv i ys h" and "distinct (h # xs @ i # ys)"
  shows "dlseg (nx(pv i := nx i)) (pv(nx i := pv i)) h (xs @ ys) h"
  using assms
proof (induction xs arbitrary: ys rule: rev_induct)
  case Nil
  then show ?case by (cases ys) (auto simp: upd_at simp del: fun_upd_apply)
next
  case (snoc x xs)
  have d: "dlseg nx pv h xs x" "pv i = x" using snoc.prems(1) by (simp_all add: dlseg_append)
  show ?case
  proof (cases ys)
    case Nil
    then have "nx i = h" "pv h = i" using snoc.prems(2) by simp_all
    then show ?thesis using d snoc.prems(3) Nil by (auto simp: dlseg_append upd_at simp del: fun_upd_apply)
  next
    case (Cons y ys')
    then have "nx i = y" "dlseg nx pv y ys' h" using snoc.prems(2) by simp_all
    then show ?thesis using d snoc.prems(3) Cons by (auto simp: dlseg_append upd_at simp del: fun_upd_apply)
  qed
qed

lemma dlseg_link:
  assumes "dlseg nx pv h zs h" and "i \<noteq> h" and "i \<notin> set zs" and "distinct (h # zs)"
  shows "dlseg (nx(i := nx h, h := i)) (pv(i := h, nx h := i)) h (i # zs) h"
  using assms by (cases zs) (auto simp: upd_at simp del: fun_upd_apply)

text \<open>A walk along the links finds the first node of the segment with the property.\<close>

definition first_or :: "nat \<Rightarrow> (nat \<Rightarrow> bool) \<Rightarrow> nat list \<Rightarrow> nat" where
  "first_or h P xs = (case find P xs of Some i \<Rightarrow> i | None \<Rightarrow> h)"

abbreviation bnext :: "buf list \<Rightarrow> nat \<Rightarrow> nat" where "bnext bs \<equiv> \<lambda>i. b_next (bs ! i)"
abbreviation bprev :: "buf list \<Rightarrow> nat \<Rightarrow> nat" where "bprev bs \<equiv> \<lambda>i. b_prev (bs ! i)"

lemma bscan_next:
  assumes "dlseg (bnext bs) pv a xs NBUF" and "NBUF \<notin> set xs" and "length xs \<le> n"
  shows "bscan n b_next P bs (b_next (bs ! a)) = Some (first_or NBUF (\<lambda>i. P (bs ! i)) xs)"
  using assms
proof (induction xs arbitrary: a n)
  case Nil
  then show ?case by (cases n) (auto simp: first_or_def)
next
  case (Cons x xs)
  obtain m where n: "n = Suc m" using Cons.prems by (cases n) auto
  have "bscan m b_next P bs (b_next (bs ! x)) = Some (first_or NBUF (\<lambda>i. P (bs ! i)) xs)"
    by (rule Cons.IH) (use Cons.prems n in auto)
  then show ?case using Cons.prems by (auto simp: n first_or_def)
qed

lemma bscan_prev:
  assumes "dlseg nx (bprev bs) NBUF xs c" and "NBUF \<notin> set xs" and "length xs \<le> n"
  shows "bscan n b_prev P bs (b_prev (bs ! c)) = Some (first_or NBUF (\<lambda>i. P (bs ! i)) (rev xs))"
  using assms
proof (induction xs arbitrary: c n rule: rev_induct)
  case Nil
  then show ?case by (cases n) (auto simp: first_or_def)
next
  case (snoc x xs)
  obtain m where n: "n = Suc m" using snoc.prems by (cases n) auto
  have "bscan m b_prev P bs (b_prev (bs ! x)) = Some (first_or NBUF (\<lambda>i. P (bs ! i)) (rev xs))"
    by (rule snoc.IH) (use snoc.prems n in \<open>auto simp: dlseg_append\<close>)
  then show ?case using snoc.prems by (auto simp: n first_or_def dlseg_append)
qed

section \<open>The ring as a list\<close>

text \<open>The buffers in the order of the ring, the most recently used first.\<close>

definition ring :: "buf list \<Rightarrow> nat list \<Rightarrow> bool" where
  "ring bs xs \<longleftrightarrow> length bs = NBUF + 1 \<and> distinct xs \<and> set xs = {0..<NBUF} \<and> dlseg (bnext bs) (bprev bs) NBUF xs NBUF"

definition upd :: "nat \<Rightarrow> (buf \<Rightarrow> buf) \<Rightarrow> buf list \<Rightarrow> buf list" where
  "upd i f bs = bs[i := f (bs ! i)]"

lemma upd_simps [simp]:
  "length (upd i f bs) = length bs"
  "i < length bs \<Longrightarrow> upd i f bs ! i = f (bs ! i)"
  "j \<noteq> i \<Longrightarrow> upd i f bs ! j = bs ! j"
  by (simp_all add: upd_def)

lemma wp_getb [wp_rules]: "wp (getb i) Q = (\<lambda>s. Q (bufs s ! i) s)"
  by (simp add: getb_def wp_rules)

lemma wp_setb [wp_rules]: "wp (setb i f) Q = (\<lambda>s. Q () (s\<lparr>bufs := upd i f (bufs s)\<rparr>))"
  by (simp add: setb_def wp_rules upd_def)

text \<open>What the statements of \<open>brelse\<close> that move a buffer do to the array.\<close>

definition unlinked :: "nat \<Rightarrow> buf list \<Rightarrow> buf list" where
  "unlinked i bs = (let b = bs ! i; bs1 = upd (b_next b) (\<lambda>x. x\<lparr>b_prev := b_prev b\<rparr>) bs; b1 = bs1 ! i
     in upd (b_prev b1) (\<lambda>x. x\<lparr>b_next := b_next b1\<rparr>) bs1)"

definition linked :: "nat \<Rightarrow> buf list \<Rightarrow> buf list" where
  "linked i bs = (let h = bs ! NBUF; bs1 = upd i (\<lambda>x. x\<lparr>b_next := b_next h, b_prev := NBUF\<rparr>) bs; h1 = bs1 ! NBUF;
       bs2 = upd (b_next h1) (\<lambda>x. x\<lparr>b_prev := i\<rparr>) bs1
     in upd NBUF (\<lambda>x. x\<lparr>b_next := i\<rparr>) bs2)"

definition released :: "nat \<Rightarrow> buf list \<Rightarrow> buf list" where
  "released i bs = (let bs1 = upd i (\<lambda>b. b\<lparr>b_refcnt := b_refcnt b - 1\<rparr>) bs
     in if b_refcnt (bs1 ! i) = 0 then linked i (unlinked i bs1) else bs1)"

text \<open>What a buffer holds, without its links and its reference count.\<close>

definition core :: "buf \<Rightarrow> u32 \<times> u32 \<times> u32 \<times> u8 list" where
  "core b = (b_flags b, b_dev b, b_blockno b, b_data b)"

lemma core_simps [simp]: "core (b\<lparr>b_refcnt := n\<rparr>) = core b" "core (b\<lparr>b_next := k\<rparr>) = core b" "core (b\<lparr>b_prev := k\<rparr>) = core b"
  by (simp_all add: core_def)

lemma nth_upd: "upd i f bs ! j = (if j = i \<and> i < length bs then f (bs ! j) else bs ! j)"
  by (auto simp: upd_def list_update_beyond)

lemma links_upd:
  "i < length bs \<Longrightarrow> bnext (upd i f bs) = (bnext bs)(i := b_next (f (bs ! i)))"
  "i < length bs \<Longrightarrow> bprev (upd i f bs) = (bprev bs)(i := b_prev (f (bs ! i)))"
  by (auto simp: nth_upd fun_eq_iff)

lemma upd_field: "(\<And>b. g (f b) = g b) \<Longrightarrow> g (upd i f bs ! j) = g (bs ! j)"
  by (simp add: nth_upd)

lemma core_links [simp]: "core (unlinked i bs ! j) = core (bs ! j)" "core (linked i bs ! j) = core (bs ! j)"
  by (simp_all add: unlinked_def linked_def Let_def upd_field)

lemma refcnt_links [simp]: "b_refcnt (unlinked i bs ! j) = b_refcnt (bs ! j)" "b_refcnt (linked i bs ! j) = b_refcnt (bs ! j)"
  by (simp_all add: unlinked_def linked_def Let_def upd_field [where g = b_refcnt])

lemma length_links [simp]: "length (unlinked i bs) = length bs" "length (linked i bs) = length bs" "length (released i bs) = length bs"
  by (simp_all add: unlinked_def linked_def released_def Let_def)

lemma released_fields [simp]:
  "core (released i bs ! j) = core (bs ! j)"
  "i < length bs \<Longrightarrow> b_refcnt (released i bs ! j) = (if j = i then b_refcnt (bs ! j) - 1 else b_refcnt (bs ! j))"
  by (simp_all add: released_def Let_def nth_upd)

lemma unlinked_links:
  assumes "i < length bs" and "bnext bs i < length bs" and "bprev bs i < length bs" and "bnext bs i \<noteq> i"
  shows "bnext (unlinked i bs) = (bnext bs)(bprev bs i := bnext bs i)" "bprev (unlinked i bs) = (bprev bs)(bnext bs i := bprev bs i)"
proof -
  let ?b1 = "upd (bnext bs i) (\<lambda>x. x\<lparr>b_prev := bprev bs i\<rparr>) bs"
  have "unlinked i bs = upd (bprev bs i) (\<lambda>x. x\<lparr>b_next := bnext bs i\<rparr>) ?b1"
    using assms(4) by (simp add: unlinked_def Let_def nth_upd)
  then show "bnext (unlinked i bs) = (bnext bs)(bprev bs i := bnext bs i)" "bprev (unlinked i bs) = (bprev bs)(bnext bs i := bprev bs i)"
    using assms(2,3) by (auto simp: fun_eq_iff nth_upd)
qed

lemma linked_links:
  assumes "i < length bs" and "NBUF < length bs" and "bnext bs NBUF < length bs" and "i \<noteq> NBUF"
  shows "bnext (linked i bs) = (bnext bs)(i := bnext bs NBUF, NBUF := i)"
    "bprev (linked i bs) = (bprev bs)(i := NBUF, bnext bs NBUF := i)"
proof -
  let ?b1 = "upd i (\<lambda>x. x\<lparr>b_next := bnext bs NBUF, b_prev := NBUF\<rparr>) bs"
  let ?b2 = "upd (bnext bs NBUF) (\<lambda>x. x\<lparr>b_prev := i\<rparr>) ?b1"
  have "linked i bs = upd NBUF (\<lambda>x. x\<lparr>b_next := i\<rparr>) ?b2"
    using assms(4) by (simp add: linked_def Let_def nth_upd)
  then show "bnext (linked i bs) = (bnext bs)(i := bnext bs NBUF, NBUF := i)"
      "bprev (linked i bs) = (bprev bs)(i := NBUF, bnext bs NBUF := i)"
    using assms by (auto simp: fun_eq_iff nth_upd)
qed

lemma ring_move:
  assumes "ring bs (xs @ i # ys)"
  shows "ring (linked i (unlinked i bs)) (i # xs @ ys)"
proof -
  let ?h = "NBUF"
  have len: "length bs = 31" and d: "distinct (xs @ i # ys)" and st: "set (xs @ i # ys) = {0..<30}"
    and seg: "dlseg (bnext bs) (bprev bs) ?h xs i" "dlseg (bnext bs) (bprev bs) i ys ?h"
    using assms by (auto simp: ring_def dlseg_append)
  have i: "i < 30" using st by auto
  have lt: "x \<in> set xs \<Longrightarrow> x < 31" "x \<in> set ys \<Longrightarrow> x < 31" for x
    using equalityD1 [OF st] by auto
  have "bnext bs i = hd (ys @ [?h])" "bprev bs i = last (?h # xs)" using dlseg_ends seg by blast+
  then have "bnext bs i \<in> set (ys @ [?h])" "bprev bs i \<in> set (?h # xs)"
    by (metis append_is_Nil_conv hd_in_set not_Cons_self2, metis last_in_set list.distinct(1))
  then have nb: "bnext bs i < 31" "bprev bs i < 31" "bnext bs i \<noteq> i"
    using i d by (auto dest: lt)
  have un: "bnext (unlinked i bs) = (bnext bs)(bprev bs i := bnext bs i)" "bprev (unlinked i bs) = (bprev bs)(bnext bs i := bprev bs i)"
    by (rule unlinked_links; use nb len i in simp)+
  have dh: "distinct (?h # xs @ i # ys)" using d st by auto
  have s1: "dlseg (bnext (unlinked i bs)) (bprev (unlinked i bs)) ?h (xs @ ys) ?h"
    unfolding un by (rule dlseg_unlink [OF seg dh])
  have "bnext (unlinked i bs) ?h \<in> set (xs @ ys @ [?h])" using dlseg_ends(1) [OF s1] by (metis append_assoc append_is_Nil_conv hd_in_set not_Cons_self2)
  then have nh: "bnext (unlinked i bs) ?h < 31" using lt by (auto dest: lt)
  have li: "bnext (linked i (unlinked i bs)) = (bnext (unlinked i bs))(i := bnext (unlinked i bs) ?h, ?h := i)"
      "bprev (linked i (unlinked i bs)) = (bprev (unlinked i bs))(i := ?h, bnext (unlinked i bs) ?h := i)"
    by (rule linked_links; use nh len i in simp)+
  have "dlseg (bnext (linked i (unlinked i bs))) (bprev (linked i (unlinked i bs))) ?h (i # xs @ ys) ?h"
    unfolding li by (rule dlseg_link [OF s1]) (use i d dh in auto)
  then show ?thesis using len d st by (auto simp: ring_def)
qed

lemma ring_fields:
  assumes "ring bs xs" and "\<And>b. b_next (f b) = b_next b" and "\<And>b. b_prev (f b) = b_prev b"
  shows "ring (upd i f bs) xs"
proof -
  have "bnext (upd i f bs) = bnext bs" "bprev (upd i f bs) = bprev bs" by (simp_all add: upd_field assms(2,3))
  then show ?thesis using assms(1) by (simp add: ring_def)
qed

definition mtf :: "nat \<Rightarrow> nat list \<Rightarrow> nat list" where
  "mtf i xs = i # remove1 i xs"

lemma ring_released:
  assumes r: "ring bs xs" and i: "i < NBUF"
  shows "ring (released i bs) (if b_refcnt (bs ! i) = 1 then mtf i xs else xs)"
proof -
  let ?bs = "upd i (\<lambda>b. b\<lparr>b_refcnt := b_refcnt b - 1\<rparr>) bs"
  have r1: "ring ?bs xs" by (rule ring_fields [OF r]) simp_all
  have "i \<in> set xs" "distinct xs" using r i by (auto simp: ring_def)
  then obtain us vs where xs: "xs = us @ i # vs" and "i \<notin> set us" by (metis split_list_first)
  then have "mtf i xs = i # us @ vs" by (simp add: mtf_def remove1_append)
  then have "ring (linked i (unlinked i ?bs)) (mtf i xs)" using ring_move [OF r1 [unfolded xs]] by simp
  moreover have "b_refcnt (?bs ! i) = b_refcnt (bs ! i) - 1" using r i by (simp add: ring_def)
  ultimately show ?thesis using r1 by (simp add: released_def Let_def)
qed

section \<open>Releasing a buffer\<close>

definition bio_ready :: "int \<Rightarrow> 'z biost_scheme \<Rightarrow> bool" where
  "bio_ready pid s \<longleftrightarrow> runs pid s \<and> held s = []"

definition owns_buf :: "int \<Rightarrow> nat \<Rightarrow> 'z slst_scheme \<Rightarrow> bool" where
  "owns_buf pid i s \<longleftrightarrow> sleeplocks s (BufSleepLk i) = \<lparr>sl_locked = True, sl_pid = pid\<rparr>"

text \<open>The state after \<open>brelse\<close>: the sleep lock is free, its sleepers are awake and the ring is updated.\<close>

definition after_brelse :: "nat \<Rightarrow> 'z biost_scheme \<Rightarrow> 'z biost_scheme" where
  "after_brelse i s = s\<lparr>sleeplocks := (sleeplocks s)(BufSleepLk i := \<lparr>sl_locked = False, sl_pid = 0\<rparr>),
     ptable := map (wake (ChSleep (BufSleepLk i))) (ptable s), bufs := released i (bufs s)\<rparr>"

lemma wp_holdingsleep:
  "runs pid s \<Longrightarrow> lk \<notin> set (held s) \<Longrightarrow>
    wp (holdingsleep lk) Q s e = Q (sl_locked (sleeplocks s lk) \<and> sl_pid (sleeplocks s lk) = pid) s e"
  by (simp add: wp_def holdingsleep_ret)

lemma wp_releasesleep:
  "lk \<notin> set (held s) \<Longrightarrow> PtableLk \<notin> set (held s) \<Longrightarrow> lk \<noteq> PtableLk \<Longrightarrow>
    wp (releasesleep lk) Q s e = Q () (s\<lparr>sleeplocks := (sleeplocks s)(lk := \<lparr>sl_locked = False, sl_pid = 0\<rparr>),
      ptable := map (wake (ChSleep lk)) (ptable s)\<rparr>) e"
  by (simp add: wp_def releasesleep_ret)

lemma wp_acquiresleep:
  "runs pid s \<Longrightarrow> \<not> sl_locked (sleeplocks s lk) \<Longrightarrow> lk \<notin> set (held s) \<Longrightarrow>
    wp (acquiresleep lk) Q s e = Q () (s\<lparr>sleeplocks := (sleeplocks s)(lk := \<lparr>sl_locked = True, sl_pid = pid\<rparr>)\<rparr>) e"
  by (simp add: wp_def acquiresleep_free)

lemma wp_link_front [wp_rules]: "wp (link_front i) Q = (\<lambda>s. Q () (s\<lparr>bufs := linked i (bufs s)\<rparr>))"
  by (simp add: link_front_def linked_def wp_rules Let_def fun_eq_iff)

lemma brelse_ret:
  assumes "bio_ready pid s" and "owns_buf pid i s"
  shows "brelse i s e = Ret () (after_brelse i s) e"
proof (rule wp_eq_ret)
  fix Q
  have r: "runs pid s" "BcacheLk \<notin> set (held s)" "PtableLk \<notin> set (held s)" "BufSleepLk i \<notin> set (held s)" and o': "sl_locked (sleeplocks s (BufSleepLk i))" "sl_pid (sleeplocks s (BufSleepLk i)) = pid"
    using assms by (simp_all add: bio_ready_def owns_buf_def)
  show "wp (brelse i) Q s e = Q () (after_brelse i s) e"
    by (simp add: brelse_def wp_rules wp_holdingsleep [where pid = pid] wp_releasesleep r o'
      after_brelse_def released_def unlinked_def Let_def)
qed

section \<open>The ring \<open>binit\<close> makes\<close>

definition binit_step :: "nat \<Rightarrow> ('z biost_scheme, unit) kop" where
  "binit_step b = bind (getb NBUF) (\<lambda>h. seqM [
     setb b (\<lambda>x. x\<lparr>b_next := b_next h, b_prev := NBUF\<rparr>),
     initsleeplock (BufSleepLk b),
     bind (getb NBUF) (\<lambda>h. setb (b_next h) (\<lambda>x. x\<lparr>b_prev := b\<rparr>)),
     setb NBUF (\<lambda>x. x\<lparr>b_next := b\<rparr>)])"

lemma wp_binit_step:
  "wp (binit_step b) Q = (\<lambda>s. Q () (s\<lparr>sleeplocks := (sleeplocks s)(BufSleepLk b := \<lparr>sl_locked = False, sl_pid = 0\<rparr>), bufs := linked b (bufs s)\<rparr>))"
  by (simp add: binit_step_def initsleeplock_def setsl_def linked_def wp_rules Let_def fun_eq_iff)

lemma binit_steps:
  assumes "dlseg (bnext (bufs s)) (bprev (bufs s)) NBUF ys NBUF" and "length (bufs s) = NBUF + 1"
    and "distinct (xs @ ys)" and "set (xs @ ys) \<subseteq> {0..<NBUF}" and "\<And>i. i \<in> set ys \<Longrightarrow> \<not> sl_locked (sleeplocks s (BufSleepLk i))"
  shows "wp (forM xs binit_step) (\<lambda>_ t _. length (bufs t) = NBUF + 1 \<and> dlseg (bnext (bufs t)) (bprev (bufs t)) NBUF (rev xs @ ys) NBUF \<and>
    (\<forall>i\<in>set (xs @ ys). \<not> sl_locked (sleeplocks t (BufSleepLk i)))) s e"
  using assms
proof (induction xs arbitrary: s ys)
  case Nil
  then show ?case by (simp add: wp_rules)
next
  case (Cons x xs)
  let ?t = "s\<lparr>sleeplocks := (sleeplocks s)(BufSleepLk x := \<lparr>sl_locked = False, sl_pid = 0\<rparr>), bufs := linked x (bufs s)\<rparr>"
  have x: "x < NBUF" "x \<notin> set ys" and ys: "distinct (NBUF # ys)" using Cons.prems(3,4) by auto
  have "bnext (bufs s) NBUF \<in> set (ys @ [NBUF])" using dlseg_ends(1) [OF Cons.prems(1)] by (metis append_is_Nil_conv hd_in_set not_Cons_self2)
  then have "bnext (bufs s) NBUF < length (bufs s)" using Cons.prems(2,4) by auto
  then have li: "bnext (linked x (bufs s)) = (bnext (bufs s))(x := bnext (bufs s) NBUF, NBUF := x)"
      "bprev (linked x (bufs s)) = (bprev (bufs s))(x := NBUF, bnext (bufs s) NBUF := x)"
    using linked_links [of x "bufs s"] x Cons.prems(2) by simp_all
  have "dlseg (bnext (bufs ?t)) (bprev (bufs ?t)) NBUF (x # ys) NBUF"
    using dlseg_link [OF Cons.prems(1) _ x(2) ys] x(1) li by simp
  then have "wp (forM xs binit_step) (\<lambda>_ t _. length (bufs t) = NBUF + 1 \<and> dlseg (bnext (bufs t)) (bprev (bufs t)) NBUF (rev xs @ x # ys) NBUF \<and>
      (\<forall>i\<in>set (xs @ x # ys). \<not> sl_locked (sleeplocks t (BufSleepLk i)))) ?t e"
    using Cons.prems(2-5) by (intro Cons.IH) auto
  then show ?case by (simp add: wp_rules wp_binit_step)
qed

lemma binit_ring:
  assumes "length (bufs s) = NBUF + 1"
  shows "wp binit (\<lambda>_ t _. ring (bufs t) (rev [0..<NBUF]) \<and> (\<forall>i<NBUF. \<not> sl_locked (sleeplocks t (BufSleepLk i)))) s e"
proof -
  let ?t = "s\<lparr>bufs := upd NBUF (\<lambda>x. x\<lparr>b_prev := NBUF, b_next := NBUF\<rparr>) (bufs s)\<rparr>"
  have b: "binit = andthen (setb NBUF (\<lambda>x. x\<lparr>b_prev := NBUF, b_next := NBUF\<rparr>)) (forM [0..<NBUF] binit_step)"
    unfolding binit_def binit_step_def ..
  have "wp (forM [0..<NBUF] binit_step) (\<lambda>_ t _. length (bufs t) = NBUF + 1 \<and> dlseg (bnext (bufs t)) (bprev (bufs t)) NBUF (rev [0..<NBUF] @ []) NBUF \<and>
      (\<forall>i\<in>set ([0..<NBUF] @ []). \<not> sl_locked (sleeplocks t (BufSleepLk i)))) ?t e"
    by (rule binit_steps) (use assms in simp_all)
  then have "wp (forM [0..<NBUF] binit_step) (\<lambda>_ t _. ring (bufs t) (rev [0..<NBUF]) \<and> (\<forall>i<NBUF. \<not> sl_locked (sleeplocks t (BufSleepLk i)))) ?t e"
    by (rule wp_mono) (auto simp: ring_def)
  then show ?thesis by (simp add: b wp_rules)
qed

section \<open>Getting a buffer\<close>

abbreviation holds_block :: "u32 \<Rightarrow> u32 \<Rightarrow> buf list \<Rightarrow> nat \<Rightarrow> bool" where
  "holds_block dev blk bs i \<equiv> b_dev (bs ! i) = dev \<and> b_blockno (bs ! i) = blk"

abbreviation reusable :: "buf list \<Rightarrow> nat \<Rightarrow> bool" where
  "reusable bs i \<equiv> b_refcnt (bs ! i) = 0 \<and> b_flags (bs ! i) AND B_DIRTY = 0"

definition after_bget :: "int \<Rightarrow> nat \<Rightarrow> (buf \<Rightarrow> buf) \<Rightarrow> 'z biost_scheme \<Rightarrow> 'z biost_scheme" where
  "after_bget pid i f s = s\<lparr>bufs := upd i f (bufs s),
     sleeplocks := (sleeplocks s)(BufSleepLk i := \<lparr>sl_locked = True, sl_pid = pid\<rparr>)\<rparr>"

lemma ring_scans:
  assumes "ring bs xs"
  shows "bscan NBUF b_next P bs (b_next (bs ! NBUF)) = Some (first_or NBUF (\<lambda>i. P (bs ! i)) xs)"
    and "bscan NBUF b_prev P bs (b_prev (bs ! NBUF)) = Some (first_or NBUF (\<lambda>i. P (bs ! i)) (rev xs))"
proof -
  have "length xs = NBUF" using assms distinct_card [of xs] by (simp add: ring_def)
  moreover have "NBUF \<notin> set xs" "dlseg (bnext bs) (bprev bs) NBUF xs NBUF" using assms by (simp_all add: ring_def)
  ultimately show "bscan NBUF b_next P bs (b_next (bs ! NBUF)) = Some (first_or NBUF (\<lambda>i. P (bs ! i)) xs)"
      "bscan NBUF b_prev P bs (b_prev (bs ! NBUF)) = Some (first_or NBUF (\<lambda>i. P (bs ! i)) (rev xs))"
    using bscan_next bscan_prev by (metis order_refl)+
qed

lemma ring_find:
  assumes "ring bs xs" and "find P xs = Some i \<or> find P (rev xs) = Some i"
  shows "i < NBUF" "i \<noteq> NBUF" "P i"
proof -
  have "i \<in> set xs \<and> P i" using assms(2) by (auto simp: find_Some_iff rev_nth)
  then show "i < NBUF" "i \<noteq> NBUF" "P i" using assms(1) by (auto simp: ring_def)
qed

lemma runs_slst [simp]:
  "runs pid (s\<lparr>bufs := x\<rparr>) = runs pid s" "runs pid (s\<lparr>disk := d\<rparr>) = runs pid s" "runs pid (s\<lparr>held := h\<rparr>) = runs pid s"
  by (simp_all add: runs_def)

lemma bget_hit:
  assumes "bio_ready pid s" and r: "ring (bufs s) xs" and f: "find (holds_block dev blk (bufs s)) xs = Some i"
    and l: "\<not> sl_locked (sleeplocks s (BufSleepLk i))"
  shows "bget dev blk s e = Ret i (after_bget pid i (\<lambda>b. b\<lparr>b_refcnt := b_refcnt b + 1\<rparr>) s) e"
proof (rule wp_eq_ret)
  fix Q
  have h: "runs pid s" "BcacheLk \<notin> set (held s)" "BufSleepLk i \<notin> set (held s)" using assms(1) by (simp_all add: bio_ready_def)
  have n: "i \<noteq> NBUF" using ring_find [OF r] f by blast
  show "wp (bget dev blk) Q s e = Q i (after_bget pid i (\<lambda>b. b\<lparr>b_refcnt := b_refcnt b + 1\<rparr>) s) e"
    by (simp add: bget_def wp_rules ring_scans [OF r] first_or_def f n h wp_acquiresleep [where pid = pid] l after_bget_def)
qed

lemma bget_recycle:
  assumes "bio_ready pid s" and r: "ring (bufs s) xs" and f: "find (holds_block dev blk (bufs s)) xs = None"
    and g: "find (reusable (bufs s)) (rev xs) = Some i" and l: "\<not> sl_locked (sleeplocks s (BufSleepLk i))"
  shows "bget dev blk s e = Ret i (after_bget pid i (\<lambda>b. b\<lparr>b_dev := dev, b_blockno := blk, b_flags := 0, b_refcnt := 1\<rparr>) s) e"
proof (rule wp_eq_ret)
  fix Q
  have h: "runs pid s" "BcacheLk \<notin> set (held s)" "BufSleepLk i \<notin> set (held s)" using assms(1) by (simp_all add: bio_ready_def)
  have n: "i \<noteq> NBUF" using ring_find [OF r] g by blast
  show "wp (bget dev blk) Q s e = Q i (after_bget pid i (\<lambda>b. b\<lparr>b_dev := dev, b_blockno := blk, b_flags := 0, b_refcnt := 1\<rparr>) s) e"
    by (simp add: bget_def wp_rules ring_scans [OF r] first_or_def f g n h wp_acquiresleep [where pid = pid] l after_bget_def)
qed

lemma bget_full:
  assumes "bio_ready pid s" and r: "ring (bufs s) xs" and f: "find (holds_block dev blk (bufs s)) xs = None"
    and g: "find (reusable (bufs s)) (rev xs) = None"
  shows "bget dev blk s e = Panic ''bget: no buffers''"
  using assms(1) by (simp add: bget_def monad_defs ring_scans [OF r] first_or_def f g bio_ready_def lock_ret)

section \<open>An example state\<close>

text \<open>The buffers as \<open>binit\<close> links them, and a disk of 60 empty blocks.\<close>

definition demo_bufs :: "buf list" where
  "demo_bufs = map (\<lambda>i. \<lparr>b_flags = 0, b_dev = 0, b_blockno = 0, b_refcnt = 0, b_prev = Suc i mod 31,
     b_next = (i + 30) mod 31, b_qnext = None, b_data = replicate BSIZE 0\<rparr>) [0..<31]"

definition bio_demo :: biost where
  "bio_demo = slst.extend sl_demo (biost.fields demo_bufs (replicate 60 (replicate BSIZE 0)))"

lemmas bio_demo_defs [demo_defs] = bio_demo_def slst.extend_def biost.fields_def

section \<open>What the cache says of the disk\<close>

text \<open>
  The contents of a block of device 1 are those of the valid buffer that holds it, and those of the disk when there is none. In a
  good cache no block has two buffers, a buffer nobody refers to is unlocked, a dirty buffer is valid, and a buffer nobody refers to
  is either dirty or a copy of its block.
\<close>

abbreviation valid :: "buf \<Rightarrow> bool" where "valid b \<equiv> b_flags b AND B_VALID \<noteq> 0"
abbreviation dirty :: "buf \<Rightarrow> bool" where "dirty b \<equiv> b_flags b AND B_DIRTY \<noteq> 0"

definition contents :: "'z biost_scheme \<Rightarrow> u32 \<Rightarrow> u8 list" where
  "contents s blk = (case find (\<lambda>i. holds_block 1 blk (bufs s) i \<and> valid (bufs s ! i)) [0..<NBUF] of
     Some i \<Rightarrow> b_data (bufs s ! i) | None \<Rightarrow> disk s ! unat blk)"

definition one_each :: "buf list \<Rightarrow> bool" where
  "one_each bs \<longleftrightarrow> (\<forall>i j. i < NBUF \<and> j < NBUF \<and> b_dev (bs ! i) \<noteq> 0 \<and> holds_block (b_dev (bs ! i)) (b_blockno (bs ! i)) bs j \<longrightarrow> i = j)"

definition copy_of :: "u8 list list \<Rightarrow> buf \<Rightarrow> bool" where
  "copy_of d b \<longleftrightarrow> (valid b \<and> b_dev b = 1 \<longrightarrow> b_data b = d ! unat (b_blockno b))"

definition cache_ok :: "'z biost_scheme \<Rightarrow> nat list \<Rightarrow> bool" where
  "cache_ok s xs \<longleftrightarrow> ring (bufs s) xs \<and> one_each (bufs s) \<and> (\<forall>i<NBUF. dirty (bufs s ! i) \<longrightarrow> valid (bufs s ! i)) \<and>
     (\<forall>i<NBUF. b_refcnt (bufs s ! i) = 0 \<longrightarrow>
       \<not> sl_locked (sleeplocks s (BufSleepLk i)) \<and> (dirty (bufs s ! i) \<or> copy_of (disk s) (bufs s ! i)))"

lemma contents_cached:
  assumes "one_each (bufs s)" and "i < NBUF" and "holds_block 1 blk (bufs s) i" and "valid (bufs s ! i)"
  shows "contents s blk = b_data (bufs s ! i)"
proof -
  let ?P = "\<lambda>i. holds_block 1 blk (bufs s) i \<and> valid (bufs s ! i)"
  have "find ?P [0..<NBUF] \<noteq> None" using assms by (simp only: find_None_iff) auto
  then obtain j where j: "find ?P [0..<NBUF] = Some j" by blast
  then have "?P j" "j < NBUF" by (auto simp: find_Some_iff)
  then have "i = j" using assms unfolding one_each_def by (metis zero_neq_one)
  then show ?thesis using j by (simp only: contents_def option.case)
qed

lemma contents_disk:
  assumes "\<And>i. i < NBUF \<Longrightarrow> holds_block 1 blk (bufs s) i \<Longrightarrow> valid (bufs s ! i) \<Longrightarrow> b_data (bufs s ! i) = disk s ! unat blk"
  shows "contents s blk = disk s ! unat blk"
proof -
  let ?P = "\<lambda>i. holds_block 1 blk (bufs s) i \<and> valid (bufs s ! i)"
  show ?thesis
  proof (cases "find ?P [0..<NBUF]")
    case None
    then show ?thesis by (simp only: contents_def option.case)
  next
    case (Some j)
    then have "?P j" "j < NBUF" by (auto simp: find_Some_iff)
    moreover have "contents s blk = b_data (bufs s ! j)" using Some by (simp only: contents_def option.case)
    ultimately show ?thesis using assms by metis
  qed
qed

text \<open>Replacing one copy of a block of the disk by another changes no contents.\<close>

lemma contents_replace:
  assumes "one_each (bufs s)" and "one_each (bufs t)" and t: "bufs t = upd i f (bufs s)" "disk t = disk s"
    and i: "i < length (bufs s)" and c: "copy_of (disk s) (bufs s ! i)" "copy_of (disk s) (f (bufs s ! i))"
  shows "contents t = contents s"
proof
  fix blk
  show "contents t blk = contents s blk"
  proof (cases "\<exists>j<NBUF. j \<noteq> i \<and> holds_block 1 blk (bufs s) j \<and> valid (bufs s ! j)")
    case True
    then obtain j where j: "j < NBUF" "j \<noteq> i" "holds_block 1 blk (bufs s) j" "valid (bufs s ! j)" by blast
    then have "bufs t ! j = bufs s ! j" by (simp add: t)
    then show ?thesis using contents_cached [OF assms(1) j(1,3,4)] contents_cached [OF assms(2) j(1)] j(3,4) by metis
  next
    case False
    have "contents s blk = disk s ! unat blk" by (rule contents_disk) (metis False c(1) copy_of_def)
    moreover have "contents t blk = disk t ! unat blk"
    proof (rule contents_disk)
      fix j assume j: "j < NBUF" "holds_block 1 blk (bufs t) j" "valid (bufs t ! j)"
      then have "j = i" using False t(1) by (metis upd_simps(3))
      then have "bufs t ! j = f (bufs s ! i)" using t(1) i by (simp add: nth_upd)
      then show "b_data (bufs t ! j) = disk t ! unat blk" using c(2) j by (metis copy_of_def t(2))
    qed
    ultimately show ?thesis by (simp add: t)
  qed
qed

lemma contents_core:
  assumes "\<And>j. core (bufs t ! j) = core (bufs s ! j)" and "disk t = disk s"
  shows "contents t = contents s"
  using assms by (simp add: contents_def core_def fun_eq_iff split: option.split)

section \<open>Reading a block\<close>

lemma flag_bits [simp]:
  "x AND (B_VALID OR B_DIRTY) = B_VALID \<longleftrightarrow> x AND B_VALID \<noteq> 0 \<and> x AND B_DIRTY = 0"
  "(x OR B_VALID) AND B_VALID \<noteq> 0" "(x OR B_VALID) AND B_DIRTY = x AND B_DIRTY"
  "(x OR B_DIRTY) AND B_VALID = x AND B_VALID" "(x OR B_DIRTY) AND B_DIRTY \<noteq> 0"
  "(x AND NOT B_DIRTY) AND B_DIRTY = 0" "(x AND NOT B_DIRTY) AND B_VALID = x AND B_VALID"
proof -
  have bits: "B_VALID = 2 ^ 1" "B_DIRTY = 2 ^ 2" by (simp_all add: B_VALID_def B_DIRTY_def)
  have b: "bit B_VALID n \<longleftrightarrow> n = 1" "bit B_DIRTY n \<longleftrightarrow> n = 2" for n
    unfolding bits bit_exp_iff by (auto simp: possible_bit_word)
  have v: "y AND B_VALID = 0 \<longleftrightarrow> \<not> bit y 1" and d: "y AND B_DIRTY = 0 \<longleftrightarrow> \<not> bit y 2" for y
    unfolding bits by (rule and_exp_eq_0_iff_not_bit)+
  have m: "x AND B_VALID = (if bit x 1 then B_VALID else 0)" "x AND B_DIRTY = (if bit x 2 then B_DIRTY else 0)"
    by (rule bit_word_eqI; auto simp: bit_and_iff b)+
  show "x AND (B_VALID OR B_DIRTY) = B_VALID \<longleftrightarrow> x AND B_VALID \<noteq> 0 \<and> x AND B_DIRTY = 0"
    unfolding bit.conj_disj_distrib m by (simp add: B_VALID_def B_DIRTY_def)
  show "(x OR B_VALID) AND B_VALID \<noteq> 0" "(x OR B_DIRTY) AND B_DIRTY \<noteq> 0" "(x AND NOT B_DIRTY) AND B_DIRTY = 0"
    unfolding v d by (simp_all add: bit_or_iff bit_and_iff bit_not_iff b)
  show "(x OR B_VALID) AND B_DIRTY = x AND B_DIRTY" "(x OR B_DIRTY) AND B_VALID = x AND B_VALID"
    "(x AND NOT B_DIRTY) AND B_VALID = x AND B_VALID"
    by (rule bit_word_eqI; auto simp: bit_and_iff bit_or_iff bit_not_iff b)+
qed

lemma flags_nonzero [simp]: "B_VALID \<noteq> 0" "B_DIRTY \<noteq> 0"
  by (simp_all add: B_VALID_def B_DIRTY_def)

lemma iderw_read:
  assumes "bio_ready pid s" and "owns_buf pid i s" and "\<not> valid (bufs s ! i)" and "\<not> dirty (bufs s ! i)"
    and "b_dev (bufs s ! i) = 1" and "unat (b_blockno (bufs s ! i)) < length (disk s)" and "i < length (bufs s)"
  shows "iderw i s e = Ret () (s\<lparr>bufs := upd i (\<lambda>b. b\<lparr>b_data := disk s ! unat (b_blockno (bufs s ! i)),
    b_flags := b_flags b OR B_VALID\<rparr>) (bufs s)\<rparr>) e"
proof (rule wp_eq_ret)
  fix Q
  have h: "runs pid s" "BufSleepLk i \<notin> set (held s)" and o': "sl_locked (sleeplocks s (BufSleepLk i))" "sl_pid (sleeplocks s (BufSleepLk i)) = pid"
    using assms(1,2) by (simp_all add: bio_ready_def owns_buf_def)
  have u: "upd i (\<lambda>b. b\<lparr>b_flags := b_flags b OR B_VALID\<rparr>) (upd i (b_data_update (\<lambda>_. d)) (bufs s)) =
      upd i (\<lambda>b. b\<lparr>b_data := d, b_flags := b_flags b OR B_VALID\<rparr>) (bufs s)" for d
    using assms(7) by (simp add: upd_def)
  show "wp (iderw i) Q s e = Q () (s\<lparr>bufs := upd i (\<lambda>b. b\<lparr>b_data := disk s ! unat (b_blockno (bufs s ! i)),
      b_flags := b_flags b OR B_VALID\<rparr>) (bufs s)\<rparr>) e"
    using assms(3-6) by (simp add: iderw_def wp_rules wp_holdingsleep [where pid = pid] h o' u)
qed

text \<open>
  The cache can give the block without waiting: the block has an unlocked buffer, or it has none and some buffer is reusable.
\<close>

definition obtainable :: "u32 \<Rightarrow> 'z biost_scheme \<Rightarrow> bool" where
  "obtainable blk s \<longleftrightarrow>
     (\<forall>i<NBUF. holds_block 1 blk (bufs s) i \<longrightarrow> \<not> sl_locked (sleeplocks s (BufSleepLk i)) \<and> b_refcnt (bufs s ! i) \<noteq> - 1) \<and>
     ((\<exists>i<NBUF. holds_block 1 blk (bufs s) i) \<or> (\<exists>i<NBUF. reusable (bufs s) i))"

lemma cache_ok_len: "cache_ok s xs \<Longrightarrow> length (bufs s) = 31"
  by (simp add: cache_ok_def ring_def)

lemma cache_ok_after_bget:
  assumes c: "cache_ok s xs" and i: "i < NBUF" and o1: "one_each (upd i f (bufs s))"
    and f: "b_refcnt (f (bufs s ! i)) \<noteq> 0" "dirty (f (bufs s ! i)) \<Longrightarrow> valid (f (bufs s ! i))"
    and links: "\<And>b. b_next (f b) = b_next b" "\<And>b. b_prev (f b) = b_prev b"
  shows "cache_ok (after_bget pid i f s) xs"
proof -
  have "ring (upd i f (bufs s)) xs" using c ring_fields [OF _ links] by (simp add: cache_ok_def)
  then show ?thesis
    using c o1 f i cache_ok_len [OF c] unfolding cache_ok_def after_bget_def by (auto simp: nth_upd)
qed

text \<open>What taking the buffer \<open>i\<close> for a block leaves of everything else.\<close>

definition taken :: "nat \<Rightarrow> u32 \<Rightarrow> 'z biost_scheme \<Rightarrow> 'z biost_scheme \<Rightarrow> bool" where
  "taken i blk s t \<longleftrightarrow> biost.more t = biost.more s \<and>
     (\<forall>j. j \<noteq> i \<longrightarrow> bufs t ! j = bufs s ! j \<and> sleeplocks t (BufSleepLk j) = sleeplocks s (BufSleepLk j)) \<and>
     b_refcnt (bufs t ! i) = b_refcnt (bufs s ! i) + 1 \<and> (b_refcnt (bufs s ! i) = 0 \<or> holds_block 1 blk (bufs s) i) \<and>
     (dirty (bufs t ! i) \<longrightarrow> dirty (bufs s ! i)) \<and>
     (dirty (bufs s ! i) \<or> copy_of (disk s) (bufs s ! i) \<longrightarrow> dirty (bufs t ! i) \<or> copy_of (disk t) (bufs t ! i))"

lemma bget_ok:
  assumes c: "cache_ok s xs" and r: "bio_ready pid s" and a: "obtainable blk s"
  shows "\<exists>i t. bget 1 blk s e = Ret i t e \<and> i < NBUF \<and> owns_buf pid i t \<and> bio_ready pid t \<and> holds_block 1 blk (bufs t) i \<and>
    b_refcnt (bufs t ! i) \<noteq> 0 \<and> cache_ok t xs \<and> contents t = contents s \<and> disk t = disk s \<and> taken i blk s t"
proof (cases "find (holds_block 1 blk (bufs s)) xs")
  case (Some i)
  let ?f = "\<lambda>b. b\<lparr>b_refcnt := b_refcnt b + 1\<rparr>"
  have rg: "ring (bufs s) xs" and set: "set xs = {0..<NBUF}" and len: "length (bufs s) = 31"
    using c by (auto simp: cache_ok_def ring_def)
  have i: "i < NBUF" "holds_block 1 blk (bufs s) i" using ring_find [OF rg] Some by blast+
  have l: "\<not> sl_locked (sleeplocks s (BufSleepLk i))" "b_refcnt (bufs s ! i) + 1 \<noteq> 0"
    using a i by (auto simp: obtainable_def eq_neg_iff_add_eq_0)
  have o1: "one_each (upd i ?f (bufs s))" using c by (simp add: cache_ok_def one_each_def upd_field)
  have "dirty (bufs s ! i) \<Longrightarrow> valid (bufs s ! i)" using c i(1) by (simp add: cache_ok_def)
  then have "cache_ok (after_bget pid i ?f s) xs"
    using l(2) by (intro cache_ok_after_bget [OF c i(1) o1]) simp_all
  moreover have "contents (after_bget pid i ?f s) = contents s"
    by (rule contents_core) (simp_all add: after_bget_def upd_field)
  moreover have "taken i blk s (after_bget pid i ?f s)"
    using i len by (simp add: taken_def after_bget_def copy_of_def)
  ultimately show ?thesis
    using bget_hit [OF r rg Some l(1)] i l(2) len r by (auto simp: after_bget_def owns_buf_def bio_ready_def runs_def)
next
  case None
  let ?f = "\<lambda>b. b\<lparr>b_dev := 1, b_blockno := blk, b_flags := 0, b_refcnt := 1\<rparr>"
  have rg: "ring (bufs s) xs" and set: "set xs = {0..<NBUF}" and len: "length (bufs s) = 31" and o1: "one_each (bufs s)"
    using c by (auto simp: cache_ok_def ring_def)
  have no: "\<not> holds_block 1 blk (bufs s) j" if "j < NBUF" for j using None that set by (auto simp: find_None_iff)
  then obtain k where "k < NBUF" "reusable (bufs s) k" using a by (auto simp: obtainable_def)
  then have "find (reusable (bufs s)) (rev xs) \<noteq> None" using set by (auto simp: find_None_iff)
  then obtain i where f: "find (reusable (bufs s)) (rev xs) = Some i" by blast
  then have i: "i < NBUF" "reusable (bufs s) i" using ring_find [OF rg] by blast+
  then have l: "\<not> sl_locked (sleeplocks s (BufSleepLk i))" and cp: "copy_of (disk s) (bufs s ! i)" using c by (auto simp: cache_ok_def)
  have o2: "one_each (upd i ?f (bufs s))" unfolding one_each_def
  proof (intro allI impI)
    fix j k assume "j < NBUF \<and> k < NBUF \<and> b_dev (upd i ?f (bufs s) ! j) \<noteq> 0 \<and>
        holds_block (b_dev (upd i ?f (bufs s) ! j)) (b_blockno (upd i ?f (bufs s) ! j)) (upd i ?f (bufs s)) k"
    then show "j = k" using no [of j] no [of k] o1 len i(1) unfolding one_each_def by (auto simp: nth_upd split: if_splits)
  qed
  have "cache_ok (after_bget pid i ?f s) xs" by (rule cache_ok_after_bget [OF c i(1) o2]) simp_all
  moreover have "contents (after_bget pid i ?f s) = contents s"
    by (rule contents_replace [OF o1, where i = i and f = ?f]) (use o2 i len cp in \<open>simp_all add: after_bget_def copy_of_def\<close>)
  moreover have "taken i blk s (after_bget pid i ?f s)"
    using i len by (simp add: taken_def after_bget_def copy_of_def)
  ultimately show ?thesis
    using bget_recycle [OF r rg None f l] i len r by (auto simp: after_bget_def owns_buf_def bio_ready_def runs_def)
qed

lemma fill_ok:
  assumes c: "cache_ok s xs" and r: "bio_ready pid s" and o': "owns_buf pid i s" and i: "i < NBUF" and h: "holds_block 1 blk (bufs s) i"
    and n: "b_refcnt (bufs s ! i) \<noteq> 0" and d: "unat blk < length (disk s)" and inv: "\<not> valid (bufs s ! i)"
    and tk: "taken i blk s0 s"
  shows "\<exists>t. iderw i s e = Ret () t e \<and> owns_buf pid i t \<and> bio_ready pid t \<and> b_refcnt (bufs t ! i) \<noteq> 0 \<and> holds_block 1 blk (bufs t) i \<and> valid (bufs t ! i) \<and>
    b_data (bufs t ! i) = contents s blk \<and> contents t = contents s \<and> cache_ok t xs \<and> disk t = disk s \<and> taken i blk s0 t"
proof -
  let ?f = "\<lambda>b. b\<lparr>b_data := disk s ! unat blk, b_flags := b_flags b OR B_VALID\<rparr>"
  let ?t = "s\<lparr>bufs := upd i ?f (bufs s)\<rparr>"
  have len: "length (bufs s) = 31" and o1: "one_each (bufs s)" and nd: "\<not> dirty (bufs s ! i)"
    using c inv i by (auto simp: cache_ok_def ring_def)
  have run: "iderw i s e = Ret () ?t e" using iderw_read [OF r o' inv nd] h d len i by simp
  have o2: "one_each (bufs ?t)" using o1 by (simp add: one_each_def upd_field)
  have ct: "contents ?t = contents s"
    by (rule contents_replace [OF o1 o2, where i = i and f = ?f]) (use len i h inv in \<open>simp_all add: copy_of_def\<close>)
  have "ring (upd i ?f (bufs s)) xs" using c by (intro ring_fields) (simp_all add: cache_ok_def)
  then have "cache_ok ?t xs" using c o2 n len i unfolding cache_ok_def by (auto simp: nth_upd)
  moreover have "b_data (bufs ?t ! i) = contents s blk"
    using contents_cached [OF o2 i, of blk] h len i ct by simp
  moreover have "taken i blk s0 ?t" using tk len i h by (simp add: taken_def copy_of_def)
  ultimately show ?thesis
    using run o' r h n len i ct by (intro exI [of _ ?t]) (simp add: owns_buf_def bio_ready_def)
qed

lemma bread_ok:
  assumes "cache_ok s xs" and "bio_ready pid s" and "obtainable blk s" and "unat blk < length (disk s)"
  shows "\<exists>i t. bread 1 blk s e = Ret i t e \<and> i < NBUF \<and> owns_buf pid i t \<and> bio_ready pid t \<and> b_refcnt (bufs t ! i) \<noteq> 0 \<and>
    holds_block 1 blk (bufs t) i \<and> valid (bufs t ! i) \<and>
    b_data (bufs t ! i) = contents s blk \<and> contents t = contents s \<and> cache_ok t xs \<and> disk t = disk s \<and> taken i blk s t"
proof -
  obtain i t where g: "bget 1 blk s e = Ret i t e" "i < NBUF" "owns_buf pid i t" "bio_ready pid t" "holds_block 1 blk (bufs t) i"
      "b_refcnt (bufs t ! i) \<noteq> 0" "cache_ok t xs" "contents t = contents s" "disk t = disk s" "taken i blk s t"
    using bget_ok [OF assms(1-3)] by blast
  show ?thesis
  proof (cases "valid (bufs t ! i)")
    case True
    then have "bread 1 blk s e = Ret i t e" by (simp add: bread_def monad_defs g(1) getb_def)
    moreover have "b_data (bufs t ! i) = contents s blk"
      using contents_cached [of t i blk] g True by (simp add: cache_ok_def)
    ultimately show ?thesis using g True by blast
  next
    case False
    obtain u where u: "iderw i t e = Ret () u e" "owns_buf pid i u" "bio_ready pid u" "b_refcnt (bufs u ! i) \<noteq> 0" "holds_block 1 blk (bufs u) i" "valid (bufs u ! i)"
        "b_data (bufs u ! i) = contents t blk" "contents u = contents t" "cache_ok u xs" "disk u = disk t" "taken i blk s u"
      using fill_ok [OF g(7,4,3,2,5,6) _ _ g(10)] assms(4) g(9) False by auto
    have "bread 1 blk s e = Ret i u e" using False by (simp add: bread_def monad_defs g(1) getb_def u(1))
    then show ?thesis using u g(2,8,9) by (intro exI [of _ i] exI [of _ u]) simp
  qed
qed

text \<open>
  C2. Reading a block through the cache. In a good cache, for a block of the disk that can be had without waiting, \<open>bread\<close> returns a
  buffer that the caller holds locked and that holds the contents of the block, whether it found the block cached, had to recycle a
  buffer or had to read the disk; no block has changed its contents, and the cache is good again.
\<close>

theorem bread_reads_block:
  assumes "cache_ok s xs" and "bio_ready pid s" and "obtainable blk s" and "unat blk < length (disk s)"
  shows "\<exists>i t. bread 1 blk s e = Ret i t e \<and> i < NBUF \<and> owns_buf pid i t \<and> holds_block 1 blk (bufs t) i \<and> valid (bufs t ! i) \<and>
    b_data (bufs t ! i) = contents s blk \<and> contents t = contents s \<and> cache_ok t xs \<and> disk t = disk s"
  using bread_ok [OF assms] by blast

section \<open>Writing a block\<close>

text \<open>What \<open>bwrite\<close> makes of the flags.\<close>

definition written :: "u8 list \<Rightarrow> buf \<Rightarrow> buf" where
  "written d b = b\<lparr>b_data := d, b_flags := ((b_flags b OR B_DIRTY) AND NOT B_DIRTY) OR B_VALID\<rparr>"

lemma written_simps [simp]:
  "b_data (written d b) = d" "b_dev (written d b) = b_dev b" "b_blockno (written d b) = b_blockno b"
  "b_refcnt (written d b) = b_refcnt b" "b_next (written d b) = b_next b" "b_prev (written d b) = b_prev b"
  "valid (written d b)" "\<not> dirty (written d b)"
  by (simp_all add: written_def)

definition after_write :: "nat \<Rightarrow> u32 \<Rightarrow> u8 list \<Rightarrow> 'z biost_scheme \<Rightarrow> 'z biost_scheme" where
  "after_write i blk d s = s\<lparr>disk := (disk s)[unat blk := d], bufs := upd i (written d) (bufs s)\<rparr>"

lemma bwrite_ret:
  assumes "bio_ready pid s" and "owns_buf pid i s" and "holds_block 1 blk (bufs s) i" and "unat blk < length (disk s)" and "i < length (bufs s)"
  shows "bwrite i s e = Ret () (after_write i blk (b_data (bufs s ! i)) s) e"
proof (rule wp_eq_ret)
  fix Q
  have h: "runs pid s" "BufSleepLk i \<notin> set (held s)" and o': "sl_locked (sleeplocks s (BufSleepLk i))" "sl_pid (sleeplocks s (BufSleepLk i)) = pid"
    using assms(1,2) by (simp_all add: bio_ready_def owns_buf_def)
  have u: "upd i (\<lambda>b. b\<lparr>b_flags := b_flags b OR B_VALID\<rparr>) (upd i (\<lambda>b. b\<lparr>b_flags := b_flags b AND NOT B_DIRTY\<rparr>)
      (upd i (\<lambda>b. b\<lparr>b_flags := b_flags b OR B_DIRTY\<rparr>) (bufs s))) = upd i (written (b_data (bufs s ! i))) (bufs s)"
    using assms(5) by (simp add: upd_def written_def)
  show "wp (bwrite i) Q s e = Q () (after_write i blk (b_data (bufs s ! i)) s) e"
    using assms(3-5) by (simp add: bwrite_def iderw_def wp_rules wp_holdingsleep [where pid = pid] h o' u after_write_def)
qed

lemma contents_write:
  assumes o1: "one_each (bufs s)" and i: "i < NBUF" and len: "length (bufs s) = 31" and h: "holds_block 1 blk (bufs s) i"
    and d: "unat blk < length (disk s)"
  shows "one_each (bufs (after_write i blk x s))" "contents (after_write i blk x s) = (contents s)(blk := x)"
proof -
  let ?t = "after_write i blk x s"
  have bi: "bufs ?t ! i = written x (bufs s ! i)" and bj: "\<And>j. j \<noteq> i \<Longrightarrow> bufs ?t ! j = bufs s ! j"
    using i len by (simp_all add: after_write_def)
  show o2: "one_each (bufs ?t)" using o1 by (simp add: after_write_def one_each_def upd_field)
  show "contents ?t = (contents s)(blk := x)"
  proof
    fix c
    consider "c = blk" | j where "c \<noteq> blk" "j < NBUF" "holds_block 1 c (bufs s) j" "valid (bufs s ! j)"
      | "c \<noteq> blk" "\<And>j. j < NBUF \<Longrightarrow> holds_block 1 c (bufs s) j \<Longrightarrow> \<not> valid (bufs s ! j)" by blast
    then show "contents ?t c = ((contents s)(blk := x)) c"
    proof cases
      case 1
      then show ?thesis using contents_cached [OF o2 i, of blk] h bi by simp
    next
      case (2 j)
      then have "j \<noteq> i" using h by auto
      then show ?thesis using 2 contents_cached [OF o2 2(2), of c] contents_cached [OF o1 2(2-4)] bj by simp
    next
      case 3
      have "contents ?t c = disk ?t ! unat c"
      proof (rule contents_disk)
        fix j assume j: "j < NBUF" "holds_block 1 c (bufs ?t) j" "valid (bufs ?t ! j)"
        then have "j \<noteq> i" using h bi 3(1) by auto
        then show "b_data (bufs ?t ! j) = disk ?t ! unat c" using 3(2) [OF j(1)] j bj by simp
      qed
      moreover have "contents s c = disk s ! unat c" by (rule contents_disk) (use 3(2) in blast)
      moreover have "unat c \<noteq> unat blk" using 3(1) by (simp add: word_unat_eq_iff)
      ultimately show ?thesis using 3(1) by (simp add: after_write_def)
    qed
  qed
qed

lemma cache_ok_write:
  assumes c: "cache_ok s xs" and i: "i < NBUF" and h: "holds_block 1 blk (bufs s) i" and n: "b_refcnt (bufs s ! i) \<noteq> 0"
    and d: "unat blk < length (disk s)"
  shows "cache_ok (after_write i blk x s) xs"
proof -
  let ?t = "after_write i blk x s"
  have len: "length (bufs s) = 31" and o1: "one_each (bufs s)" using c by (simp_all add: cache_ok_def ring_def)
  have bi: "bufs ?t ! i = written x (bufs s ! i)" and bj: "\<And>j. j \<noteq> i \<Longrightarrow> bufs ?t ! j = bufs s ! j"
    using i len by (simp_all add: after_write_def)
  have "ring (bufs ?t) xs" using c by (simp add: after_write_def cache_ok_def ring_fields)
  moreover have "\<not> sl_locked (sleeplocks ?t (BufSleepLk j)) \<and> (dirty (bufs ?t ! j) \<or> copy_of (disk ?t) (bufs ?t ! j))"
    if j: "j < NBUF" "b_refcnt (bufs ?t ! j) = 0" for j
  proof -
    have ji: "j \<noteq> i" using j n bi by auto
    then have "b_dev (bufs s ! j) = 1 \<Longrightarrow> b_blockno (bufs s ! j) \<noteq> blk" using o1 i j h unfolding one_each_def by (metis zero_neq_one)
    then have "copy_of (disk s) (bufs s ! j) \<Longrightarrow> copy_of (disk ?t) (bufs s ! j)"
      by (auto simp: copy_of_def after_write_def word_unat_eq_iff)
    then show ?thesis using c j unfolding bj [OF ji] cache_ok_def by (auto simp: after_write_def)
  qed
  moreover have "dirty (bufs ?t ! j) \<longrightarrow> valid (bufs ?t ! j)" if "j < NBUF" for j
    using c that bi bj by (cases "j = i") (auto simp: cache_ok_def)
  ultimately show ?thesis using contents_write(1) [OF o1 i len h d] by (simp add: cache_ok_def)
qed

lemma cache_ok_brelse:
  assumes c: "cache_ok s xs" and i: "i < NBUF" and cp: "copy_of (disk s) (bufs s ! i)"
  shows "cache_ok (after_brelse i s) (if b_refcnt (bufs s ! i) = 1 then mtf i xs else xs)"
proof -
  have rg: "ring (bufs s) xs" and len: "length (bufs s) = 31" using c by (simp_all add: cache_ok_def ring_def)
  have co: "core (released i (bufs s) ! j) = core (bufs s ! j)" for j by simp
  have fl: "b_flags (released i (bufs s) ! j) = b_flags (bufs s ! j)" "b_dev (released i (bufs s) ! j) = b_dev (bufs s ! j)"
    "b_blockno (released i (bufs s) ! j) = b_blockno (bufs s ! j)" "b_data (released i (bufs s) ! j) = b_data (bufs s ! j)" for j
    using co [of j] by (simp_all add: core_def)
  have "copy_of (disk s) (released i (bufs s) ! j) = copy_of (disk s) (bufs s ! j)" for j by (simp add: copy_of_def fl)
  moreover have "one_each (released i (bufs s))" using c by (simp add: one_each_def fl cache_ok_def)
  ultimately show ?thesis
    using c cp ring_released [OF rg i] i len unfolding cache_ok_def after_brelse_def by (simp add: fl)
qed

text \<open>
  C3. Writing a block through the cache. Getting the buffer of a block, replacing its data, writing it and releasing it leaves the
  new data as the contents of the block and on the disk, changes no other block and leaves the cache good, so the next reader of the
  block gets the new data.
\<close>

theorem block_write_through:
  assumes "cache_ok s xs" and "bio_ready pid s" and "obtainable blk s" and "unat blk < length (disk s)"
  shows "\<exists>t ys. bind (bread 1 blk) (\<lambda>i. seqM [setb i (\<lambda>b. b\<lparr>b_data := d\<rparr>), bwrite i, brelse i]) s e = Ret () t e \<and>
    contents t = (contents s)(blk := d) \<and> disk t = (disk s)[unat blk := d] \<and> cache_ok t ys"
proof -
  obtain i t where g: "bread 1 blk s e = Ret i t e" "i < NBUF" "owns_buf pid i t" "bio_ready pid t" "b_refcnt (bufs t ! i) \<noteq> 0"
      "holds_block 1 blk (bufs t) i" "contents t = contents s" "cache_ok t xs" "disk t = disk s"
    using bread_ok [OF assms] by blast
  have len: "length (bufs t) = 31" and o1: "one_each (bufs t)" using g(8) by (simp_all add: cache_ok_def ring_def)
  let ?u = "t\<lparr>bufs := upd i (\<lambda>b. b\<lparr>b_data := d\<rparr>) (bufs t)\<rparr>" and ?v = "after_write i blk d t"
  have "after_write i blk (b_data (bufs ?u ! i)) ?u = ?v" using g(2) len by (simp add: after_write_def upd_def written_def)
  then have w: "bwrite i ?u e = Ret () ?v e"
    using bwrite_ret [of pid ?u i blk e] g len assms(4) by (simp add: owns_buf_def bio_ready_def)
  have b: "brelse i ?v e = Ret () (after_brelse i ?v) e"
    using brelse_ret [of pid ?v i] g by (simp add: owns_buf_def bio_ready_def after_write_def)
  have cv: "cache_ok ?v xs" "contents ?v = (contents t)(blk := d)"
    using cache_ok_write [OF g(8,2,6,5)] contents_write [OF o1 g(2) len g(6)] assms(4) g(9) by simp_all
  have "copy_of (disk ?v) (bufs ?v ! i)" using g len assms(4) by (simp add: copy_of_def after_write_def)
  then have "cache_ok (after_brelse i ?v) (if b_refcnt (bufs ?v ! i) = 1 then mtf i xs else xs)" by (rule cache_ok_brelse [OF cv(1) g(2)])
  moreover have "contents (after_brelse i ?v) = contents ?v" by (rule contents_core) (simp_all add: after_brelse_def)
  moreover have "bind (bread 1 blk) (\<lambda>i. seqM [setb i (\<lambda>b. b\<lparr>b_data := d\<rparr>), bwrite i, brelse i]) s e = Ret () (after_brelse i ?v) e"
    by (simp add: monad_defs g(1) setb_def upd_def [symmetric] w b)
  moreover have "disk (after_brelse i ?v) = (disk s)[unat blk := d]" using g(9) by (simp add: after_brelse_def after_write_def)
  ultimately show ?thesis using cv(2) g(7) by metis
qed

text \<open>
  C4. The cache evicts the least recently used buffer. The list of the ring is the buffers from the most to the least recently
  released: \<open>binit\<close> links all of them, the last release of a buffer moves it to the front and keeps all that it holds, and
  a block without a buffer gets the rearmost buffer that nobody refers to and that is clean; when there is none, \<open>bget\<close> panics.
\<close>

theorem ring_is_lru:
  assumes "bio_ready pid s" and r: "ring (bufs s) xs"
  shows "wp binit (\<lambda>_ t _. ring (bufs t) (rev [0..<NBUF])) s e \<and>
    (owns_buf pid i s \<and> i < NBUF \<longrightarrow> (\<exists>t. brelse i s e = Ret () t e \<and> \<not> sl_locked (sleeplocks t (BufSleepLk i)) \<and>
      (\<forall>j. core (bufs t ! j) = core (bufs s ! j)) \<and> ring (bufs t) (if b_refcnt (bufs s ! i) = 1 then mtf i xs else xs))) \<and>
    (find (holds_block dev blk (bufs s)) xs = None \<longrightarrow>
      (case find (reusable (bufs s)) (rev xs) of
         None \<Rightarrow> bget dev blk s e = Panic ''bget: no buffers''
       | Some i \<Rightarrow> \<not> sl_locked (sleeplocks s (BufSleepLk i)) \<longrightarrow>
           (\<exists>t. bget dev blk s e = Ret i t e \<and> holds_block dev blk (bufs t) i \<and> owns_buf pid i t \<and> ring (bufs t) xs)))"
proof (intro conjI impI)
  have len: "length (bufs s) = 31" using r by (simp add: ring_def)
  show "wp binit (\<lambda>_ t _. ring (bufs t) (rev [0..<NBUF])) s e"
    by (rule wp_mono [OF binit_ring]) (use len in simp_all)
  show "\<exists>t. brelse i s e = Ret () t e \<and> \<not> sl_locked (sleeplocks t (BufSleepLk i)) \<and>
      (\<forall>j. core (bufs t ! j) = core (bufs s ! j)) \<and> ring (bufs t) (if b_refcnt (bufs s ! i) = 1 then mtf i xs else xs)"
    if "owns_buf pid i s \<and> i < NBUF"
    using brelse_ret [OF assms(1) conjunct1 [OF that]] ring_released [OF r conjunct2 [OF that]] by (simp add: after_brelse_def)
  show "case find (reusable (bufs s)) (rev xs) of
         None \<Rightarrow> bget dev blk s e = Panic ''bget: no buffers''
       | Some i \<Rightarrow> \<not> sl_locked (sleeplocks s (BufSleepLk i)) \<longrightarrow>
           (\<exists>t. bget dev blk s e = Ret i t e \<and> holds_block dev blk (bufs t) i \<and> owns_buf pid i t \<and> ring (bufs t) xs)"
    if f: "find (holds_block dev blk (bufs s)) xs = None"
  proof (cases "find (reusable (bufs s)) (rev xs)")
    case None
    then show ?thesis using bget_full [OF assms f None] by simp
  next
    case (Some i)
    have "i < NBUF" using ring_find [OF r] Some by blast
    moreover have "ring (upd i (\<lambda>b. b\<lparr>b_dev := dev, b_blockno := blk, b_flags := 0, b_refcnt := 1\<rparr>) (bufs s)) xs"
      by (rule ring_fields [OF r]) simp_all
    ultimately show ?thesis using bget_recycle [OF assms f Some] Some len by (simp add: after_bget_def owns_buf_def)
  qed
qed

lemma demo_segment: "n \<le> NBUF \<Longrightarrow> dlseg (bnext demo_bufs) (bprev demo_bufs) n (rev [0..<n]) NBUF"
proof (induction n)
  case 0
  show ?case by (simp add: demo_bufs_def del: upt.upt_Suc)
next
  case (Suc n)
  then have "bnext demo_bufs (Suc n) = n" "bprev demo_bufs n = Suc n"
    by (simp_all add: demo_bufs_def nth_append mod_if del: upt.upt_Suc)
  then show ?case using Suc by simp
qed

lemma demo_fields: "i < NBUF \<Longrightarrow> b_flags (demo_bufs ! i) = 0 \<and> b_dev (demo_bufs ! i) = 0 \<and> b_blockno (demo_bufs ! i) = 0 \<and> b_refcnt (demo_bufs ! i) = 0"
  by (simp add: demo_bufs_def del: upt.upt_Suc)

lemma demo_ring: "ring demo_bufs (rev [0..<NBUF])"
  using demo_segment [of NBUF] by (simp add: ring_def) (simp add: demo_bufs_def)

lemma bio_demo_simps: "bufs bio_demo = demo_bufs" "disk bio_demo = replicate 60 (replicate BSIZE 0)"
    "sleeplocks bio_demo lk = \<lparr>sl_locked = False, sl_pid = 0\<rparr>"
  by (simp_all add: demo_defs)

lemma bio_demo_ready: "bio_ready 2 bio_demo"
  by (simp add: bio_ready_def runs_def demo_defs)

lemma bio_demo_ok: "cache_ok bio_demo (rev [0..<NBUF])"
  using demo_ring demo_fields by (auto simp: cache_ok_def bio_demo_simps one_each_def copy_of_def)

lemma bio_demo_obtainable: "obtainable 5 bio_demo"
proof -
  have "\<exists>i<NBUF. reusable demo_bufs i" using demo_fields [of 0] by (intro exI [of _ 0]) simp
  then show ?thesis using demo_fields by (simp add: obtainable_def bio_demo_simps)
qed

theorem bread_reads_block_witness:
  "\<exists>i t. bread 1 5 bio_demo [] = Ret i t [] \<and> i < NBUF \<and> owns_buf 2 i t \<and> holds_block 1 5 (bufs t) i \<and> valid (bufs t ! i) \<and>
    b_data (bufs t ! i) = contents bio_demo 5 \<and> contents t = contents bio_demo \<and> cache_ok t (rev [0..<NBUF]) \<and> disk t = disk bio_demo"
  by (rule bread_reads_block [OF bio_demo_ok bio_demo_ready bio_demo_obtainable]) (simp add: bio_demo_simps)

theorem block_write_through_witness:
  "\<exists>t ys. bind (bread 1 5) (\<lambda>i. seqM [setb i (\<lambda>b. b\<lparr>b_data := replicate BSIZE 7\<rparr>), bwrite i, brelse i]) bio_demo [] = Ret () t [] \<and>
    contents t = (contents bio_demo)(5 := replicate BSIZE 7) \<and> disk t = (disk bio_demo)[unat (5::u32) := replicate BSIZE 7] \<and> cache_ok t ys"
  by (rule block_write_through [OF bio_demo_ok bio_demo_ready bio_demo_obtainable]) (simp add: bio_demo_simps)

theorem ring_is_lru_witness:
  "\<exists>t. bget 1 5 bio_demo [] = Ret 0 t [] \<and> holds_block 1 5 (bufs t) 0 \<and> owns_buf 2 0 t \<and> ring (bufs t) (rev [0..<NBUF])"
proof -
  have r: "ring (bufs bio_demo) (rev [0..<NBUF])" using demo_ring by (simp only: bio_demo_simps)
  have f: "find (holds_block 1 5 (bufs bio_demo)) (rev [0..<NBUF]) = None"
    using demo_fields by (auto simp only: find_None_iff bio_demo_simps set_rev atLeastLessThan_upt [symmetric] atLeastLessThan_iff) simp
  have "find (reusable (bufs bio_demo)) (rev (rev [0..<NBUF])) = Some 0"
    using demo_fields [of 0] by (simp add: bio_demo_simps upt_conv_Cons del: upt.upt_Suc)
  then show ?thesis using ring_is_lru [OF bio_demo_ready r, of "[]" 0 1 5] f by (simp only: option.case) (simp add: bio_demo_simps)
qed

end
