(* ===== verification/Log.thy ===== *)
theory Log
  imports Bio
begin

text \<open>
  The log, \<open>log.c\<close>: the blocks that a group of file system calls changes are first written to the log on disk, then the
  header that lists them is written, then the blocks go to their places, and last the header is cleared.

  \<open>read_head\<close> fills an array of \<open>LOGSIZE\<close> entries with as many entries as the header on disk says; more than \<open>LOGSIZE\<close> of them
  is a \<open>Fault\<close>. The superblock is read here too, as \<open>initlog\<close> needs it.
\<close>

abbreviation LOGSIZE :: nat where "LOGSIZE \<equiv> 30"
abbreviation MAXOPBLOCKS :: nat where "MAXOPBLOCKS \<equiv> 10"

record superblock =
  sb_size :: u32
  sb_nblocks :: u32
  sb_ninodes :: u32
  sb_nlog :: u32
  sb_logstart :: u32
  sb_inodestart :: u32
  sb_bmapstart :: u32

record logst = biost +
  log_start :: u32
  log_size :: int
  log_outstanding :: int
  log_committing :: bool
  log_dev :: u32
  lh_n :: int
  lh_block :: "u32 list"

definition readsb :: "u32 \<Rightarrow> ('z biost_scheme, superblock) kop" where
  "readsb dev = bind (bread dev 1) (\<lambda>bp. bind (getb bp) (\<lambda>b.
     let d = b_data b in
     andthen (brelse bp) (return \<lparr>sb_size = get32 d 0, sb_nblocks = get32 d 4, sb_ninodes = get32 d 8, sb_nlog = get32 d 12,
       sb_logstart = get32 d 16, sb_inodestart = get32 d 20, sb_bmapstart = get32 d 24\<rparr>)))"

text \<open>The bytes of the buffer \<open>i\<close> changed by \<open>f\<close>.\<close>

definition setdata :: "nat \<Rightarrow> (u8 list \<Rightarrow> u8 list) \<Rightarrow> ('z biost_scheme, unit) kop" where
  "setdata i f = setb i (\<lambda>b. b\<lparr>b_data := f (b_data b)\<rparr>)"

definition install_trans :: "('z logst_scheme, unit) kop" where
  "install_trans = bind (gets lh_n) (\<lambda>n. forM [0..<nat n] (\<lambda>tail.
     bind (gets log_dev) (\<lambda>dev. bind (gets log_start) (\<lambda>start. bind (gets lh_block) (\<lambda>blk.
     bind (bread dev (start + of_nat tail + 1)) (\<lambda>lbuf.
     bind (bread dev (blk ! tail)) (\<lambda>dbuf.
     bind (getb lbuf) (\<lambda>lb. seqM [
       setdata dbuf (\<lambda>_. b_data lb),
       bwrite dbuf,
       brelse lbuf,
       brelse dbuf]))))))))"

definition read_head :: "('z logst_scheme, unit) kop" where
  "read_head = bind (gets log_dev) (\<lambda>dev. bind (gets log_start) (\<lambda>start.
     bind (bread dev start) (\<lambda>buf. bind (getb buf) (\<lambda>b.
     let n = sint (get32 (b_data b) 0) in
     if int LOGSIZE < n then fault ''log.lh.block''
     else seqM [
       modify (\<lambda>s. s\<lparr>lh_n := n\<rparr>),
       forM [0..<nat n] (\<lambda>i. modify (\<lambda>s. s\<lparr>lh_block := (lh_block s)[i := get32 (b_data b) (4 + 4 * i)]\<rparr>)),
       brelse buf]))))"

text \<open>The header as it is written to the block.\<close>

definition put_head :: "int \<Rightarrow> u32 list \<Rightarrow> u8 list \<Rightarrow> u8 list" where
  "put_head n blk d = put32s 4 (\<lambda>i. blk ! i) (nat n) (put32 0 (of_int n) d)"

definition write_head :: "('z logst_scheme, unit) kop" where
  "write_head = bind (gets log_dev) (\<lambda>dev. bind (gets log_start) (\<lambda>start.
     bind (bread dev start) (\<lambda>buf. bind (gets lh_n) (\<lambda>n. bind (gets lh_block) (\<lambda>blk. seqM [
       setdata buf (put_head n blk),
       bwrite buf,
       brelse buf])))))"

definition recover_from_log :: "('z logst_scheme, unit) kop" where
  "recover_from_log = seqM [read_head, install_trans, modify (\<lambda>s. s\<lparr>lh_n := 0\<rparr>), write_head]"

definition initlog :: "u32 \<Rightarrow> ('z logst_scheme, unit) kop" where
  "initlog dev = bind (readsb dev) (\<lambda>sb. seqM [
     modify (\<lambda>s. s\<lparr>log_start := sb_logstart sb, log_size := sint (sb_nlog sb), log_dev := dev\<rparr>),
     recover_from_log])"

section \<open>Transactions\<close>

definition begin_op_round :: "('z logst_scheme, unit + unit) kop" where
  "begin_op_round = bind (gets log_committing) (\<lambda>committing. bind (gets lh_n) (\<lambda>n. bind (gets log_outstanding) (\<lambda>out.
     if committing then andthen (sleep ChLog (Some LogLk)) (return (Inl ()))
     else if n + (out + 1) * int MAXOPBLOCKS > int LOGSIZE then andthen (sleep ChLog (Some LogLk)) (return (Inl ()))
     else andthen (seqM [modify (\<lambda>s. s\<lparr>log_outstanding := log_outstanding s + 1\<rparr>), unlock LogLk]) (return (Inr ())))))"

definition begin_op :: "('z logst_scheme, unit) kop" where
  "begin_op = andthen (lock LogLk) (forever (\<lambda>_. begin_op_round) ())"

definition write_log :: "('z logst_scheme, unit) kop" where
  "write_log = bind (gets lh_n) (\<lambda>n. forM [0..<nat n] (\<lambda>tail.
     bind (gets log_dev) (\<lambda>dev. bind (gets log_start) (\<lambda>start. bind (gets lh_block) (\<lambda>blk.
     bind (bread dev (start + of_nat tail + 1)) (\<lambda>tob.
     bind (bread dev (blk ! tail)) (\<lambda>from.
     bind (getb from) (\<lambda>fb. seqM [
       setdata tob (\<lambda>_. b_data fb),
       bwrite tob,
       brelse from,
       brelse tob]))))))))"

definition commit :: "('z logst_scheme, unit) kop" where
  "commit = bind (gets lh_n) (\<lambda>n. whenM (0 < n) (seqM [
     write_log, write_head, install_trans, modify (\<lambda>s. s\<lparr>lh_n := 0\<rparr>), write_head]))"

definition end_op :: "('z logst_scheme, unit) kop" where
  "end_op = andthen (seqM [lock LogLk, modify (\<lambda>s. s\<lparr>log_outstanding := log_outstanding s - 1\<rparr>)])
    (bind (gets log_committing) (\<lambda>committing. bind (gets log_outstanding) (\<lambda>out.
     if committing then panic ''log.committing''
     else seqM [
       if out = 0 then modify (\<lambda>s. s\<lparr>log_committing := True\<rparr>) else wakeup ChLog,
       unlock LogLk,
       whenM (out = 0) (seqM [
         commit,
         lock LogLk,
         modify (\<lambda>s. s\<lparr>log_committing := False\<rparr>),
         wakeup ChLog,
         unlock LogLk])])))"

text \<open>The index of a block in the header: where it is, or the end.\<close>

definition log_slot :: "int \<Rightarrow> u32 list \<Rightarrow> u32 \<Rightarrow> nat" where
  "log_slot n blk b = (case find (\<lambda>i. blk ! i = b) [0..<nat n] of Some i \<Rightarrow> i | None \<Rightarrow> nat n)"

definition log_write :: "nat \<Rightarrow> ('z logst_scheme, unit) kop" where
  "log_write i = bind (gets lh_n) (\<lambda>n. bind (gets log_size) (\<lambda>size. bind (gets log_outstanding) (\<lambda>out.
     if int LOGSIZE \<le> n \<or> size - 1 \<le> n then panic ''too big a transaction''
     else if out < 1 then panic ''log_write outside of trans''
     else bind (getb i) (\<lambda>b. seqM [
       lock LogLk,
       modify (\<lambda>s. let k = log_slot (lh_n s) (lh_block s) (b_blockno b) in
         s\<lparr>lh_block := (lh_block s)[k := b_blockno b], lh_n := (if int k = lh_n s then lh_n s + 1 else lh_n s)\<rparr>),
       setb i (\<lambda>b. b\<lparr>b_flags := b_flags b OR B_DIRTY\<rparr>),
       unlock LogLk]))))"

section \<open>An example state\<close>

text \<open>A log of 30 blocks from block 2 on, with one call in progress.\<close>

definition log_demo :: logst where
  "log_demo = biost.extend bio_demo (logst.fields 2 30 1 False 1 0 (replicate LOGSIZE 0))"

lemmas log_demo_defs [demo_defs] = log_demo_def biost.extend_def logst.fields_def

section \<open>Room in the log\<close>

definition begun :: "'z logst_scheme \<Rightarrow> 'z logst_scheme" where
  "begun s = s\<lparr>log_outstanding := log_outstanding s + 1\<rparr>"

lemma begin_op_ret:
  assumes "LogLk \<notin> set (held s)" and "\<not> log_committing s" and "lh_n s + (log_outstanding s + 1) * int MAXOPBLOCKS \<le> int LOGSIZE"
  shows "begin_op s e = Ret () (begun s) e"
proof -
  have "begin_op_round (s\<lparr>held := LogLk # held s\<rparr>) e = Ret (Inr ()) (begun s) e"
    using assms(2,3) by (simp add: begin_op_round_def monad_defs unlock_ret begun_def)
  then show ?thesis using assms(1) by (simp add: begin_op_def forever_def monad_defs lock_ret)
qed

text \<open>The header after \<open>log_write\<close> of a block.\<close>

definition recorded :: "u32 \<Rightarrow> int \<Rightarrow> u32 list \<Rightarrow> int \<times> u32 list" where
  "recorded b n bl = (if b \<in> set (take (nat n) bl) then (n, bl) else (n + 1, bl[nat n := b]))"

lemma log_slot_recorded:
  assumes "0 \<le> n" and "nat n \<le> length bl"
  shows "(if int (log_slot n bl b) = n then n + 1 else n, bl[log_slot n bl b := b]) = recorded b n bl"
proof (cases "find (\<lambda>i. bl ! i = b) [0..<nat n]")
  case None
  then have "b \<notin> set (take (nat n) bl)" using assms(2) by (auto simp: find_None_iff in_set_conv_nth)
  then show ?thesis using None assms by (simp add: log_slot_def recorded_def)
next
  case (Some i)
  then have i: "i < nat n" "bl ! i = b" by (auto simp: find_Some_iff)
  then have "b \<in> set (take (nat n) bl)" using assms(2) by (auto simp: in_set_conv_nth intro!: exI [of _ i])
  moreover have "bl[i := b] = bl" using i(2) by auto
  ultimately show ?thesis using Some i assms(1) by (auto simp: log_slot_def recorded_def)
qed

definition after_log_write :: "nat \<Rightarrow> 'z logst_scheme \<Rightarrow> 'z logst_scheme" where
  "after_log_write i s = (let r = recorded (b_blockno (bufs s ! i)) (lh_n s) (lh_block s) in
     s\<lparr>lh_block := snd r, lh_n := fst r, bufs := upd i (\<lambda>b. b\<lparr>b_flags := b_flags b OR B_DIRTY\<rparr>) (bufs s)\<rparr>)"

lemma log_write_ret:
  assumes "LogLk \<notin> set (held s)" and "0 \<le> lh_n s" and "lh_n s < int LOGSIZE" and "lh_n s < log_size s - 1" and "1 \<le> log_outstanding s"
    and "length (lh_block s) = LOGSIZE"
  shows "log_write i s e = Ret () (after_log_write i s) e"
proof (rule wp_eq_ret)
  fix Q
  have "recorded b (lh_n s) (lh_block s) = (if int (log_slot (lh_n s) (lh_block s) b) = lh_n s then lh_n s + 1 else lh_n s,
      (lh_block s)[log_slot (lh_n s) (lh_block s) b := b])" for b
    using log_slot_recorded [of "lh_n s" "lh_block s" b] assms by simp
  then show "wp (log_write i) Q s e = Q () (after_log_write i s) e"
    using assms by (simp add: log_write_def wp_rules after_log_write_def Let_def)
qed

text \<open>
  There is room for one more call. Runs of other processes that come back as the scheduler resumes a process: on its processor with the
  table's lock as the only one held.
\<close>

definition log_admits :: "'z logst_scheme \<Rightarrow> bool" where
  "log_admits s \<longleftrightarrow> \<not> log_committing s \<and> lh_n s + (log_outstanding s + 1) * int MAXOPBLOCKS \<le> int LOGSIZE"

definition resumes :: "('z logst_scheme \<Rightarrow> 'z logst_scheme) list \<Rightarrow> bool" where
  "resumes e \<longleftrightarrow> (\<forall>f\<in>set e. \<forall>s. cur (f s) = cur s \<and> length (ptable (f s)) = length (ptable s) \<and> held (f s) = held s)"

lemma log_admits_blind [simp]:
  "log_admits (s\<lparr>held := h\<rparr>) = log_admits s" "log_admits (s\<lparr>ptable := tab\<rparr>) = log_admits s"
  "log_admits (s\<lparr>cpu_intena := b\<rparr>) = log_admits s"
  by (simp_all add: log_admits_def)

text \<open>A caller that waits for room: \<open>I\<close> is kept by the other processes while it sleeps, and \<open>Q\<close> follows when there is room.\<close>

lemma wlp_begin_op:
  fixes s :: "'z logst_scheme"
  assumes s: "cur s = Some c" "c < length (ptable s)" "held s = []" "resumes e" and I: "I s"
    and blind: "\<And>s h. I (s\<lparr>held := h\<rparr>) = I s" "\<And>s tab. I (s\<lparr>ptable := tab\<rparr>) = I s" "\<And>s b. I (s\<lparr>cpu_intena := b\<rparr>) = I s"
    and keep: "\<And>f s. f \<in> set e \<Longrightarrow> I s \<Longrightarrow> \<not> log_admits s \<Longrightarrow> I (f s)"
    and Q: "\<And>s d. I s \<Longrightarrow> log_admits s \<Longrightarrow> Q () (s\<lparr>log_outstanding := log_outstanding s + 1, held := []\<rparr>) d"
  shows "wlp begin_op Q s e"
proof -
  let ?J = "\<lambda>_ t d. cur t = Some c \<and> c < length (ptable t) \<and> held t = [LogLk] \<and> set d \<subseteq> set e \<and> I t"
  have "wlp (forever (\<lambda>_. begin_op_round) ()) Q (s\<lparr>held := [LogLk]\<rparr>) e"
  proof (rule wlp_forever [where I = ?J])
    show "?J () (s\<lparr>held := [LogLk]\<rparr>) e" using s I by (simp add: blind)
    fix x :: unit and t :: "'z logst_scheme" and d
    assume t: "?J x t d"
    show "wlp begin_op_round (\<lambda>r u d'. case r of Inl y \<Rightarrow> length d' < length d \<and> ?J y u d' | Inr a \<Rightarrow> Q a u d') t d"
    proof (cases "log_admits t")
      case True
      then show ?thesis using t Q [OF _ True, of d] by (auto simp: begin_op_round_def wp_rules log_admits_def)
    next
      case False
      then have sl: "begin_op_round t d = andthen (sleep ChLog (Some LogLk)) (return (Inl ())) t d"
        by (auto simp: begin_op_round_def monad_defs log_admits_def)
      have "wlp (andthen (sleep ChLog (Some LogLk)) (return (Inl ())))
          (\<lambda>r u d'. case r of Inl y \<Rightarrow> length d' < length d \<and> ?J y u d' | Inr a \<Rightarrow> Q a u d') t d"
        using t s(4) False keep by (auto simp: sleep_def wp_rules resumes_def blind split: list.split)
      then show ?thesis by (simp add: wlp_def sl)
    qed
  qed
  then show ?thesis using s(3) by (simp add: begin_op_def wp_rules)
qed

lemma begin_op_waits:
  fixes s :: "'z logst_scheme"
  assumes "cur s = Some c" "c < length (ptable s)" "held s = []" "resumes e" "\<not> log_admits s"
    and "\<forall>f\<in>set e. \<forall>t. \<not> log_admits t \<longrightarrow> \<not> log_admits (f t)"
  shows "begin_op s e = Stuck"
proof -
  have "wlp begin_op (\<lambda>_ _ _. False) s e"
    by (rule wlp_begin_op [OF assms(1-4), where I = "\<lambda>s. \<not> log_admits s"]) (use assms in auto)
  then show ?thesis by (simp add: wlp_def split: result.splits)
qed

lemma begin_op_admitted:
  fixes s :: "'z logst_scheme"
  assumes "cur s = Some c" "c < length (ptable s)" "held s = []" "resumes e"
  shows "wlp begin_op (\<lambda>_ t d. held t = [] \<and> \<not> log_committing t \<and> lh_n t + log_outstanding t * int MAXOPBLOCKS \<le> int LOGSIZE) s e"
  by (rule wlp_begin_op [OF assms, where I = "\<lambda>_. True"]) (simp_all add: log_admits_def)

lemma begin_op_resumed:
  fixes s :: "'z logst_scheme"
  assumes s: "cur s = Some c" "c < length (ptable s)" "held s = []" "resumes (f # d)" and r: "\<not> log_admits s" "\<forall>t. log_admits (f t)"
  shows "\<exists>t. begin_op s (f # d) = Ret () t d"
proof -
  have g: "\<not> log_committing (f t)" "\<not> 20 < lh_n (f t) + log_outstanding (f t) * 10"
      "cur (f t) = cur t" "length (ptable (f t)) = length (ptable t)" "held (f t) = held t" for t
    using s(4) r(2) by (simp_all add: resumes_def log_admits_def not_less)
  have "wp (forever (\<lambda>_. begin_op_round) ()) (\<lambda>_ _ d'. d' = d) (s\<lparr>held := [LogLk]\<rparr>) (f # d)"
    by (rule wp_forever_once) (use s r(1) in \<open>auto simp: begin_op_round_def sleep_def wp_rules log_admits_def not_le g\<close>)
  then have "wp begin_op (\<lambda>_ _ d'. d' = d) s (f # d)" using s(3) by (simp add: begin_op_def wp_rules)
  then show ?thesis by (auto simp: wp_def split: result.splits)
qed

text \<open>
  C26. The room of the log. \<open>begin_op\<close> admits a call exactly when no commit is in progress and the blocks already logged and the calls
  in progress, this one included, at ten blocks each, fit into \<open>LOGSIZE\<close>: then it returns at once with the call counted; otherwise it
  sleeps, does not return for as long as the other processes leave no room, and returns when it is resumed with room; whenever it
  returns, after any runs of other processes, there was room and no commit. The log that the disk holds has one block less, for its header: with the size that
  \<open>mkfs\<close> writes, \<open>log_write\<close> panics at the thirtieth block of transactions that \<open>begin_op\<close> has admitted. Below that, \<open>log_write\<close>
  records the block, once however often it is written, and pins its buffer.
\<close>

theorem log_room:
  fixes s :: "'z logst_scheme"
  assumes "held s = []" and "0 \<le> lh_n s" and "log_size s = int LOGSIZE" and "length (lh_block s) = LOGSIZE"
    and "cur s = Some c" and "c < length (ptable s)" and "resumes e"
  shows "(log_admits s \<longrightarrow> begin_op s e = Ret () (s\<lparr>log_outstanding := log_outstanding s + 1\<rparr>) e) \<and>
    (\<not> log_admits s \<and> (\<forall>f\<in>set e. \<forall>t. \<not> log_admits t \<longrightarrow> \<not> log_admits (f t)) \<longrightarrow> begin_op s e = Stuck) \<and>
    (\<forall>f d. \<not> log_admits s \<and> e = f # d \<and> (\<forall>t. log_admits (f t)) \<longrightarrow> (\<exists>t. begin_op s e = Ret () t d)) \<and>
    wlp begin_op (\<lambda>_ t d. held t = [] \<and> \<not> log_committing t \<and> lh_n t + log_outstanding t * int MAXOPBLOCKS \<le> int LOGSIZE) s e \<and>
    (int LOGSIZE - 1 \<le> lh_n s \<longrightarrow> log_write i s e = Panic ''too big a transaction'') \<and>
    (lh_n s < int LOGSIZE - 1 \<and> 1 \<le> log_outstanding s \<and> i < length (bufs s) \<and> distinct (take (nat (lh_n s)) (lh_block s)) \<longrightarrow>
      (\<exists>t. log_write i s e = Ret () t e \<and> dirty (bufs t ! i) \<and> distinct (take (nat (lh_n t)) (lh_block t)) \<and>
        set (take (nat (lh_n t)) (lh_block t)) = insert (b_blockno (bufs s ! i)) (set (take (nat (lh_n s)) (lh_block s)))))"
proof (intro conjI allI impI)
  have nl: "LogLk \<notin> set (held s)" using assms(1) by simp
  show "begin_op s e = Ret () (s\<lparr>log_outstanding := log_outstanding s + 1\<rparr>) e" if "log_admits s"
    using begin_op_ret [OF nl] that by (simp add: begun_def log_admits_def)
  show "begin_op s e = Stuck" if "\<not> log_admits s \<and> (\<forall>f\<in>set e. \<forall>t. \<not> log_admits t \<longrightarrow> \<not> log_admits (f t))"
    using begin_op_waits [OF assms(5,6,1,7)] that by blast
  show "\<exists>t. begin_op s e = Ret () t d" if "\<not> log_admits s \<and> e = f # d \<and> (\<forall>t. log_admits (f t))" for f d
    using begin_op_resumed [OF assms(5,6,1)] that assms(7) by simp
  show "wlp begin_op (\<lambda>_ t d. held t = [] \<and> \<not> log_committing t \<and> lh_n t + log_outstanding t * int MAXOPBLOCKS \<le> int LOGSIZE) s e"
    by (rule begin_op_admitted [OF assms(5,6,1,7)])
  show "log_write i s e = Panic ''too big a transaction''" if "int LOGSIZE - 1 \<le> lh_n s"
    using that assms(3) by (simp add: log_write_def monad_defs)
  show "\<exists>t. log_write i s e = Ret () t e \<and> dirty (bufs t ! i) \<and> distinct (take (nat (lh_n t)) (lh_block t)) \<and>
        set (take (nat (lh_n t)) (lh_block t)) = insert (b_blockno (bufs s ! i)) (set (take (nat (lh_n s)) (lh_block s)))"
    if h: "lh_n s < int LOGSIZE - 1 \<and> 1 \<le> log_outstanding s \<and> i < length (bufs s) \<and> distinct (take (nat (lh_n s)) (lh_block s))"
  proof -
    let ?b = "b_blockno (bufs s ! i)" and ?n = "nat (lh_n s)"
    have n: "?n < length (lh_block s)" "nat (lh_n s + 1) = Suc ?n" using h assms(2,4) by auto
    have "take (Suc ?n) ((lh_block s)[?n := ?b]) = take ?n (lh_block s) @ [?b]" using n(1) by (simp add: take_Suc_conv_app_nth)
    then have "distinct (take (nat (lh_n (after_log_write i s))) (lh_block (after_log_write i s)))"
        "set (take (nat (lh_n (after_log_write i s))) (lh_block (after_log_write i s))) = insert ?b (set (take ?n (lh_block s)))"
      using h n(2) by (auto simp: after_log_write_def recorded_def Let_def)
    moreover have "dirty (bufs (after_log_write i s) ! i)" using h by (simp add: after_log_write_def Let_def)
    ultimately show ?thesis using log_write_ret [OF nl assms(2) _ _ _ assms(4), of i e] h assms(3) by auto
  qed
qed

text \<open>A process in the example state, which waits when it finds three calls in progress until one of them has ended.\<close>

definition log_call :: "logst" where
  "log_call = log_demo\<lparr>cur := Some 0\<rparr>"

definition room_made :: "logst \<Rightarrow> logst" where
  "room_made s = s\<lparr>log_outstanding := 0, lh_n := 0, log_committing := False\<rparr>"

theorem log_room_witness:
  "begin_op log_call [] = Ret () (log_call\<lparr>log_outstanding := 2\<rparr>) [] \<and>
   begin_op (log_call\<lparr>log_outstanding := 3\<rparr>) [id, id] = Stuck \<and>
   (\<exists>t. begin_op (log_call\<lparr>log_outstanding := 3\<rparr>) [room_made] = Ret () t []) \<and>
   wlp begin_op (\<lambda>_ t d. lh_n t + log_outstanding t * 10 \<le> 30) (log_call\<lparr>log_outstanding := 3\<rparr>) [room_made] \<and>
   log_write 0 (log_call\<lparr>lh_n := 29, log_outstanding := 3\<rparr>) [] = Panic ''too big a transaction'' \<and>
   (\<exists>t. log_write 0 log_call [] = Ret () t [] \<and> dirty (bufs t ! 0))"
proof (intro conjI)
  note d = log_call_def room_made_def demo_defs ring_def resumes_def log_admits_def
  show "begin_op log_call [] = Ret () (log_call\<lparr>log_outstanding := 2\<rparr>) []"
    using log_room [of log_call 0 "[]" 0] by (simp add: d)
  show "begin_op (log_call\<lparr>log_outstanding := 3\<rparr>) [id, id] = Stuck"
    using log_room [of "log_call\<lparr>log_outstanding := 3\<rparr>" 0 "[id, id]" 0] by (simp add: d)
  show "\<exists>t. begin_op (log_call\<lparr>log_outstanding := 3\<rparr>) [room_made] = Ret () t []"
    using log_room [of "log_call\<lparr>log_outstanding := 3\<rparr>" 0 "[room_made]" 0] by (simp add: d)
  show "wlp begin_op (\<lambda>_ t d. lh_n t + log_outstanding t * 10 \<le> 30) (log_call\<lparr>log_outstanding := 3\<rparr>) [room_made]"
    by (rule wlp_mono [OF log_room [THEN conjunct2, THEN conjunct2, THEN conjunct2, THEN conjunct1], of _ 0]) (simp_all add: d)
  show "log_write 0 (log_call\<lparr>lh_n := 29, log_outstanding := 3\<rparr>) [] = Panic ''too big a transaction''"
    using log_room [of "log_call\<lparr>lh_n := 29, log_outstanding := 3\<rparr>" 0 "[]" 0] by (simp add: d)
  show "\<exists>t. log_write 0 log_call [] = Ret () t [] \<and> dirty (bufs t ! 0)"
    using log_room [of log_call 0 "[]" 0] demo_ring by (auto simp: d)
qed

end
