(* ===== verification/Fs.thy ===== *)
theory Fs
  imports Log
begin

text \<open>
  The file system, \<open>fs.c\<close>: the block allocator, inodes, their contents, directories and path names.

  A pointer to an in-memory inode is its index in \<open>icache\<close>; sleep lock \<open>InodeSleepLk i\<close> is its lock. Where C passes
  a buffer to fill, the operation here returns the bytes that it stores there; where C passes a buffer to read, it takes
  the bytes. The table \<open>devsw\<close> of the device functions is an argument: the console's functions call back into this component. A
  path is the list of the bytes before its terminating zero, and a path element is the bytes of the array \<open>name\<close> before the first zero.
\<close>

unbundle bit_operations_syntax

abbreviation NINODE :: nat where "NINODE \<equiv> 50"
abbreviation NDEV :: nat where "NDEV \<equiv> 10"
abbreviation NDIRECT :: nat where "NDIRECT \<equiv> 12"
abbreviation NINDIRECT :: nat where "NINDIRECT \<equiv> 128"
abbreviation MAXFILE :: nat where "MAXFILE \<equiv> 140"
abbreviation DIRSIZ :: nat where "DIRSIZ \<equiv> 14"
abbreviation BPB :: nat where "BPB \<equiv> 4096"
abbreviation IPB :: nat where "IPB \<equiv> 8"
abbreviation ROOTDEV :: u32 where "ROOTDEV \<equiv> 1"
abbreviation ROOTINO :: u32 where "ROOTINO \<equiv> 1"

abbreviation T_DIR :: u16 where "T_DIR \<equiv> 1"
abbreviation T_FILE :: u16 where "T_FILE \<equiv> 2"
abbreviation T_DEV :: u16 where "T_DEV \<equiv> 3"

record inode =
  i_dev :: u32
  i_inum :: u32
  i_ref :: int
  i_valid :: bool
  i_type :: u16
  i_major :: u16
  i_minor :: u16
  i_nlink :: u16
  i_size :: u32
  i_addrs :: "u32 list"

record fsst = logst +
  sb :: superblock
  icache :: "inode list"

record 's devsw =
  d_read :: "(nat \<Rightarrow> nat \<Rightarrow> ('s, int \<times> u8 list) kop) option"
  d_write :: "(nat \<Rightarrow> u8 list \<Rightarrow> ('s, int) kop) option"

record stat =
  st_type :: u16
  st_dev :: u32
  st_ino :: u32
  st_nlink :: u16
  st_size :: u32

definition geti :: "nat \<Rightarrow> ('z fsst_scheme, inode) kop" where
  "geti i = gets (\<lambda>s. icache s ! i)"

definition seti :: "nat \<Rightarrow> (inode \<Rightarrow> inode) \<Rightarrow> ('z fsst_scheme, unit) kop" where
  "seti i f = modify (\<lambda>s. s\<lparr>icache := (icache s)[i := f (icache s ! i)]\<rparr>)"

definition IBLOCK :: "u32 \<Rightarrow> superblock \<Rightarrow> u32" where
  "IBLOCK i k = i div 8 + sb_inodestart k"

definition BBLOCK :: "u32 \<Rightarrow> superblock \<Rightarrow> u32" where
  "BBLOCK b k = b div 4096 + sb_bmapstart k"

section \<open>Blocks\<close>

definition bzero :: "u32 \<Rightarrow> u32 \<Rightarrow> ('z fsst_scheme, unit) kop" where
  "bzero dev bno = bind (bread dev bno) (\<lambda>bp. seqM [
     setdata bp (\<lambda>_. replicate BSIZE 0),
     log_write bp,
     brelse bp])"

text \<open>The mask of the bit for block \<open>bi\<close> of a group, and whether the bit is clear.\<close>

definition bmask :: "nat \<Rightarrow> u8" where
  "bmask bi = push_bit (bi mod 8) 1"

definition bit_clear :: "u8 list \<Rightarrow> nat \<Rightarrow> bool" where
  "bit_clear d bi \<longleftrightarrow> d ! (bi div 8) AND bmask bi = 0"

fun balloc_loop :: "u32 \<Rightarrow> nat list \<Rightarrow> ('z fsst_scheme, u32) kop" where
  "balloc_loop dev [] = panic ''balloc: out of blocks''"
| "balloc_loop dev (b # bs) = bind (gets sb) (\<lambda>sb. bind (bread dev (BBLOCK (of_nat b) sb)) (\<lambda>bp. bind (getb bp) (\<lambda>buf.
     case find (bit_clear (b_data buf)) [0..<min BPB (unat (sb_size sb) - b)] of
       Some bi \<Rightarrow> andthen (seqM [
           setdata bp (\<lambda>d. d[bi div 8 := d ! (bi div 8) OR bmask bi]),
           log_write bp,
           brelse bp,
           bzero dev (of_nat (b + bi))])
         (return (of_nat (b + bi)))
     | None \<Rightarrow> andthen (brelse bp) (balloc_loop dev bs))))"

definition balloc :: "u32 \<Rightarrow> ('z fsst_scheme, u32) kop" where
  "balloc dev = bind (gets sb) (\<lambda>sb. balloc_loop dev (map (\<lambda>k. k * BPB) [0..<(unat (sb_size sb) + BPB - 1) div BPB]))"

definition bfree :: "u32 \<Rightarrow> u32 \<Rightarrow> ('z fsst_scheme, unit) kop" where
  "bfree dev b = bind (readsb dev) (\<lambda>sb'. andthen (modify (\<lambda>s. s\<lparr>sb := sb'\<rparr>))
    (bind (bread dev (BBLOCK b sb')) (\<lambda>bp. bind (getb bp) (\<lambda>buf.
     let bi = unat b mod BPB in
     if bit_clear (b_data buf) bi then panic ''freeing free block''
     else seqM [
       setdata bp (\<lambda>d. d[bi div 8 := d ! (bi div 8) AND NOT (bmask bi)]),
       log_write bp,
       brelse bp]))))"

section \<open>Inodes\<close>

definition iinit :: "u32 \<Rightarrow> ('z fsst_scheme, unit) kop" where
  "iinit dev = andthen (forM [0..<NINODE] (\<lambda>i. initsleeplock (InodeSleepLk i)))
    (bind (readsb dev) (\<lambda>sb'. seqM [
       modify (\<lambda>s. s\<lparr>sb := sb'\<rparr>),
       cprintf ''sb: size %d nblocks %d ninodes %d nlog %d logstart %d inodestart %d bmap start %d\<newline>''
         [AInt (sb_size sb'), AInt (sb_nblocks sb'), AInt (sb_ninodes sb'), AInt (sb_nlog sb'),
          AInt (sb_logstart sb'), AInt (sb_inodestart sb'), AInt (sb_bmapstart sb')]]))"

text \<open>The inode \<open>inum\<close> in its block: its place, its bytes written from and read into the in-memory inode.\<close>

definition dip :: "u32 \<Rightarrow> nat" where
  "dip inum = (unat inum mod IPB) * 64"

definition put_dinode :: "inode \<Rightarrow> u8 list \<Rightarrow> u8 list" where
  "put_dinode ip d = (let at = dip (i_inum ip) in
     put32s (at + 12) (\<lambda>k. i_addrs ip ! k) (NDIRECT + 1)
      (put32 (at + 8) (i_size ip) (put16 (at + 6) (i_nlink ip) (put16 (at + 4) (i_minor ip)
        (put16 (at + 2) (i_major ip) (put16 at (i_type ip) d))))))"

definition load_dinode :: "u8 list \<Rightarrow> inode \<Rightarrow> inode" where
  "load_dinode d ip = (let at = dip (i_inum ip) in
     ip\<lparr>i_type := get16 d at, i_major := get16 d (at + 2), i_minor := get16 d (at + 4), i_nlink := get16 d (at + 6),
       i_size := get32 d (at + 8), i_addrs := map (\<lambda>k. get32 d (at + 12 + 4 * k)) [0..<NDIRECT + 1]\<rparr>)"

definition iget :: "u32 \<Rightarrow> u32 \<Rightarrow> ('z fsst_scheme, nat) kop" where
  "iget dev inum = andthen (lock IcacheLk) (bind (gets icache) (\<lambda>tab.
     case find_idx (\<lambda>ip. 0 < i_ref ip \<and> i_dev ip = dev \<and> i_inum ip = inum) tab of
       Some i \<Rightarrow> andthen (seqM [seti i (\<lambda>ip. ip\<lparr>i_ref := i_ref ip + 1\<rparr>), unlock IcacheLk]) (return i)
     | None \<Rightarrow> (case find_idx (\<lambda>ip. i_ref ip = 0) tab of
           None \<Rightarrow> panic ''iget: no inodes''
         | Some i \<Rightarrow> andthen (seqM [
               seti i (\<lambda>ip. ip\<lparr>i_dev := dev, i_inum := inum, i_ref := 1, i_valid := False\<rparr>),
               unlock IcacheLk])
             (return i))))"

fun ialloc_loop :: "u32 \<Rightarrow> u16 \<Rightarrow> nat list \<Rightarrow> ('z fsst_scheme, nat) kop" where
  "ialloc_loop dev type [] = panic ''ialloc: no inodes''"
| "ialloc_loop dev type (inum # is) = bind (gets sb) (\<lambda>sb. bind (bread dev (IBLOCK (of_nat inum) sb)) (\<lambda>bp. bind (getb bp) (\<lambda>buf.
     let at = dip (of_nat inum) in
     if get16 (b_data buf) at = 0 then
       andthen (seqM [
         setdata bp (\<lambda>d. put16 at type (put_bytes at (replicate 64 0) d)),
         log_write bp,
         brelse bp])
        (iget dev (of_nat inum))
     else andthen (brelse bp) (ialloc_loop dev type is))))"

definition ialloc :: "u32 \<Rightarrow> u16 \<Rightarrow> ('z fsst_scheme, nat) kop" where
  "ialloc dev type = bind (gets sb) (\<lambda>sb. ialloc_loop dev type [1..<unat (sb_ninodes sb)])"

definition iupdate :: "nat \<Rightarrow> ('z fsst_scheme, unit) kop" where
  "iupdate i = bind (geti i) (\<lambda>ip. bind (gets sb) (\<lambda>sb. bind (bread (i_dev ip) (IBLOCK (i_inum ip) sb)) (\<lambda>bp. seqM [
     setdata bp (put_dinode ip),
     log_write bp,
     brelse bp])))"

definition idup :: "nat \<Rightarrow> ('z fsst_scheme, nat) kop" where
  "idup i = andthen (seqM [lock IcacheLk, seti i (\<lambda>ip. ip\<lparr>i_ref := i_ref ip + 1\<rparr>), unlock IcacheLk]) (return i)"

definition ilock :: "nat \<Rightarrow> ('z fsst_scheme, unit) kop" where
  "ilock i = bind (geti i) (\<lambda>ip.
     if i_ref ip < 1 then panic ''ilock''
     else andthen (acquiresleep (InodeSleepLk i)) (bind (geti i) (\<lambda>ip.
       whenM (\<not> i_valid ip)
        (bind (gets sb) (\<lambda>sb. bind (bread (i_dev ip) (IBLOCK (i_inum ip) sb)) (\<lambda>bp. bind (getb bp) (\<lambda>buf.
         andthen (seqM [
           seti i (load_dinode (b_data buf)),
           brelse bp,
           seti i (\<lambda>ip. ip\<lparr>i_valid := True\<rparr>)])
          (bind (geti i) (\<lambda>ip. whenM (i_type ip = 0) (panic ''ilock: no type''))))))))))"

definition iunlock :: "nat \<Rightarrow> ('z fsst_scheme, unit) kop" where
  "iunlock i = bind (holdingsleep (InodeSleepLk i)) (\<lambda>h. bind (geti i) (\<lambda>ip.
     if \<not> h \<or> i_ref ip < 1 then panic ''iunlock'' else releasesleep (InodeSleepLk i)))"

text \<open>The loop over the direct blocks, and the one over the entries of the indirect block.\<close>

definition itrunc :: "nat \<Rightarrow> ('z fsst_scheme, unit) kop" where
  "itrunc i = seqM [
     forM [0..<NDIRECT] (\<lambda>k. bind (geti i) (\<lambda>ip. whenM (i_addrs ip ! k \<noteq> 0) (seqM [
       bfree (i_dev ip) (i_addrs ip ! k),
       seti i (\<lambda>ip. ip\<lparr>i_addrs := (i_addrs ip)[k := 0]\<rparr>)]))),
     bind (geti i) (\<lambda>ip. whenM (i_addrs ip ! NDIRECT \<noteq> 0)
       (bind (bread (i_dev ip) (i_addrs ip ! NDIRECT)) (\<lambda>bp. seqM [
         forM [0..<NINDIRECT] (\<lambda>j. bind (getb bp) (\<lambda>buf. let a = get32 (b_data buf) (4 * j) in
           whenM (a \<noteq> 0) (bfree (i_dev ip) a))),
         brelse bp,
         bfree (i_dev ip) (i_addrs ip ! NDIRECT),
         seti i (\<lambda>ip. ip\<lparr>i_addrs := (i_addrs ip)[NDIRECT := 0]\<rparr>)]))),
     seti i (\<lambda>ip. ip\<lparr>i_size := 0\<rparr>),
     iupdate i]"

definition iput :: "nat \<Rightarrow> ('z fsst_scheme, unit) kop" where
  "iput i = andthen (acquiresleep (InodeSleepLk i)) (bind (geti i) (\<lambda>ip. seqM [
     whenM (i_valid ip \<and> i_nlink ip = 0)
      (andthen (lock IcacheLk) (bind (geti i) (\<lambda>ip. let r = i_ref ip in seqM [
         unlock IcacheLk,
         whenM (r = 1) (seqM [
           itrunc i,
           seti i (\<lambda>ip. ip\<lparr>i_type := 0\<rparr>),
           iupdate i,
           seti i (\<lambda>ip. ip\<lparr>i_valid := False\<rparr>)])]))),
     releasesleep (InodeSleepLk i),
     lock IcacheLk,
     seti i (\<lambda>ip. ip\<lparr>i_ref := i_ref ip - 1\<rparr>),
     unlock IcacheLk]))"

definition iunlockput :: "nat \<Rightarrow> ('z fsst_scheme, unit) kop" where
  "iunlockput i = seqM [iunlock i, iput i]"

section \<open>Contents\<close>

definition bmap :: "nat \<Rightarrow> nat \<Rightarrow> ('z fsst_scheme, u32) kop" where
  "bmap i bn = bind (geti i) (\<lambda>ip.
     if bn < NDIRECT then
       if i_addrs ip ! bn = 0 then
         bind (balloc (i_dev ip)) (\<lambda>addr. andthen (seti i (\<lambda>ip. ip\<lparr>i_addrs := (i_addrs ip)[bn := addr]\<rparr>)) (return addr))
       else return (i_addrs ip ! bn)
     else if bn - NDIRECT < NINDIRECT then
       let bn = bn - NDIRECT in
       bind (if i_addrs ip ! NDIRECT = 0 then
           bind (balloc (i_dev ip)) (\<lambda>addr. andthen (seti i (\<lambda>ip. ip\<lparr>i_addrs := (i_addrs ip)[NDIRECT := addr]\<rparr>)) (return addr))
         else return (i_addrs ip ! NDIRECT)) (\<lambda>ind.
       bind (bread (i_dev ip) ind) (\<lambda>bp. bind (getb bp) (\<lambda>buf.
       bind (if get32 (b_data buf) (4 * bn) = 0 then
           bind (balloc (i_dev ip)) (\<lambda>addr. andthen (seqM [setdata bp (put32 (4 * bn) addr), log_write bp]) (return addr))
         else return (get32 (b_data buf) (4 * bn))) (\<lambda>addr.
       andthen (brelse bp) (return addr)))))
     else panic ''bmap: out of range'')"

definition stati :: "nat \<Rightarrow> ('z fsst_scheme, stat) kop" where
  "stati i = bind (geti i) (\<lambda>ip. return \<lparr>st_type = i_type ip, st_dev = i_dev ip, st_ino = i_inum ip,
     st_nlink = i_nlink ip, st_size = i_size ip\<rparr>)"

text \<open>The copying loop: \<open>off\<close> is the place in the file, \<open>n\<close> the number of bytes left.\<close>

fun readi_loop :: "nat \<Rightarrow> u32 \<Rightarrow> nat \<Rightarrow> nat \<Rightarrow> ('z fsst_scheme, u8 list) kop" where
  "readi_loop i dev off n = (if n = 0 then return []
     else bind (bmap i (off div BSIZE)) (\<lambda>addr. bind (bread dev addr) (\<lambda>bp. bind (getb bp) (\<lambda>buf.
       let m = min n (BSIZE - off mod BSIZE) in
       andthen (brelse bp) (bind (readi_loop i dev (off + m) (n - m)) (\<lambda>rest.
         return (get_bytes (off mod BSIZE) m (b_data buf) @ rest)))))))"

definition readi :: "'z fsst_scheme devsw list \<Rightarrow> nat \<Rightarrow> u32 \<Rightarrow> u32 \<Rightarrow> ('z fsst_scheme, int \<times> u8 list) kop" where
  "readi devs i off n = bind (geti i) (\<lambda>ip.
     if i_type ip = T_DEV then
       if sint (i_major ip) < 0 \<or> int NDEV \<le> sint (i_major ip) then return (- 1, [])
       else (case d_read (devs ! nat (sint (i_major ip))) of
           None \<Rightarrow> return (- 1, [])
         | Some rd \<Rightarrow> rd i (unat n))
     else if i_size ip < off \<or> off + n < off then return (- 1, [])
     else
       let n' = (if i_size ip < off + n then i_size ip - off else n) in
       bind (readi_loop i (i_dev ip) (unat off) (unat n')) (\<lambda>bs. return (sint n', bs)))"

fun writei_loop :: "nat \<Rightarrow> u32 \<Rightarrow> nat \<Rightarrow> nat \<Rightarrow> u8 list \<Rightarrow> ('z fsst_scheme, unit) kop" where
  "writei_loop i dev off n src = (if n = 0 then skip
     else bind (bmap i (off div BSIZE)) (\<lambda>addr. bind (bread dev addr) (\<lambda>bp.
       let m = min n (BSIZE - off mod BSIZE) in
       andthen (seqM [
         setdata bp (put_bytes (off mod BSIZE) (take m src)),
         log_write bp,
         brelse bp])
        (writei_loop i dev (off + m) (n - m) (drop m src)))))"

definition writei :: "'z fsst_scheme devsw list \<Rightarrow> nat \<Rightarrow> u8 list \<Rightarrow> u32 \<Rightarrow> u32 \<Rightarrow> ('z fsst_scheme, int) kop" where
  "writei devs i src off n = bind (geti i) (\<lambda>ip.
     if i_type ip = T_DEV then
       if sint (i_major ip) < 0 \<or> int NDEV \<le> sint (i_major ip) then return (- 1)
       else (case d_write (devs ! nat (sint (i_major ip))) of
           None \<Rightarrow> return (- 1)
         | Some wr \<Rightarrow> wr i (take (unat n) src))
     else if i_size ip < off \<or> off + n < off then return (- 1)
     else if of_nat (MAXFILE * BSIZE) < off + n then return (- 1)
     else andthen (writei_loop i (i_dev ip) (unat off) (unat n) src)
       (bind (geti i) (\<lambda>ip.
        andthen (whenM (0 < n \<and> i_size ip < off + n) (seqM [seti i (\<lambda>ip. ip\<lparr>i_size := off + n\<rparr>), iupdate i]))
         (return (sint n)))))"

section \<open>Directories\<close>

text \<open>The bytes of a name followed by zeros.\<close>

definition cstr :: "u8 list \<Rightarrow> nat \<Rightarrow> u8" where
  "cstr bs i = (if i < length bs then bs ! i else 0)"

definition namecmp :: "(nat \<Rightarrow> u8) \<Rightarrow> (nat \<Rightarrow> u8) \<Rightarrow> int" where
  "namecmp s t = strncmp s t DIRSIZ"

text \<open>The offsets of the entries of a directory of \<open>sz\<close> bytes.\<close>

definition dir_offs :: "u32 \<Rightarrow> nat list" where
  "dir_offs sz = map (\<lambda>k. 16 * k) [0..<(unat sz + 15) div 16]"

fun dirlookup_loop :: "'z fsst_scheme devsw list \<Rightarrow> nat \<Rightarrow> u8 list \<Rightarrow> nat list \<Rightarrow> ('z fsst_scheme, (nat \<times> nat) option) kop" where
  "dirlookup_loop devs dp name [] = return None"
| "dirlookup_loop devs dp name (off # offs) = bind (readi devs dp (of_nat off) 16) (\<lambda>(r, de).
     if r \<noteq> 16 then panic ''dirlookup read''
     else if get16 de 0 = 0 then dirlookup_loop devs dp name offs
     else if namecmp (cstr name) (\<lambda>i. de ! (i + 2)) = 0 then
       bind (geti dp) (\<lambda>d. bind (iget (i_dev d) (ucast (get16 de 0))) (\<lambda>i. return (Some (i, off))))
     else dirlookup_loop devs dp name offs)"

definition dirlookup :: "'z fsst_scheme devsw list \<Rightarrow> nat \<Rightarrow> u8 list \<Rightarrow> ('z fsst_scheme, (nat \<times> nat) option) kop" where
  "dirlookup devs dp name = bind (geti dp) (\<lambda>d.
     if i_type d \<noteq> T_DIR then panic ''dirlookup not DIR'' else dirlookup_loop devs dp name (dir_offs (i_size d)))"

text \<open>The first entry that is not in use; the offset behind the last one when there is none.\<close>

fun dirlink_loop :: "'z fsst_scheme devsw list \<Rightarrow> nat \<Rightarrow> nat list \<Rightarrow> nat \<Rightarrow> ('z fsst_scheme, nat) kop" where
  "dirlink_loop devs dp [] fin = return fin"
| "dirlink_loop devs dp (off # offs) fin = bind (readi devs dp (of_nat off) 16) (\<lambda>(r, de).
     if r \<noteq> 16 then panic ''dirlink read''
     else if get16 de 0 = 0 then return off
     else dirlink_loop devs dp offs fin)"

definition dirlink :: "'z fsst_scheme devsw list \<Rightarrow> nat \<Rightarrow> u8 list \<Rightarrow> u32 \<Rightarrow> ('z fsst_scheme, int) kop" where
  "dirlink devs dp name inum = bind (dirlookup devs dp name) (\<lambda>r. case r of
       Some (ip, _) \<Rightarrow> andthen (iput ip) (return (- 1))
     | None \<Rightarrow> bind (geti dp) (\<lambda>d.
         bind (dirlink_loop devs dp (dir_offs (i_size d)) (16 * ((unat (i_size d) + 15) div 16))) (\<lambda>off.
         bind (writei devs dp (put16 0 (ucast inum) ([0, 0] @ strncpy (cstr name) DIRSIZ)) (of_nat off) 16) (\<lambda>r.
         if r \<noteq> 16 then panic ''dirlink'' else return 0))))"

section \<open>Paths\<close>

abbreviation SLASH :: u8 where "SLASH \<equiv> 0x2F"

definition skipelem :: "u8 list \<Rightarrow> (u8 list \<times> u8 list) option" where
  "skipelem path = (let p = dropWhile (\<lambda>c. c = SLASH) path in
     if p = [] then None
     else let s = takeWhile (\<lambda>c. c \<noteq> SLASH) p; rest = dropWhile (\<lambda>c. c \<noteq> SLASH) p in
       Some (dropWhile (\<lambda>c. c = SLASH) rest, take DIRSIZ s))"

lemma skipelem_shorter: "skipelem path = Some (rest, name) \<Longrightarrow> length rest < length path"
proof -
  assume h: "skipelem path = Some (rest, name)"
  define p where "p = dropWhile (\<lambda>c. c = SLASH) path"
  from h have p: "p \<noteq> []" "rest = dropWhile (\<lambda>c. c = SLASH) (dropWhile (\<lambda>c. c \<noteq> SLASH) p)"
    by (auto simp: skipelem_def p_def Let_def split: if_splits)
  have "hd p \<noteq> SLASH" using p(1) unfolding p_def by (rule hd_dropWhile)
  then have "dropWhile (\<lambda>c. c \<noteq> SLASH) p = dropWhile (\<lambda>c. c \<noteq> SLASH) (tl p)" using p(1) by (cases p) auto
  then have "length rest \<le> length (tl p)"
    using p(2) length_dropWhile_le [of _ "tl p"] length_dropWhile_le order_trans by metis
  also have "\<dots> < length p" using p(1) by simp
  also have "\<dots> \<le> length path" unfolding p_def by (rule length_dropWhile_le)
  finally show ?thesis .
qed

function namex_loop :: "'z fsst_scheme devsw list \<Rightarrow> nat \<Rightarrow> bool \<Rightarrow> u8 list \<Rightarrow> u8 list \<Rightarrow> ('z fsst_scheme, (nat \<times> u8 list) option) kop" where
  "namex_loop devs ip parent path nm = (case skipelem path of
       None \<Rightarrow> if parent then andthen (iput ip) (return None) else return (Some (ip, nm))
     | Some (rest, name) \<Rightarrow> andthen (ilock ip) (bind (geti ip) (\<lambda>d.
         if i_type d \<noteq> T_DIR then andthen (iunlockput ip) (return None)
         else if parent \<and> rest = [] then andthen (iunlock ip) (return (Some (ip, name)))
         else bind (dirlookup devs ip name) (\<lambda>r. case r of
             None \<Rightarrow> andthen (iunlockput ip) (return None)
           | Some (nxt, _) \<Rightarrow> andthen (iunlockput ip) (namex_loop devs nxt parent rest name)))))"
  by pat_completeness auto
termination by (relation "measure (\<lambda>(_, _, _, path, _). length path)") (auto dest: skipelem_shorter)

text \<open>The inode found, and the last path element.\<close>

definition namex :: "'z fsst_scheme devsw list \<Rightarrow> u8 list \<Rightarrow> bool \<Rightarrow> ('z fsst_scheme, (nat \<times> u8 list) option) kop" where
  "namex devs path parent =
     bind (if path \<noteq> [] \<and> hd path = SLASH then iget ROOTDEV ROOTINO
       else bind curproc (\<lambda>c. bind (getp c) (\<lambda>p. case p_cwd p of None \<Rightarrow> fault ''idup'' | Some i \<Rightarrow> idup i))) (\<lambda>ip.
     namex_loop devs ip parent path [])"

definition namei :: "'z fsst_scheme devsw list \<Rightarrow> u8 list \<Rightarrow> ('z fsst_scheme, nat option) kop" where
  "namei devs path = bind (namex devs path False) (\<lambda>r. return (map_option fst r))"

definition nameiparent :: "'z fsst_scheme devsw list \<Rightarrow> u8 list \<Rightarrow> ('z fsst_scheme, (nat \<times> u8 list) option) kop" where
  "nameiparent devs path = namex devs path True"

section \<open>Inodes on disk\<close>

lemma dip_bound: "dip n + 64 \<le> BSIZE"
proof -
  have "unat n mod 8 < 8" by simp
  then show ?thesis unfolding dip_def by linarith
qed

lemma dip_disjoint: "unat m mod IPB \<noteq> unat n mod IPB \<Longrightarrow> dip m + 64 \<le> dip n \<or> dip n + 64 \<le> dip m"
  unfolding dip_def by linarith

text \<open>
  C29. An inode survives the disk: reading an inode from the block that \<open>iupdate\<close> has written gives its fields back, and the other inodes of
  the block, and the size of the block, stay.
\<close>
theorem dinode_roundtrip:
  assumes "length d = BSIZE" and "length (i_addrs ip) = NDIRECT + 1" and "i_inum jp = i_inum ip"
    and "unat (i_inum kp) mod IPB \<noteq> unat (i_inum ip) mod IPB"
  shows "load_dinode (put_dinode ip d) jp = jp\<lparr>i_type := i_type ip, i_major := i_major ip, i_minor := i_minor ip,
      i_nlink := i_nlink ip, i_size := i_size ip, i_addrs := i_addrs ip\<rparr> \<and>
    load_dinode (put_dinode ip d) kp = load_dinode d kp \<and> length (put_dinode ip d) = BSIZE"
proof (intro conjI)
  have b: "dip (i_inum ip) + 64 \<le> length d" using dip_bound [of "i_inum ip"] assms(1) by simp
  have "map (\<lambda>k. get32 (put_dinode ip d) (dip (i_inum ip) + 12 + 4 * k)) [0..<NDIRECT + 1] = i_addrs ip"
    by (rule nth_equalityI) (use b assms(2) in \<open>simp_all add: put_dinode_def Let_def bytes_simps del: upt_Suc\<close>)
  then show "load_dinode (put_dinode ip d) jp = jp\<lparr>i_type := i_type ip, i_major := i_major ip, i_minor := i_minor ip,
      i_nlink := i_nlink ip, i_size := i_size ip, i_addrs := i_addrs ip\<rparr>"
    using b by (simp add: load_dinode_def assms(3) Let_def put_dinode_def bytes_simps del: upt_Suc put32s_simps)
  have o: "dip (i_inum ip) + 64 \<le> dip (i_inum kp) \<or> dip (i_inum kp) + 64 \<le> dip (i_inum ip)"
    using dip_disjoint assms(4) by blast
  have "map (\<lambda>k. get32 (put_dinode ip d) (dip (i_inum kp) + 12 + 4 * k)) [0..<NDIRECT + 1] =
      map (\<lambda>k. get32 d (dip (i_inum kp) + 12 + 4 * k)) [0..<NDIRECT + 1]"
    using o by (auto simp: put_dinode_def Let_def bytes_simps simp del: upt_Suc put32s_simps)
  then show "load_dinode (put_dinode ip d) kp = load_dinode d kp"
    using o by (auto simp: load_dinode_def Let_def put_dinode_def bytes_simps simp del: upt_Suc put32s_simps)
  show "length (put_dinode ip d) = BSIZE" using assms(1) by (simp add: put_dinode_def Let_def del: put32s_simps)
qed

section \<open>Path names\<close>

text \<open>The reference: a list cut at every occurrence of \<open>c\<close>; the elements of a path are the pieces that are not empty, cut to \<open>DIRSIZ\<close> bytes.\<close>

fun split_on :: "'a \<Rightarrow> 'a list \<Rightarrow> 'a list list" where
  "split_on c [] = [[]]"
| "split_on c (x # xs) = (if x = c then [] # split_on c xs else (x # hd (split_on c xs)) # tl (split_on c xs))"

definition path_elems :: "u8 list \<Rightarrow> u8 list list" where
  "path_elems path = map (take DIRSIZ) (filter (\<lambda>w. w \<noteq> []) (split_on SLASH path))"

text \<open>The elements that the loop of \<open>namex\<close> sees.\<close>

function skip_elems :: "u8 list \<Rightarrow> u8 list list" where
  "skip_elems path = (case skipelem path of None \<Rightarrow> [] | Some (rest, name) \<Rightarrow> name # skip_elems rest)"
  by pat_completeness auto
termination by (relation "measure length") (auto dest: skipelem_shorter)

declare skip_elems.simps [simp del]

lemma split_on_piece: "c \<notin> set w \<Longrightarrow> split_on c (w @ xs) = (w @ hd (split_on c xs)) # tl (split_on c xs)"
  by (induction w) (cases xs; auto)+

lemma split_on_skip: "filter (\<lambda>w. w \<noteq> []) (split_on c (dropWhile (\<lambda>x. x = c) xs)) = filter (\<lambda>w. w \<noteq> []) (split_on c xs)"
  by (induction xs) auto

lemma skipelem_None: "skipelem path = None \<longleftrightarrow> path_elems path = []"
proof -
  define p where "p = dropWhile (\<lambda>c. c = SLASH) path"
  have "path_elems path = path_elems p" by (simp add: path_elems_def p_def split_on_skip)
  moreover have "path_elems p \<noteq> []" if "p \<noteq> []"
  proof -
    have "hd p \<noteq> SLASH" using that hd_dropWhile unfolding p_def by blast
    then show ?thesis using that by (cases p) (auto simp: path_elems_def)
  qed
  ultimately show ?thesis by (auto simp: skipelem_def p_def [symmetric] Let_def path_elems_def)
qed

lemma skipelem_Some:
  assumes "skipelem path = Some (rest, name)"
  shows "path_elems path = name # path_elems rest" and "name \<noteq> []" and "length name \<le> DIRSIZ" and "rest \<noteq> [] \<Longrightarrow> hd rest \<noteq> SLASH"
proof -
  define p where "p = dropWhile (\<lambda>c. c = SLASH) path"
  define w where "w = takeWhile (\<lambda>c. c \<noteq> SLASH) p"
  define q where "q = dropWhile (\<lambda>c. c \<noteq> SLASH) p"
  have p: "p \<noteq> []" "rest = dropWhile (\<lambda>c. c = SLASH) q" "name = take DIRSIZ w"
    using assms by (auto simp: skipelem_def p_def [symmetric] w_def q_def Let_def split: if_splits)
  have "hd p \<noteq> SLASH" using p(1) hd_dropWhile unfolding p_def by blast
  then have w: "w \<noteq> []" "SLASH \<notin> set w" using p(1) by (cases p; auto simp: w_def dest: set_takeWhileD)+
  have q: "q = [] \<or> hd q = SLASH" using hd_dropWhile [of "\<lambda>c. c \<noteq> SLASH" p] by (auto simp: q_def)
  have "split_on SLASH p = (w @ hd (split_on SLASH q)) # tl (split_on SLASH q)"
    using split_on_piece [OF w(2), of q] by (simp add: w_def q_def)
  moreover have "hd (split_on SLASH q) = []" using q by (cases q) auto
  moreover have "filter (\<lambda>w. w \<noteq> []) (tl (split_on SLASH q)) = filter (\<lambda>w. w \<noteq> []) (split_on SLASH q)"
    using q by (cases q) auto
  ultimately have "path_elems p = name # path_elems rest"
    using w(1) by (simp add: path_elems_def p(2,3) split_on_skip)
  then show "path_elems path = name # path_elems rest" by (simp add: path_elems_def p_def split_on_skip)
  show "name \<noteq> []" "length name \<le> DIRSIZ" using w(1) p(3) by simp_all
  show "rest \<noteq> [] \<Longrightarrow> hd rest \<noteq> SLASH" using p(2) hd_dropWhile by blast
qed

text \<open>
  C30. Parsing a path by \<open>skipelem\<close> is the same as cutting it at its slashes: the calls of the loop of \<open>namex\<close> end, and give the non-empty pieces in
  order, cut to \<open>DIRSIZ\<close> bytes; the rest of the path that \<open>skipelem\<close> returns is empty exactly when the element was the last one, which is
  what \<open>nameiparent\<close> tests.
\<close>
theorem skipelem_splits_path:
  "skip_elems path = path_elems path \<and>
   (case skipelem path of None \<Rightarrow> path_elems path = []
    | Some (rest, name) \<Rightarrow> path_elems path = name # path_elems rest \<and> (rest = [] \<longleftrightarrow> path_elems rest = []))"
proof
  show "skip_elems path = path_elems path"
  proof (induction path rule: skip_elems.induct)
    case (1 path)
    then show ?case using skipelem_None [of path] skipelem_Some(1) [of path]
      by (subst skip_elems.simps) (auto split: option.split)
  qed
  show "case skipelem path of None \<Rightarrow> path_elems path = []
    | Some (rest, name) \<Rightarrow> path_elems path = name # path_elems rest \<and> (rest = [] \<longleftrightarrow> path_elems rest = [])"
  proof (cases "skipelem path")
    case (Some rn)
    obtain rest name where rn: "rn = (rest, name)" by force
    have "path_elems rest \<noteq> []" if "rest \<noteq> []"
      using that skipelem_Some(4) [of path rest name] Some by (cases rest) (auto simp: rn path_elems_def)
    then show ?thesis using Some skipelem_Some(1) [of path rest name] by (auto simp: rn path_elems_def)
  next
    case None
    then show ?thesis by (simp add: skipelem_None [symmetric])
  qed
qed

section \<open>An example state\<close>

definition free_inode :: inode where
  "free_inode = \<lparr>i_dev = 0, i_inum = 0, i_ref = 0, i_valid = False, i_type = 0, i_major = 0, i_minor = 0, i_nlink = 0, i_size = 0,
     i_addrs = replicate (NDIRECT + 1) 0\<rparr>"

definition fs_demo :: fsst where
  "fs_demo = logst.extend log_demo (fsst.fields
     \<lparr>sb_size = 60, sb_nblocks = 20, sb_ninodes = 40, sb_nlog = 30, sb_logstart = 2, sb_inodestart = 32, sb_bmapstart = 38\<rparr>
     (replicate NINODE free_inode))"

lemmas fs_demo_defs [demo_defs] = fs_demo_def logst.extend_def fsst.fields_def

theorem dinode_roundtrip_witness:
  "load_dinode (put_dinode (free_inode\<lparr>i_inum := 9, i_type := T_FILE, i_nlink := 1, i_size := 700, i_addrs := [40, 41, 0, 0, 0, 0, 0, 0, 0, 0, 0, 0, 0]\<rparr>)
     (replicate BSIZE 0xFF)) (free_inode\<lparr>i_inum := 9\<rparr>) =
   free_inode\<lparr>i_inum := 9, i_type := T_FILE, i_nlink := 1, i_size := 700, i_addrs := [40, 41, 0, 0, 0, 0, 0, 0, 0, 0, 0, 0, 0]\<rparr>"
  using dinode_roundtrip [of "replicate BSIZE 0xFF" "free_inode\<lparr>i_inum := 9, i_type := T_FILE, i_nlink := 1, i_size := 700,
      i_addrs := [40, 41, 0, 0, 0, 0, 0, 0, 0, 0, 0, 0, 0]\<rparr>" "free_inode\<lparr>i_inum := 9\<rparr>" "free_inode\<lparr>i_inum := 2\<rparr>"]
  by (simp add: free_inode_def)

end
