(* ===== verification/Pipe.thy ===== *)
theory Pipe
  imports Fs
begin

text \<open>
  Pipes, \<open>pipe.c\<close>, without \<open>pipealloc\<close>, which is with the files. A pipe is a ring of \<open>PIPESIZE\<close> bytes with the
  numbers of the bytes read and written so far as 32-bit counters, which wrap around. A pipe is named by the address of its
  page; the pipes are a map of the state from these addresses. A reader waits on \<open>&p->nread\<close>, a writer on
  \<open>&p->nwrite\<close>.
\<close>

abbreviation PIPESIZE :: nat where "PIPESIZE \<equiv> 512"

record pipe =
  p_data :: "u8 list"
  nread :: u32
  nwrite :: u32
  readopen :: bool
  writeopen :: bool

record pipest = fsst +
  pipes :: "u32 \<Rightarrow> pipe"

definition getpipe :: "u32 \<Rightarrow> ('z pipest_scheme, pipe) kop" where
  "getpipe p = gets (\<lambda>s. pipes s p)"

definition setpipe :: "u32 \<Rightarrow> (pipe \<Rightarrow> pipe) \<Rightarrow> ('z pipest_scheme, unit) kop" where
  "setpipe p f = modify (\<lambda>s. s\<lparr>pipes := (pipes s)(p := f (pipes s p))\<rparr>)"

section \<open>The ring\<close>

definition pipe_full :: "pipe \<Rightarrow> bool" where
  "pipe_full q \<longleftrightarrow> nwrite q = nread q + of_nat PIPESIZE"

definition pipe_empty :: "pipe \<Rightarrow> bool" where
  "pipe_empty q \<longleftrightarrow> nread q = nwrite q"

definition pipe_put :: "u8 \<Rightarrow> pipe \<Rightarrow> pipe" where
  "pipe_put b q = q\<lparr>p_data := (p_data q)[unat (nwrite q) mod PIPESIZE := b], nwrite := nwrite q + 1\<rparr>"

definition pipe_next :: "pipe \<Rightarrow> u8" where
  "pipe_next q = p_data q ! (unat (nread q) mod PIPESIZE)"

definition pipe_drop :: "pipe \<Rightarrow> pipe" where
  "pipe_drop q = q\<lparr>nread := nread q + 1\<rparr>"

text \<open>The loop \<open>for(i = 0; i < n; i++)\<close> of \<open>piperead\<close>: the bytes taken and the pipe after it.\<close>

fun pipe_take :: "nat \<Rightarrow> pipe \<Rightarrow> u8 list \<times> pipe" where
  "pipe_take 0 q = ([], q)"
| "pipe_take (Suc n) q = (if pipe_empty q then ([], q) else map_prod (Cons (pipe_next q)) id (pipe_take n (pipe_drop q)))"

section \<open>The operations\<close>

definition killed :: "('z procst_scheme, bool) kop" where
  "killed = bind curproc (\<lambda>i. bind (getp i) (\<lambda>p. return (p_killed p)))"

definition pipeclose :: "u32 \<Rightarrow> bool \<Rightarrow> ('z pipest_scheme, unit) kop" where
  "pipeclose p writable = seqM [
     lock (PipeLk p),
     if writable then seqM [setpipe p (\<lambda>q. q\<lparr>writeopen := False\<rparr>), wakeup (ChPipeRead p)]
     else seqM [setpipe p (\<lambda>q. q\<lparr>readopen := False\<rparr>), wakeup (ChPipeWrite p)],
     bind (getpipe p) (\<lambda>q.
       if \<not> readopen q \<and> \<not> writeopen q then seqM [unlock (PipeLk p), kfree p] else unlock (PipeLk p))]"

text \<open>The inner loop of \<open>pipewrite\<close>: \<open>False\<close> when the write is given up.\<close>

definition pipe_room :: "u32 \<Rightarrow> ('z pipest_scheme, unit + bool) kop" where
  "pipe_room p = bind (getpipe p) (\<lambda>q.
     if pipe_full q then
       bind (if \<not> readopen q then return True else killed) (\<lambda>stop.
       if stop then andthen (unlock (PipeLk p)) (return (Inr False))
       else andthen (seqM [wakeup (ChPipeRead p), sleep (ChPipeWrite p) (Some (PipeLk p))]) (return (Inl ())))
     else return (Inr True))"

fun pipewrite_loop :: "u32 \<Rightarrow> u8 list \<Rightarrow> ('z pipest_scheme, bool) kop" where
  "pipewrite_loop p [] = return True"
| "pipewrite_loop p (b # bs) = bind (forever (\<lambda>_. pipe_room p) ()) (\<lambda>ok.
     if ok then andthen (setpipe p (pipe_put b)) (pipewrite_loop p bs) else return False)"

definition pipewrite :: "u32 \<Rightarrow> u8 list \<Rightarrow> ('z pipest_scheme, int) kop" where
  "pipewrite p src = andthen (lock (PipeLk p)) (bind (pipewrite_loop p src) (\<lambda>ok.
     if ok then andthen (seqM [wakeup (ChPipeRead p), unlock (PipeLk p)]) (return (int (length src)))
     else return (- 1)))"

definition pipe_data :: "u32 \<Rightarrow> ('z pipest_scheme, unit + bool) kop" where
  "pipe_data p = bind (getpipe p) (\<lambda>q.
     if pipe_empty q \<and> writeopen q then
       bind killed (\<lambda>k.
       if k then andthen (unlock (PipeLk p)) (return (Inr False))
       else andthen (sleep (ChPipeRead p) (Some (PipeLk p))) (return (Inl ())))
     else return (Inr True))"

definition piperead :: "u32 \<Rightarrow> nat \<Rightarrow> ('z pipest_scheme, int \<times> u8 list) kop" where
  "piperead p n = andthen (lock (PipeLk p)) (bind (forever (\<lambda>_. pipe_data p) ()) (\<lambda>ok.
     if \<not> ok then return (- 1, [])
     else bind (getpipe p) (\<lambda>q. let (bs, q') = pipe_take n q in
       andthen (seqM [setpipe p (\<lambda>_. q'), wakeup (ChPipeWrite p), unlock (PipeLk p)])
         (return (int (length bs), bs)))))"

section \<open>Counters that wrap around\<close>

text \<open>The place of a counter in a ring whose size divides the number of 32-bit words: counting on moves around the ring, also across the wrap of the counter.\<close>

lemma ring_pos_add:
  fixes w :: u32
  assumes "n dvd 4294967296"
  shows "unat (w + of_nat j) mod n = (unat w + j) mod n"
proof -
  have "unat (w + of_nat j) = (unat w + j) mod 4294967296"
    by (simp add: unat_word_ariths unsigned_of_nat take_bit_eq_mod mod_add_right_eq)
  then show ?thesis using assms by (simp add: mod_mod_cancel)
qed

lemma counter_diff_Suc:
  fixes r w :: u32
  assumes "unat (w - r) < 4294967295"
  shows "unat (w + 1 - r) = unat (w - r) + 1"
proof -
  have eq: "w + 1 - r = (w - r) + of_nat 1" by simp
  show ?thesis unfolding eq using unat_add32 [of "w - r" 1] assms by simp
qed

lemma counter_diff_pred:
  fixes r w :: u32
  assumes "w \<noteq> r"
  shows "unat (w - (r + 1)) = unat (w - r) - 1" "0 < unat (w - r)"
proof -
  show pos: "0 < unat (w - r)" using assms by (simp add: unat_gt_0)
  have eq: "w - (r + 1) = (w - r) - 1" by simp
  have "1 \<le> w - r" using pos by (simp add: word_le_nat_alt)
  then show "unat (w - (r + 1)) = unat (w - r) - 1" unfolding eq by (simp add: unat_sub)
qed

section \<open>The pipe as a list of bytes\<close>

definition pipe_inv :: "pipe \<Rightarrow> bool" where
  "pipe_inv q \<longleftrightarrow> length (p_data q) = PIPESIZE \<and> unat (nwrite q - nread q) \<le> PIPESIZE"

definition pipe_bytes :: "pipe \<Rightarrow> u8 list" where
  "pipe_bytes q = map (\<lambda>k. p_data q ! ((unat (nread q) + k) mod PIPESIZE)) [0..<unat (nwrite q - nread q)]"

lemma length_pipe_bytes: "length (pipe_bytes q) = unat (nwrite q - nread q)"
  by (simp add: pipe_bytes_def)

lemma pipe_full_iff: "pipe_full q \<longleftrightarrow> length (pipe_bytes q) = PIPESIZE"
proof -
  have "unat (nwrite q - nread q) = 512 \<longleftrightarrow> nwrite q - nread q = 512"
    by (simp add: word_unat_eq_iff)
  then show ?thesis by (auto simp: pipe_full_def length_pipe_bytes algebra_simps)
qed

lemma pipe_empty_iff: "pipe_empty q \<longleftrightarrow> pipe_bytes q = []"
  by (auto simp: pipe_empty_def pipe_bytes_def unat_eq_zero)

lemma pipe_put_ok:
  assumes "pipe_inv q" and "\<not> pipe_full q"
  shows "pipe_inv (pipe_put b q)" "pipe_bytes (pipe_put b q) = pipe_bytes q @ [b]"
proof -
  define n where "n = unat (nwrite q - nread q)"
  have n: "n < 512" "length (p_data q) = 512" using assms by (auto simp: pipe_inv_def pipe_full_iff length_pipe_bytes n_def)
  have cnt: "unat (nwrite q + 1 - nread q) = n + 1" using counter_diff_Suc [of "nwrite q" "nread q"] n by (simp add: n_def)
  show "pipe_inv (pipe_put b q)" using n cnt by (simp add: pipe_inv_def pipe_put_def)
  have "nwrite q = nread q + of_nat n" by (simp add: n_def)
  then have at: "unat (nwrite q) mod 512 = (unat (nread q) + n) mod 512" using ring_pos_add [of 512 "nread q" n] by simp
  have "(p_data q)[(unat (nread q) + n) mod 512 := b] ! ((unat (nread q) + k) mod 512) = p_data q ! ((unat (nread q) + k) mod 512)"
    if "k < n" for k
    using ring_index_inj [of "unat (nread q)" n 512 k] that n by (intro nth_list_update_neq) auto
  then have "map (\<lambda>k. (p_data q)[(unat (nread q) + n) mod 512 := b] ! ((unat (nread q) + k) mod 512)) [0..<n] = pipe_bytes q"
    by (simp add: pipe_bytes_def n_def)
  then show "pipe_bytes (pipe_put b q) = pipe_bytes q @ [b]"
    using n by (simp add: pipe_bytes_def pipe_put_def cnt at)
qed

lemma pipe_put_open [simp]: "readopen (pipe_put b q) = readopen q" "writeopen (pipe_put b q) = writeopen q"
  by (simp_all add: pipe_put_def)

lemma pipe_drop_ok:
  assumes "pipe_inv q" and "pipe_bytes q = x # xs"
  shows "pipe_inv (pipe_drop q)" "pipe_bytes (pipe_drop q) = xs" "pipe_next q = x" "\<not> pipe_empty q"
proof -
  define n where "n = unat (nwrite q - nread q)"
  have ne: "nwrite q \<noteq> nread q" using assms(2) by (auto simp: pipe_bytes_def)
  note cnt = counter_diff_pred [OF ne]
  have len: "length xs = n - 1" "0 < n" using length_pipe_bytes [of q] assms(2) cnt(2) by (simp_all add: n_def)
  show "pipe_inv (pipe_drop q)" using assms(1) cnt by (auto simp: pipe_inv_def pipe_drop_def)
  have nth: "(x # xs) ! k = p_data q ! ((unat (nread q) + k) mod 512)" if "k < n" for k
    using that by (simp add: assms(2) [symmetric] pipe_bytes_def n_def)
  show "pipe_next q = x" using nth [of 0] len by (simp add: pipe_next_def)
  have pos: "(unat (nread q + 1) + k) mod 512 = (unat (nread q) + Suc k) mod 512" for k
  proof -
    have "unat (nread q + 1) mod 512 = (unat (nread q) + 1) mod 512" using ring_pos_add [of 512 "nread q" 1] by simp
    then show ?thesis using mod_add_left_eq [of "unat (nread q + 1)" 512 k] mod_add_left_eq [of "unat (nread q) + 1" 512 k] by simp
  qed
  show "pipe_bytes (pipe_drop q) = xs"
  proof (rule nth_equalityI)
    show "length (pipe_bytes (pipe_drop q)) = length xs" using cnt(1) len by (simp add: length_pipe_bytes pipe_drop_def n_def)
    fix k assume "k < length (pipe_bytes (pipe_drop q))"
    then have k: "k < n - 1" using cnt(1) by (simp add: length_pipe_bytes pipe_drop_def n_def)
    then show "pipe_bytes (pipe_drop q) ! k = xs ! k"
      using nth [of "Suc k"] cnt(1) by (simp add: pipe_bytes_def pipe_drop_def pos n_def)
  qed
  show "\<not> pipe_empty q" using assms(2) by (simp add: pipe_empty_iff)
qed

interpretation pq: fifo_peek pipe_inv pipe_bytes PIPESIZE
  "\<lambda>q b. if pipe_full q then None else Some (pipe_put b q)" "\<lambda>q. if pipe_empty q then None else Some (pipe_drop q)" pipe_next
proof unfold_locales
  fix q b assume "pipe_inv q" "length (pipe_bytes q) < PIPESIZE"
  then show "\<exists>q'. (if pipe_full q then None else Some (pipe_put b q)) = Some q' \<and> pipe_inv q' \<and> pipe_bytes q' = pipe_bytes q @ [b]"
    using pipe_put_ok [of q b] by (simp add: pipe_full_iff)
next
  fix q x xs assume "pipe_inv q" "pipe_bytes q = x # xs"
  then show "\<exists>q'. (if pipe_empty q then None else Some (pipe_drop q)) = Some q' \<and> pipe_inv q' \<and> pipe_bytes q' = xs"
    using pipe_drop_ok [of q x xs] by simp
qed (auto simp: pipe_full_iff pipe_empty_iff pipe_inv_def length_pipe_bytes pipe_drop_ok(3))

lemma pipe_take_ok:
  "pipe_inv q \<Longrightarrow> fst (pipe_take n q) = take n (pipe_bytes q) \<and> pipe_inv (snd (pipe_take n q)) \<and>
   pipe_bytes (snd (pipe_take n q)) = drop n (pipe_bytes q)"
proof (induction n arbitrary: q)
  case 0
  then show ?case by simp
next
  case (Suc n)
  show ?case
  proof (cases "pipe_bytes q")
    case Nil
    then show ?thesis using Suc.prems by (simp add: pipe_empty_iff)
  next
    case (Cons x xs)
    note d = pipe_drop_ok [OF Suc.prems Cons]
    show ?thesis using Suc.IH [OF d(1)] d Cons by (cases "pipe_take n (pipe_drop q)") simp
  qed
qed

section \<open>Reading and writing without waiting\<close>

lemma forever_ret: "b x s e = Ret (Inr a) t d \<Longrightarrow> forever b x s e = Ret a t d"
  by (simp add: forever_def bind_def return_def)

lemma pipewrite_loop_ok:
  assumes "pipe_inv (pipes s p)" and "length (pipe_bytes (pipes s p)) + length src \<le> PIPESIZE"
  shows "\<exists>q. pipe_inv q \<and> pipe_bytes q = pipe_bytes (pipes s p) @ src \<and> readopen q = readopen (pipes s p) \<and>
    writeopen q = writeopen (pipes s p) \<and> pipewrite_loop p src s e = Ret True (s\<lparr>pipes := (pipes s)(p := q)\<rparr>) e"
  using assms
proof (induction src arbitrary: s)
  case Nil
  then show ?case by (intro exI [of _ "pipes s p"]) (simp add: return_def)
next
  case (Cons b src)
  have nf: "\<not> pipe_full (pipes s p)" using Cons.prems by (simp add: pipe_full_iff)
  let ?s = "s\<lparr>pipes := (pipes s)(p := pipe_put b (pipes s p))\<rparr>"
  note put = pipe_put_ok [OF Cons.prems(1) nf, of b]
  have "pipe_room p s e = Ret (Inr True) s e" using nf by (simp add: pipe_room_def getpipe_def monad_defs)
  then have step: "pipewrite_loop p (b # src) s e = pipewrite_loop p src ?s e"
    by (simp add: forever_ret setpipe_def monad_defs)
  have "\<exists>q. pipe_inv q \<and> pipe_bytes q = pipe_bytes (pipes ?s p) @ src \<and> readopen q = readopen (pipes ?s p) \<and>
    writeopen q = writeopen (pipes ?s p) \<and> pipewrite_loop p src ?s e = Ret True (?s\<lparr>pipes := (pipes ?s)(p := q)\<rparr>) e"
    by (rule Cons.IH) (use put Cons.prems in simp_all)
  then obtain q where q: "pipe_inv q" "pipe_bytes q = pipe_bytes (pipes ?s p) @ src" "readopen q = readopen (pipes ?s p)"
      "writeopen q = writeopen (pipes ?s p)" "pipewrite_loop p src ?s e = Ret True (?s\<lparr>pipes := (pipes ?s)(p := q)\<rparr>) e"
    by blast
  have "pipewrite_loop p (b # src) s e = Ret True (s\<lparr>pipes := (pipes s)(p := q)\<rparr>) e" using step q(5) by simp
  moreover have "pipe_bytes q = pipe_bytes (pipes s p) @ b # src" using q(2) put(2) by simp
  moreover have "readopen q = readopen (pipes s p)" "writeopen q = writeopen (pipes s p)" using q(3,4) by simp_all
  ultimately show ?case using q(1) by blast
qed

lemma wp_pipewrite:
  assumes "pipe_inv (pipes s p)" and "length (pipe_bytes (pipes s p)) + length src \<le> PIPESIZE"
    and "PipeLk p \<notin> set (held s)" and "PtableLk \<notin> set (held s)"
  shows "wp (pipewrite p src) (\<lambda>r t d. r = int (length src) \<and> d = e \<and> (\<exists>q. pipe_inv q \<and> pipe_bytes q = pipe_bytes (pipes s p) @ src \<and>
    readopen q = readopen (pipes s p) \<and> writeopen q = writeopen (pipes s p) \<and>
    t = s\<lparr>pipes := (pipes s)(p := q), ptable := map (wake (ChPipeRead p)) (ptable s)\<rparr>)) s e"
proof -
  let ?s = "s\<lparr>held := PipeLk p # held s\<rparr>"
  obtain q where q: "pipe_inv q" "pipe_bytes q = pipe_bytes (pipes s p) @ src" "readopen q = readopen (pipes s p)"
      "writeopen q = writeopen (pipes s p)" "pipewrite_loop p src ?s e = Ret True (?s\<lparr>pipes := (pipes ?s)(p := q)\<rparr>) e"
    using pipewrite_loop_ok [of ?s p src e] assms(1,2) by auto
  have "wp (pipewrite_loop p src) Q ?s e = Q True (?s\<lparr>pipes := (pipes s)(p := q)\<rparr>) e" for Q by (simp add: wp_def q(5))
  then show ?thesis using assms(3,4) q(1-4)
    by (simp add: pipewrite_def wp_rules) (intro exI [of _ q], simp)
qed

lemma wp_piperead:
  assumes "pipe_inv (pipes s p)" and "pipe_bytes (pipes s p) \<noteq> [] \<or> \<not> writeopen (pipes s p)"
    and "PipeLk p \<notin> set (held s)" and "PtableLk \<notin> set (held s)"
  shows "wp (piperead p n) (\<lambda>r t d. r = (int (min n (length (pipe_bytes (pipes s p)))), take n (pipe_bytes (pipes s p))) \<and> d = e \<and>
    (\<exists>q. pipe_inv q \<and> pipe_bytes q = drop n (pipe_bytes (pipes s p)) \<and>
     t = s\<lparr>pipes := (pipes s)(p := q), ptable := map (wake (ChPipeWrite p)) (ptable s)\<rparr>)) s e"
proof -
  let ?s = "s\<lparr>held := PipeLk p # held s\<rparr>"
  have "pipe_data p ?s e = Ret (Inr True) ?s e" using assms(2) by (auto simp: pipe_data_def getpipe_def monad_defs pipe_empty_iff)
  then have fv: "wp (forever (\<lambda>_. pipe_data p) ()) Q ?s e = Q True ?s e" for Q by (simp add: wp_def forever_ret)
  obtain bs q where bq: "pipe_take n (pipes s p) = (bs, q)" by force
  then show ?thesis using assms(3,4) pipe_take_ok [OF assms(1), of n] fv
    by (simp add: piperead_def wp_rules getpipe_def setpipe_def) (intro conjI exI [of _ q], simp_all)
qed

text \<open>
  C28. Bytes go through a pipe in order and none is lost, also when the 32-bit counters wrap around: after a write that fits in the free
  part of the ring, a read of \<open>n\<close> bytes gives the first \<open>n\<close> of the bytes that were in the pipe followed by the new ones, and
  leaves the rest; neither waits.
\<close>
theorem pipe_write_read:
  assumes "pipe_inv (pipes s p)" and "length (pipe_bytes (pipes s p)) + length src \<le> PIPESIZE" and "src \<noteq> []"
    and "PipeLk p \<notin> set (held s)" and "PtableLk \<notin> set (held s)"
  shows "wp (bind (pipewrite p src) (\<lambda>k. bind (piperead p n) (\<lambda>r. return (k, r))))
    (\<lambda>(k, r) t d. let all = pipe_bytes (pipes s p) @ src in
       k = int (length src) \<and> r = (int (min n (length all)), take n all) \<and>
       pipe_inv (pipes t p) \<and> pipe_bytes (pipes t p) = drop n all \<and> held t = held s \<and> d = e) s e"
  unfolding wp_bind
proof (rule wp_mono [OF wp_pipewrite [OF assms(1,2,4,5)]], elim conjE exE)
  fix k t d q
  assume k: "k = int (length src)" "d = e" and q: "pipe_inv q" "pipe_bytes q = pipe_bytes (pipes s p) @ src"
    and t: "t = s\<lparr>pipes := (pipes s)(p := q), ptable := map (wake (ChPipeRead p)) (ptable s)\<rparr>"
  have "wp (piperead p n) (\<lambda>r u d'. r = (int (min n (length (pipe_bytes q))), take n (pipe_bytes q)) \<and> d' = e \<and>
      (\<exists>q'. pipe_inv q' \<and> pipe_bytes q' = drop n (pipe_bytes q) \<and>
       u = t\<lparr>pipes := (pipes t)(p := q'), ptable := map (wake (ChPipeWrite p)) (ptable t)\<rparr>)) t e"
    using wp_piperead [of t p n e] q assms(3-5) by (simp add: t)
  then show "wp (piperead p n) (\<lambda>r. wp (return (k, r)) (\<lambda>(k, r) t d. let all = pipe_bytes (pipes s p) @ src in
       k = int (length src) \<and> r = (int (min n (length all)), take n all) \<and>
       pipe_inv (pipes t p) \<and> pipe_bytes (pipes t p) = drop n all \<and> held t = held s \<and> d = e)) t d"
    unfolding k(2) by (rule wp_mono) (auto simp: wp_return Let_def k(1) q(2) t)
qed

text \<open>A pipe whose counters are about to wrap around.\<close>

definition wrap_pipe :: pipe where
  "wrap_pipe = \<lparr>p_data = replicate PIPESIZE 7, nread = 0xFFFFFFFE, nwrite = 0xFFFFFFFF, readopen = True, writeopen = True\<rparr>"

definition pipe_demo :: pipest where
  "pipe_demo = fsst.extend fs_demo (pipest.fields (\<lambda>_. wrap_pipe))"

lemmas pipe_demo_defs [demo_defs] = pipe_demo_def fsst.extend_def pipest.fields_def

lemma wrap_pipe_ok: "pipe_inv wrap_pipe" "pipe_bytes wrap_pipe = [7]"
  by (simp_all add: pipe_inv_def pipe_bytes_def wrap_pipe_def)

theorem pipe_write_read_witness:
  "wp (bind (pipewrite 0x80200000 [1, 2, 3]) (\<lambda>k. bind (piperead 0x80200000 2) (\<lambda>r. return (k, r))))
    (\<lambda>(k, r) t d. k = 3 \<and> r = (2, [7, 1]) \<and> pipe_bytes (pipes t 0x80200000) = [2, 3]) pipe_demo []"
proof -
  have "pipes pipe_demo 0x80200000 = wrap_pipe" "held pipe_demo = []" by (simp_all add: demo_defs)
  then show ?thesis
    using pipe_write_read [of pipe_demo "0x80200000" "[1, 2, 3]" 2 "[]"] wrap_pipe_ok
    by (auto simp: Let_def elim!: wp_mono)
qed

end
