(* ===== verification/File.thy ===== *)
theory File
  imports Pipe
begin

text \<open>
  Open files, \<open>file.c\<close>, and \<open>pipealloc\<close> of \<open>pipe.c\<close>. A pointer to a file is its index in the table \<open>ftable\<close>; the
  reference counts say how many descriptors share an entry.
\<close>

abbreviation NFILE :: nat where "NFILE \<equiv> 100"

datatype ftype = FD_NONE | FD_PIPE | FD_INODE

record ofile =
  f_type :: ftype
  f_ref :: int
  f_readable :: bool
  f_writable :: bool
  f_pipe :: u32
  f_ip :: nat
  f_off :: u32

record filest = pipest +
  ftable :: "ofile list"

definition getf :: "nat \<Rightarrow> ('z filest_scheme, ofile) kop" where
  "getf f = gets (\<lambda>s. ftable s ! f)"

definition setf :: "nat \<Rightarrow> (ofile \<Rightarrow> ofile) \<Rightarrow> ('z filest_scheme, unit) kop" where
  "setf f g = modify (\<lambda>s. s\<lparr>ftable := (ftable s)[f := g (ftable s ! f)]\<rparr>)"

definition filealloc :: "('z filest_scheme, nat option) kop" where
  "filealloc = andthen (lock FtableLk) (bind (gets ftable) (\<lambda>tab.
     case find_idx (\<lambda>f. f_ref f = 0) tab of
       Some f \<Rightarrow> andthen (seqM [setf f (\<lambda>x. x\<lparr>f_ref := 1\<rparr>), unlock FtableLk]) (return (Some f))
     | None \<Rightarrow> andthen (unlock FtableLk) (return None)))"

definition filedup :: "nat \<Rightarrow> ('z filest_scheme, nat) kop" where
  "filedup f = andthen (lock FtableLk) (bind (getf f) (\<lambda>x.
     if f_ref x < 1 then panic ''filedup''
     else andthen (seqM [setf f (\<lambda>x. x\<lparr>f_ref := f_ref x + 1\<rparr>), unlock FtableLk]) (return f)))"

definition fileclose :: "nat \<Rightarrow> ('z filest_scheme, unit) kop" where
  "fileclose f = andthen (lock FtableLk) (bind (getf f) (\<lambda>x.
     if f_ref x < 1 then panic ''fileclose''
     else if 0 < f_ref x - 1 then seqM [setf f (\<lambda>x. x\<lparr>f_ref := f_ref x - 1\<rparr>), unlock FtableLk]
     else seqM [
       setf f (\<lambda>x. x\<lparr>f_ref := 0, f_type := FD_NONE\<rparr>),
       unlock FtableLk,
       case f_type x of
         FD_PIPE \<Rightarrow> pipeclose (f_pipe x) (f_writable x)
       | FD_INODE \<Rightarrow> seqM [begin_op, iput (f_ip x), end_op]
       | FD_NONE \<Rightarrow> skip]))"

definition filestat :: "nat \<Rightarrow> ('z filest_scheme, stat option) kop" where
  "filestat f = bind (getf f) (\<lambda>x.
     if f_type x = FD_INODE then
       andthen (ilock (f_ip x)) (bind (stati (f_ip x)) (\<lambda>st. andthen (iunlock (f_ip x)) (return (Some st))))
     else return None)"

definition fileread :: "'z filest_scheme devsw list \<Rightarrow> nat \<Rightarrow> nat \<Rightarrow> ('z filest_scheme, int \<times> u8 list) kop" where
  "fileread devs f n = bind (getf f) (\<lambda>x.
     if \<not> f_readable x then return (- 1, [])
     else case f_type x of
       FD_PIPE \<Rightarrow> piperead (f_pipe x) n
     | FD_INODE \<Rightarrow> andthen (ilock (f_ip x)) (bind (getf f) (\<lambda>x.
         bind (readi devs (f_ip x) (f_off x) (of_nat n)) (\<lambda>(r, bs).
         andthen (seqM [
           whenM (0 < r) (setf f (\<lambda>x. x\<lparr>f_off := f_off x + of_int r\<rparr>)),
           iunlock (f_ip x)])
          (return (r, bs)))))
     | FD_NONE \<Rightarrow> panic ''fileread'')"

text \<open>
  The loop of \<open>filewrite\<close>: the bytes that are still to be written. It gives \<open>True\<close> when all of them are written, \<open>False\<close> when \<open>writei\<close>
  fails.
\<close>

abbreviation max_write :: nat where "max_write \<equiv> ((MAXOPBLOCKS - 1 - 1 - 2) div 2) * 512"

function filewrite_loop :: "'z filest_scheme devsw list \<Rightarrow> nat \<Rightarrow> u8 list \<Rightarrow> ('z filest_scheme, bool) kop" where
  "filewrite_loop devs f src = (if src = [] then return True
     else let n1 = min (length src) max_write in
       andthen begin_op (bind (getf f) (\<lambda>x. andthen (ilock (f_ip x)) (bind (getf f) (\<lambda>x.
       bind (writei devs (f_ip x) (take n1 src) (f_off x) (of_nat n1)) (\<lambda>r.
       andthen (seqM [
         whenM (0 < r) (setf f (\<lambda>x. x\<lparr>f_off := f_off x + of_int r\<rparr>)),
         iunlock (f_ip x),
         end_op])
       (if r < 0 then return False
        else if r \<noteq> int n1 then panic ''short filewrite''
        else filewrite_loop devs f (drop n1 src))))))))"
  by pat_completeness auto
termination by (relation "measure (\<lambda>(_, _, src). length src)") auto

definition filewrite :: "'z filest_scheme devsw list \<Rightarrow> nat \<Rightarrow> u8 list \<Rightarrow> ('z filest_scheme, int) kop" where
  "filewrite devs f src = bind (getf f) (\<lambda>x.
     if \<not> f_writable x then return (- 1)
     else case f_type x of
       FD_PIPE \<Rightarrow> pipewrite (f_pipe x) src
     | FD_INODE \<Rightarrow> bind (filewrite_loop devs f src) (\<lambda>ok. return (if ok then int (length src) else - 1))
     | FD_NONE \<Rightarrow> panic ''filewrite'')"

section \<open>Making a pipe\<close>

text \<open>What \<open>pipealloc\<close> does at its label \<open>bad\<close>.\<close>

definition pipealloc_bad :: "nat option \<Rightarrow> nat option \<Rightarrow> ('z filest_scheme, (nat \<times> nat) option) kop" where
  "pipealloc_bad f0 f1 = andthen (seqM [
     case f0 of Some f \<Rightarrow> fileclose f | None \<Rightarrow> skip,
     case f1 of Some f \<Rightarrow> fileclose f | None \<Rightarrow> skip])
   (return None)"

definition pipealloc :: "('z filest_scheme, (nat \<times> nat) option) kop" where
  "pipealloc = bind filealloc (\<lambda>f0o. case f0o of
       None \<Rightarrow> pipealloc_bad None None
     | Some f0 \<Rightarrow> bind filealloc (\<lambda>f1o. case f1o of
           None \<Rightarrow> pipealloc_bad f0o None
         | Some f1 \<Rightarrow> bind kalloc (\<lambda>p.
             if p = 0 then pipealloc_bad f0o f1o
             else andthen (seqM [
               setpipe p (\<lambda>q. q\<lparr>readopen := True, writeopen := True, nwrite := 0, nread := 0\<rparr>),
               setf f0 (\<lambda>x. x\<lparr>f_type := FD_PIPE, f_readable := True, f_writable := False, f_pipe := p\<rparr>),
               setf f1 (\<lambda>x. x\<lparr>f_type := FD_PIPE, f_readable := False, f_writable := True, f_pipe := p\<rparr>)])
              (return (Some (f0, f1))))))"

end
