(* ===== verification/ProcLife.thy ===== *)
theory ProcLife
  imports File
begin

text \<open>
  The life of a process, \<open>proc.c\<close>: the first process, \<open>fork\<close>, the first run of a child, \<open>exit\<close>, and the listing
  \<open>procdump\<close>. These are the operations of the process table that need the file system.
\<close>

unbundle bit_operations_syntax

text \<open>The channel of a pointer to a process.\<close>

definition chan_of :: "nat option \<Rightarrow> chan" where
  "chan_of po = (case po of Some p \<Rightarrow> ChProc p | None \<Rightarrow> ChNull)"

text \<open>\<open>safestrcpy\<close> into the name of a process.\<close>

definition set_name :: "u8 list \<Rightarrow> proc \<Rightarrow> proc" where
  "set_name t p = p\<lparr>p_name := put_bytes 0 (safestrcpy (cstr t) 16) (p_name p)\<rparr>"

definition userinit :: "'z filest_scheme devsw list \<Rightarrow> u8 list \<Rightarrow> ('z filest_scheme, unit) kop" where
  "userinit devs initcode = bind allocproc (\<lambda>po.
     andthen (modify (\<lambda>s. s\<lparr>initproc := po\<rparr>))
    (case po of None \<Rightarrow> fault ''userinit'' | Some i \<Rightarrow>
     bind setupkvm (\<lambda>pgdir. andthen (setp i (\<lambda>p. p\<lparr>p_pgdir := pgdir\<rparr>))
    (if pgdir = 0 then panic ''userinit: out of memory?''
     else bind (getp i) (\<lambda>p. let tf = p_tf p in andthen (seqM [
       inituvm pgdir initcode,
       setp i (\<lambda>p. p\<lparr>p_sz := PGSIZE\<rparr>),
       setmem tf 0 TF_SIZE,
       modify (\<lambda>s. s\<lparr>kmem := store_bytes (tf + TF_CS) [0x1B, 0] (kmem s)\<rparr>),
       modify (\<lambda>s. s\<lparr>kmem := store_bytes (tf + TF_DS) [0x23, 0] (kmem s)\<rparr>),
       modify (\<lambda>s. s\<lparr>kmem := store_bytes (tf + TF_ES) [0x23, 0] (kmem s)\<rparr>),
       modify (\<lambda>s. s\<lparr>kmem := store_bytes (tf + TF_SS) [0x23, 0] (kmem s)\<rparr>),
       write32 (tf + TF_EFLAGS) 0x200,
       write32 (tf + TF_ESP) PGSIZE,
       write32 (tf + TF_EIP) 0,
       setp i (set_name (map of_char ''initcode''))])
    (bind (namei devs [SLASH]) (\<lambda>cwd. seqM [
       setp i (\<lambda>p. p\<lparr>p_cwd := cwd\<rparr>),
       lock PtableLk,
       setp i (\<lambda>p. p\<lparr>p_state := RUNNABLE\<rparr>),
       unlock PtableLk])))))))"

text \<open>The descriptors of the parent shared with the child \<open>np\<close>.\<close>

definition dup_files :: "nat option list \<Rightarrow> nat \<Rightarrow> ('z filest_scheme, unit) kop" where
  "dup_files fs np = forM [0..<NOFILE] (\<lambda>fd. case fs ! fd of
     None \<Rightarrow> skip
   | Some f \<Rightarrow> bind (filedup f) (\<lambda>f'. setp np (\<lambda>p. p\<lparr>p_ofile := (p_ofile p)[fd := Some f']\<rparr>)))"

definition fork :: "('z filest_scheme, int) kop" where
  "fork = bind curproc (\<lambda>c. bind allocproc (\<lambda>po. case po of
       None \<Rightarrow> return (- 1)
     | Some np \<Rightarrow> bind (getp c) (\<lambda>me. bind (copyuvm (p_pgdir me) (p_sz me)) (\<lambda>pgdir.
         andthen (setp np (\<lambda>p. p\<lparr>p_pgdir := pgdir\<rparr>))
        (bind (getp np) (\<lambda>child.
         if pgdir = 0 then andthen (seqM [
             kfree (p_kstack child),
             setp np (\<lambda>p. p\<lparr>p_kstack := 0, p_state := UNUSED\<rparr>)])
           (return (- 1))
         else andthen (seqM [
             setp np (\<lambda>p. p\<lparr>p_sz := p_sz me, p_parent := Some c\<rparr>),
             movemem (p_tf child) (p_tf me) TF_SIZE,
             write32 (p_tf child + TF_EAX) 0,
             dup_files (p_ofile me) np])
          (bind (case p_cwd me of None \<Rightarrow> fault ''idup'' | Some ip \<Rightarrow> idup ip) (\<lambda>cwd. andthen (seqM [
             setp np (\<lambda>p. p\<lparr>p_cwd := Some cwd\<rparr>),
             setp np (set_name (p_name me)),
             lock PtableLk,
             setp np (\<lambda>p. p\<lparr>p_state := RUNNABLE\<rparr>),
             unlock PtableLk])
           (return (p_pid child))))))))))"

text \<open>\<open>forkret\<close>: the static variable \<open>first\<close> is an argument; it is true for the first process only.\<close>

definition forkret :: "bool \<Rightarrow> ('z filest_scheme, unit) kop" where
  "forkret first = seqM [unlock PtableLk, whenM first (seqM [iinit ROOTDEV, initlog ROOTDEV])]"

section \<open>Exit\<close>

definition close_files :: "nat \<Rightarrow> ('z filest_scheme, unit) kop" where
  "close_files c = forM [0..<NOFILE] (\<lambda>fd. bind (getp c) (\<lambda>p. case p_ofile p ! fd of
     None \<Rightarrow> skip
   | Some f \<Rightarrow> seqM [fileclose f, setp c (\<lambda>p. p\<lparr>p_ofile := (p_ofile p)[fd := None]\<rparr>)]))"

text \<open>The children of \<open>c\<close> passed to the first process.\<close>

definition reparent :: "nat \<Rightarrow> ('z procst_scheme, unit) kop" where
  "reparent c = forM [0..<NPROC] (\<lambda>i. bind (getp i) (\<lambda>p. bind (gets initproc) (\<lambda>init.
     whenM (p_parent p = Some c) (seqM [
       setp i (\<lambda>p. p\<lparr>p_parent := init\<rparr>),
       whenM (p_state p = ZOMBIE) (wakeup1 (chan_of init))]))))"

definition exit :: "('z filest_scheme, unit) kop" where
  "exit = bind curproc (\<lambda>c. bind (gets initproc) (\<lambda>init.
     if Some c = init then panic ''init exiting''
     else seqM [
       close_files c,
       begin_op,
       bind (getp c) (\<lambda>p. case p_cwd p of None \<Rightarrow> fault ''iput'' | Some ip \<Rightarrow> iput ip),
       end_op,
       setp c (\<lambda>p. p\<lparr>p_cwd := None\<rparr>),
       lock PtableLk,
       bind (getp c) (\<lambda>p. wakeup1 (chan_of (p_parent p))),
       reparent c,
       setp c (\<lambda>p. p\<lparr>p_state := ZOMBIE\<rparr>),
       sched,
       panic ''zombie exit'']))"

section \<open>Listing\<close>

definition procdump :: "('z procst_scheme, unit) kop" where
  "procdump = bind (gets ptable) (\<lambda>tab. forM tab (\<lambda>p. whenM (p_state p \<noteq> UNUSED)
     (bind (gets kmem) (\<lambda>m. seqM [
       cprintf ''%d %s %s'' [AInt (of_int (p_pid p)), arg_lit (state_text (p_state p)), arg_chars (p_name p)],
       whenM (p_state p = SLEEPING) (forM (takeWhile (\<lambda>pc. pc \<noteq> 0) (getcallerpcs (load32 m) (load32 m (p_context p + 12) + 8)))
         (\<lambda>pc. cprintf '' %p'' [AInt pc])),
       cprintf ''\<newline>'' []]))))"

end
