(* ===== verification/Uaccess.thy ===== *)
theory Uaccess
  imports ProcLife
begin

text \<open>
  The user memory of the running process and the arguments of a system call, \<open>syscall.c\<close>.

  The kernel reads and writes user addresses through the page table that the processor uses, \<open>cr3\<close>. An address whose page is not
  present, or a write to a page without \<open>PTE_W\<close>, is a page fault in kernel mode, for which \<open>trap\<close> panics.
\<close>

unbundle bit_operations_syntax

section \<open>User memory\<close>

definition uaddr :: "'z vmst_scheme \<Rightarrow> u32 \<Rightarrow> bool \<Rightarrow> u32 option" where
  "uaddr s va wr = (let pte = pte_of (kmem s) (P2V (cr3 s)) va in
     if present pte \<and> (wr \<longrightarrow> pte AND PTE_W \<noteq> 0) then Some (P2V (PTE_ADDR pte) + (va AND 0xFFF)) else None)"

definition uread :: "u32 \<Rightarrow> ('z vmst_scheme, u8) kop" where
  "uread va = bind (gets (\<lambda>s. map_option (kmem s) (uaddr s va False))) (\<lambda>r. case r of None \<Rightarrow> panic ''trap'' | Some b \<Rightarrow> return b)"

definition uwrite :: "u32 \<Rightarrow> u8 \<Rightarrow> ('z vmst_scheme, unit) kop" where
  "uwrite va b = bind (gets (\<lambda>s. uaddr s va True)) (\<lambda>r. case r of
     None \<Rightarrow> panic ''trap''
   | Some a \<Rightarrow> modify (\<lambda>s. s\<lparr>kmem := (kmem s)(a := b)\<rparr>))"

fun ureads :: "u32 \<Rightarrow> nat \<Rightarrow> ('z vmst_scheme, u8 list) kop" where
  "ureads va 0 = return []"
| "ureads va (Suc n) = bind (uread va) (\<lambda>b. bind (ureads (va + 1) n) (\<lambda>bs. return (b # bs)))"

fun uwrites :: "u32 \<Rightarrow> u8 list \<Rightarrow> ('z vmst_scheme, unit) kop" where
  "uwrites va [] = skip"
| "uwrites va (b # bs) = andthen (uwrite va b) (uwrites (va + 1) bs)"

definition uread32 :: "u32 \<Rightarrow> ('z vmst_scheme, u32) kop" where
  "uread32 va = bind (ureads va 4) (\<lambda>bs. return (get32 bs 0))"

definition bytes16 :: "u16 \<Rightarrow> u8 list" where
  "bytes16 w = put16 0 w [0, 0]"

definition bytes32 :: "u32 \<Rightarrow> u8 list" where
  "bytes32 w = put32 0 w [0, 0, 0, 0]"

section \<open>Arguments\<close>

text \<open>A failure, -1 in C, is \<open>None\<close>; the value stored through the pointer argument is in the result.\<close>

definition fetchint :: "u32 \<Rightarrow> ('z procst_scheme, u32 option) kop" where
  "fetchint addr = bind curproc (\<lambda>c. bind (getp c) (\<lambda>p.
     if p_sz p \<le> addr \<or> p_sz p < addr + 4 then return None
     else bind (uread32 addr) (\<lambda>w. return (Some w))))"

text \<open>The loop of \<open>fetchstr\<close>: the bytes from \<open>s\<close> up to the first zero before the end of the process, which is \<open>n\<close> bytes away.\<close>

fun fetchstr_loop :: "u32 \<Rightarrow> nat \<Rightarrow> ('z vmst_scheme, u8 list option) kop" where
  "fetchstr_loop s 0 = return None"
| "fetchstr_loop s (Suc n) = bind (uread s) (\<lambda>b.
     if b = 0 then return (Some []) else bind (fetchstr_loop (s + 1) n) (\<lambda>r. return (map_option (Cons b) r)))"

definition fetchstr :: "u32 \<Rightarrow> ('z procst_scheme, u8 list option) kop" where
  "fetchstr addr = bind curproc (\<lambda>c. bind (getp c) (\<lambda>p.
     if p_sz p \<le> addr then return None else fetchstr_loop addr (unat (p_sz p - addr))))"

definition argint :: "nat \<Rightarrow> ('z procst_scheme, u32 option) kop" where
  "argint n = bind curproc (\<lambda>c. bind (getp c) (\<lambda>p. bind (read32 (p_tf p + TF_ESP)) (\<lambda>esp.
     fetchint (esp + 4 + 4 * of_nat n))))"

definition argptr :: "nat \<Rightarrow> u32 \<Rightarrow> ('z procst_scheme, u32 option) kop" where
  "argptr n len = bind curproc (\<lambda>c. bind (argint n) (\<lambda>r. case r of
       None \<Rightarrow> return None
     | Some i \<Rightarrow> bind (getp c) (\<lambda>p.
         if len <s 0 \<or> p_sz p \<le> i \<or> p_sz p < i + len then return None else return (Some i))))"

definition argstr :: "nat \<Rightarrow> ('z procst_scheme, u8 list option) kop" where
  "argstr n = bind (argint n) (\<lambda>r. case r of None \<Rightarrow> return None | Some addr \<Rightarrow> fetchstr addr)"

end
