(* ===== verification/Sysproc.thy ===== *)
theory Sysproc
  imports Uaccess
begin

text \<open>
  The system calls on processes, messages and containers, \<open>sysproc.c\<close>. The result of a call is the 32-bit value that goes
  to the register \<open>eax\<close>. A failed fetch of an argument makes the call return -1.
\<close>

record tickst = filest +
  ticks :: u32

text \<open>The rest of a call after an argument has been fetched.\<close>

definition with_arg :: "('s, 'a option) kop \<Rightarrow> ('a \<Rightarrow> ('s, u32) kop) \<Rightarrow> ('s, u32) kop" where
  "with_arg m f = bind m (\<lambda>r. case r of None \<Rightarrow> return (- 1) | Some x \<Rightarrow> f x)"

definition ret :: "('s, int) kop \<Rightarrow> ('s, u32) kop" where
  "ret m = bind m (\<lambda>r. return (of_int r))"

definition sys_fork :: "('z filest_scheme, u32) kop" where
  "sys_fork = ret fork"

definition sys_exit :: "('z filest_scheme, u32) kop" where
  "sys_exit = andthen exit (return 0)"

definition sys_wait :: "('z procst_scheme, u32) kop" where
  "sys_wait = ret wait"

definition sys_kill :: "('z procst_scheme, u32) kop" where
  "sys_kill = with_arg (argint 0) (\<lambda>pid. ret (kill (sint pid)))"

definition sys_getpid :: "('z procst_scheme, u32) kop" where
  "sys_getpid = bind curproc (\<lambda>c. bind (getp c) (\<lambda>p. return (of_int (p_pid p))))"

definition sys_sbrk :: "('z procst_scheme, u32) kop" where
  "sys_sbrk = with_arg (argint 0) (\<lambda>n. bind curproc (\<lambda>c. bind (getp c) (\<lambda>p. bind (growproc n) (\<lambda>r.
     if r < 0 then return (- 1) else return (p_sz p)))))"

text \<open>The test \<open>ticks - ticks0 < n\<close> is unsigned in C, as \<open>ticks\<close> is.\<close>

definition sys_sleep_round :: "u32 \<Rightarrow> u32 \<Rightarrow> ('z tickst_scheme, unit + u32) kop" where
  "sys_sleep_round ticks0 n = bind (gets ticks) (\<lambda>now.
     if now - ticks0 < n then
       bind killed (\<lambda>k.
       if k then andthen (unlock TicksLk) (return (Inr (- 1)))
       else andthen (sleep ChTicks (Some TicksLk)) (return (Inl ())))
     else andthen (unlock TicksLk) (return (Inr 0)))"

definition sys_sleep :: "('z tickst_scheme, u32) kop" where
  "sys_sleep = with_arg (argint 0) (\<lambda>n. andthen (lock TicksLk) (bind (gets ticks) (\<lambda>ticks0.
     forever (\<lambda>_. sys_sleep_round ticks0 n) ())))"

definition sys_uptime :: "('z tickst_scheme, u32) kop" where
  "sys_uptime = andthen (lock TicksLk) (bind (gets ticks) (\<lambda>xticks. andthen (unlock TicksLk) (return xticks)))"

definition sys_halt :: "('z procst_scheme, u32) kop" where
  "sys_halt = andthen (seqM [halt, cprintf ''Command for shutdown\<newline>'' []]) (return 0)"

definition sys_toggle :: "('z trcst_scheme, u32) kop" where
  "sys_toggle = bind toggle (\<lambda>_. return 0)"

definition sys_print_count :: "('z trcst_scheme, u32) kop" where
  "sys_print_count = bind print_count (\<lambda>_. return 0)"

definition sys_ps :: "('z procst_scheme, u32) kop" where
  "sys_ps = bind ps (\<lambda>_. return 0)"

section \<open>Messages\<close>

definition sys_send :: "('z ipcst_scheme, u32) kop" where
  "sys_send = with_arg (argint 0) (\<lambda>a. with_arg (argint 1) (\<lambda>b. with_arg (argptr 2 (of_nat MSGSIZE)) (\<lambda>p.
     bind (ureads p MSGSIZE) (\<lambda>msg. bind (send (sint a) (sint b) msg) (\<lambda>_. return 0)))))"

definition sys_recv :: "('z ipcst_scheme, u32) kop" where
  "sys_recv = with_arg (argptr 0 (of_nat MSGSIZE)) (\<lambda>p. bind recv (\<lambda>(r, msg).
     andthen (case msg of None \<Rightarrow> skip | Some bs \<Rightarrow> uwrites p bs) (return (of_int r))))"

text \<open>
  The copy of the list of receivers: \<open>b\<close> and \<open>len\<close> are not checked. A negative length makes an array of negative size on the stack, and one
  of more than a kernel stack runs over it: a \<open>Fault\<close> both.
\<close>

fun read_ints :: "u32 \<Rightarrow> nat \<Rightarrow> ('z vmst_scheme, int list) kop" where
  "read_ints d 0 = return []"
| "read_ints d (Suc n) = bind (uread32 d) (\<lambda>w. bind (read_ints (d + 4) n) (\<lambda>ws. return (sint w # ws)))"

definition sys_send_multi :: "('z ipcst_scheme, u32) kop" where
  "sys_send_multi = with_arg (argint 0) (\<lambda>a. with_arg (argint 3) (\<lambda>len. with_arg (argptr 2 (of_nat MSGSIZE)) (\<lambda>p.
     with_arg (argint 1) (\<lambda>b.
     if len <s 0 \<or> KSTACKSIZE div 4 < len then fault ''arr''
     else bind (read_ints b (unat len)) (\<lambda>arr. bind (ureads p MSGSIZE) (\<lambda>msg.
       bind (send_multi (sint a) arr msg) (\<lambda>_. return 0)))))))"

definition sys_store :: "('z ipcst_scheme, u32) kop" where
  "sys_store = with_arg (argint 0) (\<lambda>a. with_arg (argint 1) (\<lambda>b. bind (store (sint a) (sint b)) (\<lambda>_. return 0)))"

definition sys_sleepcustom :: "('z procst_scheme, u32) kop" where
  "sys_sleepcustom = with_arg (argint 0) (\<lambda>a. bind (sleepcustom (sint a)) (\<lambda>_. return 0))"

definition sys_wakeupcustom :: "('z procst_scheme, u32) kop" where
  "sys_wakeupcustom = with_arg (argint 0) (\<lambda>a. bind (wakeupcustom (sint a)) (\<lambda>_. return 0))"

definition sys_read_mean :: "('z ipcst_scheme, u32) kop" where
  "sys_read_mean = with_arg (argptr 0 (of_nat MSGSIZE)) (\<lambda>p. bind read_mean (\<lambda>(r, bs).
     andthen (uwrites p bs) (return (of_int r))))"

section \<open>Containers\<close>

definition sys_create_container :: "container \<Rightarrow> ('z cntst_scheme, u32) kop" where
  "sys_create_container junk = ret (create_container junk)"

definition sys_destroy_container :: "('z cntst_scheme, u32) kop" where
  "sys_destroy_container = with_arg (argint 0) (\<lambda>a. ret (destroy_container (sint a)))"

definition sys_join_container :: "('z cntst_scheme, u32) kop" where
  "sys_join_container = with_arg (argint 0) (\<lambda>a. ret (join_container (sint a)))"

definition sys_leave_container :: "('z cntst_scheme, u32) kop" where
  "sys_leave_container = ret leave_container"

definition sys_container_malloc :: "('z cntst_scheme, u32) kop" where
  "sys_container_malloc = with_arg (argint 0) (\<lambda>a.
     andthen (cprintf ''malloc\<newline>'' []) (ret (container_malloc (sint a))))"

end
