(* ===== verification/Exec.thy ===== *)
theory Exec
  imports Sysproc
begin

text \<open>
  Loading a program, \<open>loaduvm\<close> of \<open>vm.c\<close> and \<open>exec.c\<close>. The arguments are the strings that \<open>sys_exec\<close> has fetched; \<open>exec\<close> copies them to
  the new stack. The fields of the ELF header and of a program header are read at their offsets in the bytes.
\<close>

unbundle bit_operations_syntax

abbreviation MAXARG :: nat where "MAXARG \<equiv> 32"
abbreviation ELF_MAGIC :: u32 where "ELF_MAGIC \<equiv> 0x464C457F"

fun loaduvm_loop :: "'z fsst_scheme devsw list \<Rightarrow> u32 \<Rightarrow> u32 \<Rightarrow> nat \<Rightarrow> u32 \<Rightarrow> u32 \<Rightarrow> nat list \<Rightarrow> ('z fsst_scheme, int) kop" where
  "loaduvm_loop devs pgdir addr ip offset sz [] = return 0"
| "loaduvm_loop devs pgdir addr ip offset sz (i # is) = bind (walkpgdir pgdir (addr + of_nat i) False) (\<lambda>pte.
     if pte = 0 then panic ''loaduvm: address should exist''
     else bind (read32 pte) (\<lambda>w.
       let n = (if sz - of_nat i < PGSIZE then sz - of_nat i else PGSIZE) in
       bind (readi devs ip (offset + of_nat i) n) (\<lambda>(r, bs).
       andthen (modify (\<lambda>s. s\<lparr>kmem := store_bytes (P2V (PTE_ADDR w)) bs (kmem s)\<rparr>))
        (if of_int r \<noteq> n then return (- 1) else loaduvm_loop devs pgdir addr ip offset sz is))))"

definition loaduvm :: "'z fsst_scheme devsw list \<Rightarrow> u32 \<Rightarrow> u32 \<Rightarrow> nat \<Rightarrow> u32 \<Rightarrow> u32 \<Rightarrow> ('z fsst_scheme, int) kop" where
  "loaduvm devs pgdir addr ip offset sz =
     (if addr mod PGSIZE \<noteq> 0 then panic ''loaduvm: addr must be page aligned''
      else loaduvm_loop devs pgdir addr ip offset sz (map (\<lambda>k. k * 4096) [0..<(unat sz + 4095) div 4096]))"

text \<open>The loop over the \<open>n\<close> remaining program headers, the next of which is at \<open>off\<close>: the new size, or \<open>None\<close> for \<open>goto bad\<close>.\<close>

fun load_segments :: "'z fsst_scheme devsw list \<Rightarrow> u32 \<Rightarrow> nat \<Rightarrow> nat \<Rightarrow> u32 \<Rightarrow> u32 \<Rightarrow> ('z fsst_scheme, u32 option) kop" where
  "load_segments devs pgdir ip 0 off sz = return (Some sz)"
| "load_segments devs pgdir ip (Suc n) off sz = bind (readi devs ip off 32) (\<lambda>(r, ph).
     if r \<noteq> 32 then return None
     else
       let type = get32 ph 0; poff = get32 ph 4; vaddr = get32 ph 8; filesz = get32 ph 16; memsz = get32 ph 20 in
       if type \<noteq> 1 then load_segments devs pgdir ip n (off + 32) sz
       else if memsz < filesz then return None
       else if vaddr + memsz < vaddr then return None
       else bind (allocuvm pgdir sz (vaddr + memsz)) (\<lambda>sz'.
         if sz' = 0 then return None
         else if vaddr mod PGSIZE \<noteq> 0 then return None
         else bind (loaduvm devs pgdir vaddr ip poff filesz) (\<lambda>r.
           if r < 0 then return None else load_segments devs pgdir ip n (off + 32) sz')))"

text \<open>The argument strings pushed on the new stack: the stack pointer and the addresses of the strings.\<close>

fun push_args :: "u32 \<Rightarrow> u8 list list \<Rightarrow> nat \<Rightarrow> u32 \<Rightarrow> u32 list \<Rightarrow> ('z kalst_scheme, (u32 \<times> u32 list) option) kop" where
  "push_args pgdir [] argc sp ustack = return (Some (sp, ustack))"
| "push_args pgdir (a # as) argc sp ustack =
     (if argc \<ge> MAXARG then return None
      else let sp' = (sp - of_nat (length a + 1)) AND NOT 3 in
        bind (copyout pgdir sp' (a @ [0])) (\<lambda>r.
        if r < 0 then return None else push_args pgdir as (argc + 1) sp' (ustack @ [sp'])))"

definition exec_bad :: "u32 \<Rightarrow> nat option \<Rightarrow> ('z fsst_scheme, int) kop" where
  "exec_bad pgdir ip = andthen (seqM [
     whenM (pgdir \<noteq> 0) (freevm pgdir),
     case ip of Some i \<Rightarrow> seqM [iunlockput i, end_op] | None \<Rightarrow> skip])
   (return (- 1))"

text \<open>The name of the program: what follows the last slash of its path.\<close>

definition last_elem :: "u8 list \<Rightarrow> u8 list" where
  "last_elem path = rev (takeWhile (\<lambda>c. c \<noteq> SLASH) (rev path))"

text \<open>The last part of \<open>exec\<close>, once the program is loaded: the stack, the arguments, and the commit to the new image.\<close>

definition exec_image :: "u32 \<Rightarrow> u32 \<Rightarrow> u32 \<Rightarrow> u8 list \<Rightarrow> u8 list list \<Rightarrow> nat \<Rightarrow> ('z fsst_scheme, int) kop" where
  "exec_image pgdir sz entry path argv c = (let sz = PGROUNDUP sz in
     bind (allocuvm pgdir sz (sz + 2 * PGSIZE)) (\<lambda>sz.
     if sz = 0 then exec_bad pgdir None
     else andthen (clearpteu pgdir (sz - 2 * PGSIZE))
      (bind (push_args pgdir argv 0 sz []) (\<lambda>r. case r of
         None \<Rightarrow> exec_bad pgdir None
       | Some (sp, args) \<Rightarrow>
           let argc = length argv;
               ustack = [0xFFFFFFFF, of_nat argc, sp - of_nat ((argc + 1) * 4)] @ args @ [0];
               sp' = sp - of_nat ((3 + argc + 1) * 4) in
           bind (copyout pgdir sp' (concat (map bytes32 ustack))) (\<lambda>r.
           if r < 0 then exec_bad pgdir None
           else bind (getp c) (\<lambda>p. andthen (seqM [
             setp c (set_name (last_elem path)),
             setp c (\<lambda>p. p\<lparr>p_pgdir := pgdir, p_sz := sz\<rparr>),
             write32 (p_tf p + TF_EIP) entry,
             write32 (p_tf p + TF_ESP) sp',
             switchuvm (Some c),
             freevm (p_pgdir p)])
            (return 0)))))))"

definition exec :: "'z fsst_scheme devsw list \<Rightarrow> u8 list \<Rightarrow> u8 list list \<Rightarrow> ('z fsst_scheme, int) kop" where
  "exec devs path argv = bind curproc (\<lambda>c. andthen begin_op (bind (namei devs path) (\<lambda>ipo. case ipo of
       None \<Rightarrow> andthen (seqM [end_op, cprintf ''exec: fail\<newline>'' []]) (return (- 1))
     | Some ip \<Rightarrow> andthen (ilock ip) (bind (readi devs ip 0 52) (\<lambda>(r, elf).
         if r \<noteq> 52 then exec_bad 0 (Some ip)
         else if get32 elf 0 \<noteq> ELF_MAGIC then exec_bad 0 (Some ip)
         else bind setupkvm (\<lambda>pgdir.
           if pgdir = 0 then exec_bad 0 (Some ip)
           else bind (load_segments devs pgdir ip (unat (get16 elf 44)) (get32 elf 28) 0) (\<lambda>szo. case szo of
               None \<Rightarrow> exec_bad pgdir (Some ip)
             | Some sz \<Rightarrow> andthen (seqM [iunlockput ip, end_op])
                 (exec_image pgdir sz (get32 elf 24) path argv c))))))))"

end
