(* ===== verification/Sysfile.thy ===== *)
theory Sysfile
  imports Exec
begin

text \<open>
  The system calls on files, \<open>sysfile.c\<close>. As for the other calls the result is the value for \<open>eax\<close>. The labels \<open>bad\<close> of the C code
  are definitions of their own.
\<close>

unbundle bit_operations_syntax

abbreviation O_RDONLY :: u32 where "O_RDONLY \<equiv> 0x000"
abbreviation O_WRONLY :: u32 where "O_WRONLY \<equiv> 0x001"
abbreviation O_RDWR :: u32 where "O_RDWR \<equiv> 0x002"
abbreviation O_CREATE :: u32 where "O_CREATE \<equiv> 0x200"

definition argfd :: "nat \<Rightarrow> ('z procst_scheme, (nat \<times> nat) option) kop" where
  "argfd n = bind (argint n) (\<lambda>r. case r of
       None \<Rightarrow> return None
     | Some fd \<Rightarrow>
         if fd <s 0 \<or> of_nat NOFILE \<le>s fd then return None
         else bind curproc (\<lambda>c. bind (getp c) (\<lambda>p. return (map_option (\<lambda>f. (unat fd, f)) (p_ofile p ! unat fd)))))"

definition fdalloc :: "nat \<Rightarrow> ('z procst_scheme, nat option) kop" where
  "fdalloc f = bind curproc (\<lambda>c. bind (getp c) (\<lambda>p. case find_idx (\<lambda>x. x = None) (p_ofile p) of
       None \<Rightarrow> return None
     | Some fd \<Rightarrow> andthen (setp c (\<lambda>p. p\<lparr>p_ofile := (p_ofile p)[fd := Some f]\<rparr>)) (return (Some fd))))"

definition sys_dup :: "('z filest_scheme, u32) kop" where
  "sys_dup = with_arg (argfd 0) (\<lambda>(_, f). with_arg (fdalloc f) (\<lambda>fd. bind (filedup f) (\<lambda>_. return (of_nat fd))))"

definition sys_read :: "'z filest_scheme devsw list \<Rightarrow> ('z filest_scheme, u32) kop" where
  "sys_read devs = with_arg (argfd 0) (\<lambda>(_, f). with_arg (argint 2) (\<lambda>n. with_arg (argptr 1 n) (\<lambda>p.
     bind (fileread devs f (unat n)) (\<lambda>(r, bs). andthen (uwrites p bs) (return (of_int r))))))"

definition sys_write :: "'z filest_scheme devsw list \<Rightarrow> ('z filest_scheme, u32) kop" where
  "sys_write devs = with_arg (argfd 0) (\<lambda>(_, f). with_arg (argint 2) (\<lambda>n. with_arg (argptr 1 n) (\<lambda>p.
     bind (ureads p (unat n)) (\<lambda>src. ret (filewrite devs f src)))))"

definition sys_close :: "('z filest_scheme, u32) kop" where
  "sys_close = with_arg (argfd 0) (\<lambda>(fd, f). bind curproc (\<lambda>c. andthen (seqM [
     setp c (\<lambda>p. p\<lparr>p_ofile := (p_ofile p)[fd := None]\<rparr>),
     fileclose f])
   (return 0)))"

text \<open>The fields of \<open>struct stat\<close> at their offsets; the two gaps between them are not written.\<close>

definition put_stat :: "u32 \<Rightarrow> stat \<Rightarrow> ('z vmst_scheme, unit) kop" where
  "put_stat a st = seqM [
     uwrites (a + 4) (bytes32 (st_dev st)),
     uwrites (a + 8) (bytes32 (st_ino st)),
     uwrites a (bytes16 (st_type st)),
     uwrites (a + 12) (bytes16 (st_nlink st)),
     uwrites (a + 16) (bytes32 (st_size st))]"

definition sys_fstat :: "('z filest_scheme, u32) kop" where
  "sys_fstat = with_arg (argfd 0) (\<lambda>(_, f). with_arg (argptr 1 20) (\<lambda>a. bind (filestat f) (\<lambda>r. case r of
     None \<Rightarrow> return (- 1)
   | Some st \<Rightarrow> andthen (put_stat a st) (return 0))))"

section \<open>Links\<close>

definition link_bad :: "nat \<Rightarrow> ('z fsst_scheme, u32) kop" where
  "link_bad ip = andthen (seqM [
     ilock ip,
     seti ip (\<lambda>x. x\<lparr>i_nlink := i_nlink x - 1\<rparr>),
     iupdate ip,
     iunlockput ip,
     end_op])
   (return (- 1))"

definition sys_link :: "'z filest_scheme devsw list \<Rightarrow> ('z filest_scheme, u32) kop" where
  "sys_link devs = with_arg (argstr 0) (\<lambda>old. with_arg (argstr 1) (\<lambda>new.
     andthen begin_op (bind (namei devs old) (\<lambda>ipo. case ipo of
         None \<Rightarrow> andthen end_op (return (- 1))
       | Some ip \<Rightarrow> andthen (ilock ip) (bind (geti ip) (\<lambda>x.
           if i_type x = T_DIR then andthen (seqM [iunlockput ip, end_op]) (return (- 1))
           else andthen (seqM [
               seti ip (\<lambda>x. x\<lparr>i_nlink := i_nlink x + 1\<rparr>),
               iupdate ip,
               iunlock ip])
             (bind (nameiparent devs new) (\<lambda>dpo. case dpo of
                 None \<Rightarrow> link_bad ip
               | Some (dp, name) \<Rightarrow> andthen (ilock dp) (bind (geti dp) (\<lambda>d. bind (geti ip) (\<lambda>x.
                   bind (if i_dev d \<noteq> i_dev x then return (- 1) else dirlink devs dp name (i_inum x)) (\<lambda>r.
                   if r < 0 then andthen (iunlockput dp) (link_bad ip)
                   else andthen (seqM [iunlockput dp, iput ip, end_op]) (return 0)))))))))))))"

text \<open>The loop of \<open>isdirempty\<close> over the entries after the first two.\<close>

fun isdirempty_loop :: "'z fsst_scheme devsw list \<Rightarrow> nat \<Rightarrow> nat list \<Rightarrow> ('z fsst_scheme, bool) kop" where
  "isdirempty_loop devs dp [] = return True"
| "isdirempty_loop devs dp (off # offs) = bind (readi devs dp (of_nat off) 16) (\<lambda>(r, de).
     if r \<noteq> 16 then panic ''isdirempty: readi''
     else if get16 de 0 \<noteq> 0 then return False
     else isdirempty_loop devs dp offs)"

definition isdirempty :: "'z fsst_scheme devsw list \<Rightarrow> nat \<Rightarrow> ('z fsst_scheme, bool) kop" where
  "isdirempty devs dp = bind (geti dp) (\<lambda>d. isdirempty_loop devs dp (drop 2 (dir_offs (i_size d))))"

definition unlink_bad :: "nat \<Rightarrow> ('z fsst_scheme, u32) kop" where
  "unlink_bad dp = andthen (seqM [iunlockput dp, end_op]) (return (- 1))"

definition sys_unlink :: "'z filest_scheme devsw list \<Rightarrow> ('z filest_scheme, u32) kop" where
  "sys_unlink devs = with_arg (argstr 0) (\<lambda>path. andthen begin_op (bind (nameiparent devs path) (\<lambda>dpo. case dpo of
       None \<Rightarrow> andthen end_op (return (- 1))
     | Some (dp, name) \<Rightarrow> andthen (ilock dp)
        (if namecmp (cstr name) (lit ''.'') = 0 \<or> namecmp (cstr name) (lit ''..'') = 0 then unlink_bad dp
         else bind (dirlookup devs dp name) (\<lambda>r. case r of
             None \<Rightarrow> unlink_bad dp
           | Some (ip, off) \<Rightarrow> andthen (ilock ip) (bind (geti ip) (\<lambda>x.
               if i_nlink x <s 1 then panic ''unlink: nlink < 1''
               else bind (if i_type x = T_DIR then isdirempty devs ip else return True) (\<lambda>ok.
               if \<not> ok then andthen (iunlockput ip) (unlink_bad dp)
               else bind (writei devs dp (replicate 16 0) (of_nat off) 16) (\<lambda>r.
               if r \<noteq> 16 then panic ''unlink: writei''
               else andthen (seqM [
                   whenM (i_type x = T_DIR) (seqM [seti dp (\<lambda>d. d\<lparr>i_nlink := i_nlink d - 1\<rparr>), iupdate dp]),
                   iunlockput dp,
                   seti ip (\<lambda>x. x\<lparr>i_nlink := i_nlink x - 1\<rparr>),
                   iupdate ip,
                   iunlockput ip,
                   end_op])
                 (return 0))))))))))"

section \<open>Creating and opening\<close>

definition create :: "'z fsst_scheme devsw list \<Rightarrow> u8 list \<Rightarrow> u16 \<Rightarrow> u16 \<Rightarrow> u16 \<Rightarrow> ('z fsst_scheme, nat option) kop" where
  "create devs path type major minor = bind (nameiparent devs path) (\<lambda>dpo. case dpo of
       None \<Rightarrow> return None
     | Some (dp, name) \<Rightarrow> andthen (ilock dp) (bind (dirlookup devs dp name) (\<lambda>r. case r of
         Some (ip, _) \<Rightarrow> andthen (seqM [iunlockput dp, ilock ip]) (bind (geti ip) (\<lambda>x.
           if type = T_FILE \<and> i_type x = T_FILE then return (Some ip)
           else andthen (iunlockput ip) (return None)))
       | None \<Rightarrow> bind (geti dp) (\<lambda>d. bind (ialloc (i_dev d) type) (\<lambda>ip.
           andthen (seqM [
             ilock ip,
             seti ip (\<lambda>x. x\<lparr>i_major := major, i_minor := minor, i_nlink := 1\<rparr>),
             iupdate ip])
          (bind (geti ip) (\<lambda>x.
           andthen (whenM (type = T_DIR) (andthen (seqM [
               seti dp (\<lambda>d. d\<lparr>i_nlink := i_nlink d + 1\<rparr>),
               iupdate dp])
             (bind (dirlink devs ip (map of_char ''.'') (i_inum x)) (\<lambda>r1.
              bind (if r1 < 0 then return (- 1) else dirlink devs ip (map of_char ''..'') (i_inum d)) (\<lambda>r2.
              whenM (r2 < 0) (panic ''create dots''))))))
          (bind (dirlink devs dp name (i_inum x)) (\<lambda>r.
           if r < 0 then panic ''create: dirlink''
           else andthen (iunlockput dp) (return (Some ip)))))))))))"

definition open_failed :: "nat option \<Rightarrow> nat \<Rightarrow> ('z filest_scheme, u32) kop" where
  "open_failed fo ip = andthen (seqM [
     case fo of Some f \<Rightarrow> fileclose f | None \<Rightarrow> skip,
     iunlockput ip,
     end_op])
   (return (- 1))"

text \<open>The inode to open, locked; \<open>None\<close> when there is none, and then the transaction is over.\<close>

definition open_inode :: "'z fsst_scheme devsw list \<Rightarrow> u8 list \<Rightarrow> u32 \<Rightarrow> ('z fsst_scheme, nat option) kop" where
  "open_inode devs path omode =
     (if omode AND O_CREATE \<noteq> 0 then
        bind (create devs path T_FILE 0 0) (\<lambda>ipo. case ipo of
          None \<Rightarrow> andthen end_op (return None)
        | Some ip \<Rightarrow> return (Some ip))
      else bind (namei devs path) (\<lambda>ipo. case ipo of
          None \<Rightarrow> andthen end_op (return None)
        | Some ip \<Rightarrow> andthen (ilock ip) (bind (geti ip) (\<lambda>x.
            if i_type x = T_DIR \<and> omode \<noteq> O_RDONLY then andthen (seqM [iunlockput ip, end_op]) (return None)
            else return (Some ip)))))"

definition sys_open :: "'z filest_scheme devsw list \<Rightarrow> ('z filest_scheme, u32) kop" where
  "sys_open devs = with_arg (argstr 0) (\<lambda>path. with_arg (argint 1) (\<lambda>omode.
     andthen begin_op (with_arg (open_inode devs path omode) (\<lambda>ip.
     bind filealloc (\<lambda>fo. case fo of
         None \<Rightarrow> open_failed None ip
       | Some f \<Rightarrow> bind (fdalloc f) (\<lambda>fdo. case fdo of
             None \<Rightarrow> open_failed fo ip
           | Some fd \<Rightarrow> andthen (seqM [
               iunlock ip,
               end_op,
               setf f (\<lambda>x. x\<lparr>f_type := FD_INODE, f_ip := ip, f_off := 0, f_readable := (omode AND O_WRONLY = 0),
                 f_writable := (omode AND O_WRONLY \<noteq> 0 \<or> omode AND O_RDWR \<noteq> 0)\<rparr>)])
             (return (of_nat fd))))))))"

definition sys_mkdir :: "'z filest_scheme devsw list \<Rightarrow> ('z filest_scheme, u32) kop" where
  "sys_mkdir devs = andthen begin_op (bind (argstr 0) (\<lambda>po.
     bind (case po of None \<Rightarrow> return None | Some path \<Rightarrow> create devs path T_DIR 0 0) (\<lambda>ipo. case ipo of
       None \<Rightarrow> andthen end_op (return (- 1))
     | Some ip \<Rightarrow> andthen (seqM [iunlockput ip, end_op]) (return 0))))"

definition sys_mknod :: "'z filest_scheme devsw list \<Rightarrow> ('z filest_scheme, u32) kop" where
  "sys_mknod devs = andthen begin_op (bind (argstr 0) (\<lambda>po.
     bind (case po of None \<Rightarrow> return None | Some path \<Rightarrow> bind (argint 1) (\<lambda>ma. case ma of None \<Rightarrow> return None
       | Some major \<Rightarrow> bind (argint 2) (\<lambda>mi. case mi of None \<Rightarrow> return None
       | Some minor \<Rightarrow> create devs path T_DEV (ucast major) (ucast minor)))) (\<lambda>ipo. case ipo of
       None \<Rightarrow> andthen end_op (return (- 1))
     | Some ip \<Rightarrow> andthen (seqM [iunlockput ip, end_op]) (return 0))))"

definition sys_chdir :: "'z filest_scheme devsw list \<Rightarrow> ('z filest_scheme, u32) kop" where
  "sys_chdir devs = bind curproc (\<lambda>c. andthen begin_op (bind (argstr 0) (\<lambda>po.
     bind (case po of None \<Rightarrow> return None | Some path \<Rightarrow> namei devs path) (\<lambda>ipo. case ipo of
       None \<Rightarrow> andthen end_op (return (- 1))
     | Some ip \<Rightarrow> andthen (ilock ip) (bind (geti ip) (\<lambda>x.
         if i_type x \<noteq> T_DIR then andthen (seqM [iunlockput ip, end_op]) (return (- 1))
         else andthen (seqM [
             iunlock ip,
             bind (getp c) (\<lambda>p. case p_cwd p of None \<Rightarrow> fault ''iput'' | Some old \<Rightarrow> iput old),
             end_op,
             setp c (\<lambda>p. p\<lparr>p_cwd := Some ip\<rparr>)])
           (return 0)))))))"

section \<open>Programs and pipes\<close>

text \<open>The loop of \<open>sys_exec\<close> that fetches the arguments: \<open>n\<close> entries of \<open>argv\<close> are left.\<close>

fun fetch_argv :: "nat \<Rightarrow> u32 \<Rightarrow> ('z procst_scheme, u8 list list option) kop" where
  "fetch_argv 0 a = return None"
| "fetch_argv (Suc n) a = bind (fetchint a) (\<lambda>r. case r of
       None \<Rightarrow> return None
     | Some uarg \<Rightarrow>
         if uarg = 0 then return (Some [])
         else bind (fetchstr uarg) (\<lambda>so. case so of
             None \<Rightarrow> return None
           | Some str \<Rightarrow> bind (fetch_argv n (a + 4)) (\<lambda>rest. return (map_option (Cons str) rest))))"

definition sys_exec :: "'z filest_scheme devsw list \<Rightarrow> ('z filest_scheme, u32) kop" where
  "sys_exec devs = with_arg (argstr 0) (\<lambda>path. with_arg (argint 1) (\<lambda>uargv.
     with_arg (fetch_argv MAXARG uargv) (\<lambda>argv. ret (exec devs path argv))))"

definition sys_pipe :: "('z filest_scheme, u32) kop" where
  "sys_pipe = with_arg (argptr 0 8) (\<lambda>fd. with_arg pipealloc (\<lambda>(rf, wf). bind curproc (\<lambda>c.
     bind (fdalloc rf) (\<lambda>fd0o. case fd0o of
         None \<Rightarrow> andthen (seqM [fileclose rf, fileclose wf]) (return (- 1))
       | Some fd0 \<Rightarrow> bind (fdalloc wf) (\<lambda>fd1o. case fd1o of
             None \<Rightarrow> andthen (seqM [
                 setp c (\<lambda>p. p\<lparr>p_ofile := (p_ofile p)[fd0 := None]\<rparr>),
                 fileclose rf,
                 fileclose wf])
               (return (- 1))
           | Some fd1 \<Rightarrow> andthen (seqM [uwrites fd (bytes32 (of_nat fd0)), uwrites (fd + 4) (bytes32 (of_nat fd1))])
               (return 0))))))"

end
