(* ===== verification/ConsIn.thy ===== *)
theory ConsIn
  imports Sysfile Kbd
begin

text \<open>
  Input from the console, \<open>console.c\<close>, with its two sources \<open>kbd.c\<close> and \<open>uart.c\<close>. The ring \<open>input\<close> holds the characters typed: those
  before \<open>in_w\<close> are complete lines that a reader may take, those from \<open>in_w\<close> to \<open>in_e\<close> are still
  being edited. The three indices are 32-bit counters that wrap around.

  The codes that wait in the keyboard controller and the bytes that wait in the serial port are lists of the state. An interrupt takes all
  of them.
\<close>

unbundle bit_operations_syntax

abbreviation INPUT_BUF :: nat where "INPUT_BUF \<equiv> 128"

record cinst = tickst +
  in_buf :: "u8 list"
  in_r :: u32
  in_w :: u32
  in_e :: u32
  kbd_shift :: u32
  kbd_in :: "u8 list"
  uart_in :: "u8 list"

definition kbdgetc :: "('z cinst_scheme, int) kop" where
  "kbdgetc = bind (gets kbd_in) (\<lambda>codes. case codes of
       [] \<Rightarrow> return (- 1)
     | data # rest \<Rightarrow> bind (gets kbd_shift) (\<lambda>sh. let (c, sh') = kbd_code sh data in
         andthen (modify (\<lambda>s. s\<lparr>kbd_in := rest, kbd_shift := sh'\<rparr>)) (return (uint c))))"

definition uartgetc :: "('z cinst_scheme, int) kop" where
  "uartgetc = bind (gets (\<lambda>s. uart (con s))) (\<lambda>u. bind (gets uart_in) (\<lambda>bs.
     if \<not> u then return (- 1)
     else case bs of [] \<Rightarrow> return (- 1) | b # rest \<Rightarrow> andthen (modify (\<lambda>s. s\<lparr>uart_in := rest\<rparr>)) (return (uint b))))"

section \<open>Line editing\<close>

definition in_last :: "'z cinst_scheme \<Rightarrow> u8" where
  "in_last s = in_buf s ! (unat (in_e s - 1) mod INPUT_BUF)"

definition in_erase :: "('z cinst_scheme, unit) kop" where
  "in_erase = seqM [modify (\<lambda>s. s\<lparr>in_e := in_e s - 1\<rparr>), consputc BACKSPACE]"

text \<open>The loop of \<open>C('U')\<close>; \<open>n\<close> is the number of characters of the line.\<close>

fun kill_line :: "nat \<Rightarrow> ('z cinst_scheme, unit) kop" where
  "kill_line 0 = skip"
| "kill_line (Suc n) = bind (gets (\<lambda>s. in_e s \<noteq> in_w s \<and> in_last s \<noteq> 10)) (\<lambda>go.
     whenM go (seqM [in_erase, kill_line n]))"

definition in_char :: "int \<Rightarrow> ('z cinst_scheme, unit) kop" where
  "in_char c = bind (gets in_e) (\<lambda>e. bind (gets in_r) (\<lambda>r.
     whenM (c \<noteq> 0 \<and> e - r < of_nat INPUT_BUF)
      (let c = (if c = 13 then 10 else c) in seqM [
         modify (\<lambda>s. s\<lparr>in_buf := (in_buf s)[unat e mod INPUT_BUF := of_int c], in_e := e + 1\<rparr>),
         consputc c,
         whenM (c = 10 \<or> c = 4 \<or> e + 1 = r + of_nat INPUT_BUF)
          (seqM [modify (\<lambda>s. s\<lparr>in_w := in_e s\<rparr>), wakeup ChInput])])))"

text \<open>The loop of \<open>consoleintr\<close> over the characters that \<open>getc\<close> has: whether a process listing was asked for. \<open>n\<close> bounds their number.\<close>

fun consoleintr_loop :: "nat \<Rightarrow> ('z cinst_scheme, int) kop \<Rightarrow> bool \<Rightarrow> ('z cinst_scheme, bool) kop" where
  "consoleintr_loop 0 getc dump = hang"
| "consoleintr_loop (Suc n) getc dump = bind getc (\<lambda>c.
     if c < 0 then return dump
     else if c = 16 then consoleintr_loop n getc True
     else andthen
       (if c = 21 then bind (gets (\<lambda>s. unat (in_e s - in_w s))) kill_line
        else if c = 8 \<or> c = 127 then bind (gets (\<lambda>s. in_e s \<noteq> in_w s)) (\<lambda>b. whenM b in_erase)
        else in_char c)
       (consoleintr_loop n getc dump))"

definition consoleintr :: "nat \<Rightarrow> ('z cinst_scheme, int) kop \<Rightarrow> ('z cinst_scheme, unit) kop" where
  "consoleintr n getc = andthen (lock ConsLk) (bind (consoleintr_loop n getc False) (\<lambda>dump.
     seqM [unlock ConsLk, whenM dump procdump]))"

definition kbdintr :: "('z cinst_scheme, unit) kop" where
  "kbdintr = bind (gets kbd_in) (\<lambda>codes. consoleintr (Suc (length codes)) kbdgetc)"

definition uartintr :: "('z cinst_scheme, unit) kop" where
  "uartintr = bind (gets uart_in) (\<lambda>bs. consoleintr (Suc (length bs)) uartgetc)"

section \<open>The device\<close>

definition cons_wait :: "('z cinst_scheme, unit + bool) kop" where
  "cons_wait = bind (gets (\<lambda>s. in_r s = in_w s)) (\<lambda>empty.
     if empty then
       bind killed (\<lambda>k.
       if k then andthen (unlock ConsLk) (return (Inr False))
       else andthen (sleep ChInput (Some ConsLk)) (return (Inl ())))
     else return (Inr True))"

text \<open>The loop of \<open>consoleread\<close> for \<open>n\<close> more characters: the bytes stored, and \<open>False\<close> when the process has been killed.\<close>

fun consoleread_loop :: "nat \<Rightarrow> nat \<Rightarrow> ('z cinst_scheme, u8 list \<times> bool) kop" where
  "consoleread_loop 0 target = return ([], True)"
| "consoleread_loop (Suc n) target = bind (forever (\<lambda>_. cons_wait) ()) (\<lambda>ok.
     if \<not> ok then return ([], False)
     else bind (gets (\<lambda>s. in_buf s ! (unat (in_r s) mod INPUT_BUF))) (\<lambda>c.
       andthen (modify (\<lambda>s. s\<lparr>in_r := in_r s + 1\<rparr>))
      (if c = 4 then andthen (whenM (Suc n < target) (modify (\<lambda>s. s\<lparr>in_r := in_r s - 1\<rparr>))) (return ([], True))
       else if c = 10 then return ([c], True)
       else bind (consoleread_loop n target) (\<lambda>(bs, ok). return (c # bs, ok)))))"

definition consoleread :: "nat \<Rightarrow> nat \<Rightarrow> ('z cinst_scheme, int \<times> u8 list) kop" where
  "consoleread ip n = andthen (seqM [iunlock ip, lock ConsLk]) (bind (consoleread_loop n n) (\<lambda>(bs, ok).
     if ok then andthen (seqM [unlock ConsLk, ilock ip]) (return (int (length bs), bs))
     else andthen (ilock ip) (return (- 1, bs))))"

definition consolewrite :: "nat \<Rightarrow> u8 list \<Rightarrow> ('z cinst_scheme, int) kop" where
  "consolewrite ip buf = andthen (seqM [
     iunlock ip,
     lock ConsLk,
     forM buf (\<lambda>b. consputc (uint b)),
     unlock ConsLk,
     ilock ip])
   (return (int (length buf)))"

text \<open>The table \<open>devsw\<close> after \<open>consoleinit\<close>: the console is device 1.\<close>

definition console_devs :: "'z cinst_scheme devsw list" where
  "console_devs = (replicate NDEV \<lparr>d_read = None, d_write = None\<rparr>)
     [1 := \<lparr>d_read = Some consoleread, d_write = Some consolewrite\<rparr>]"

definition consoleinit :: "('z cinst_scheme, unit) kop" where
  "consoleinit = modify (\<lambda>s. s\<lparr>con := (con s)\<lparr>locking := True\<rparr>\<rparr>)"

end
