(* ===== verification/Trap.thy ===== *)
theory Trap
  imports ConsIn
begin

text \<open>
  The system call dispatcher of \<open>syscall.c\<close> and the traps of \<open>trap.c\<close>. Both read the trap frame in memory. The number of the processor and the
  faulting address \<open>cr2\<close> are arguments of \<open>trap\<close>; acknowledging an interrupt at the interrupt controller has no
  effect on the state here. The disk in memory has no interrupts, its \<open>ideintr\<close> does nothing.
\<close>

unbundle bit_operations_syntax

abbreviation T_SYSCALL :: u32 where "T_SYSCALL \<equiv> 64"
abbreviation T_IRQ0 :: u32 where "T_IRQ0 \<equiv> 32"

section \<open>System calls\<close>

text \<open>The table \<open>syscalls\<close> from the entry of number 1 on. The argument \<open>junk\<close> is the stack memory for \<open>create_container\<close>.\<close>

definition syscalls :: "container \<Rightarrow> ('z cinst_scheme, u32) kop list" where
  "syscalls junk = [
     sys_fork, sys_exit, sys_wait, sys_pipe, sys_read console_devs, sys_kill, sys_exec console_devs, sys_fstat,
     sys_chdir console_devs, sys_dup, sys_getpid, sys_sbrk, sys_sleep, sys_uptime, sys_open console_devs,
     sys_write console_devs, sys_mknod console_devs, sys_unlink console_devs, sys_link console_devs,
     sys_mkdir console_devs, sys_close, sys_halt, sys_toggle, sys_print_count, sys_ps, sys_send, sys_recv,
     sys_send_multi, sys_store, sys_sleepcustom, sys_wakeupcustom, sys_read_mean, sys_create_container junk,
     sys_destroy_container, sys_join_container, sys_leave_container, sys_container_malloc]"

definition syscall :: "container \<Rightarrow> ('z cinst_scheme, unit) kop" where
  "syscall junk = bind curproc (\<lambda>c. bind (getp c) (\<lambda>p. bind (read32 (p_tf p + TF_EAX)) (\<lambda>eax.
     let num = sint eax in
     if 0 < num \<and> num < 38 then
       andthen (count_call num) (bind (syscalls junk ! nat (num - 1)) (\<lambda>r.
       bind (getp c) (\<lambda>p. write32 (p_tf p + TF_EAX) r)))
     else seqM [
       cprintf ''%d %s: unknown sys call %d\<newline>'' [AInt (of_int (p_pid p)), arg_chars (p_name p), AInt eax],
       write32 (p_tf p + TF_EAX) (- 1)])))"

section \<open>Traps\<close>

definition timer_tick :: "nat \<Rightarrow> ('z tickst_scheme, unit) kop" where
  "timer_tick cpu = whenM (cpu = 0) (seqM [
     lock TicksLk,
     modify (\<lambda>s. s\<lparr>ticks := ticks s + 1\<rparr>),
     wakeup ChTicks,
     unlock TicksLk])"

text \<open>A trap of no known kind: a panic for one in the kernel, the end of the process for one in user mode.\<close>

definition trap_default :: "nat \<Rightarrow> u32 \<Rightarrow> u32 \<Rightarrow> u32 \<Rightarrow> u32 \<Rightarrow> u32 \<Rightarrow> ('z procst_scheme, unit) kop" where
  "trap_default cpu cr2 trapno seg eip err = bind myproc (\<lambda>po.
     if po = None \<or> seg AND 3 = 0 then
       seqM [cprintf ''unexpected trap %d from cpu %d eip %x (cr2=0x%x)\<newline>'' [AInt trapno, AInt (of_nat cpu), AInt eip, AInt cr2],
         panic ''trap'']
     else bind curproc (\<lambda>c. bind (getp c) (\<lambda>p. seqM [
       cprintf ''pid %d %s: trap %d err %d on cpu %d eip 0x%x addr 0x%x--kill proc\<newline>''
         [AInt (of_int (p_pid p)), arg_chars (p_name p), AInt trapno, AInt err, AInt (of_nat cpu), AInt eip, AInt cr2],
       setp c (\<lambda>p. p\<lparr>p_killed := True\<rparr>)])))"

text \<open>\<open>if(myproc() && myproc()->killed && (tf->cs&3) == DPL_USER) exit();\<close>\<close>

definition exit_if_killed :: "u32 \<Rightarrow> ('z filest_scheme, unit) kop" where
  "exit_if_killed seg = bind myproc (\<lambda>po. case po of
     None \<Rightarrow> skip
   | Some c \<Rightarrow> bind (getp c) (\<lambda>p. whenM (p_killed p \<and> seg AND 3 = 3) exit))"

definition trap :: "container \<Rightarrow> nat \<Rightarrow> u32 \<Rightarrow> u32 \<Rightarrow> ('z cinst_scheme, unit) kop" where
  "trap junk cpu cr2 tf = bind (read32 (tf + TF_TRAPNO)) (\<lambda>trapno.
     bind (read32 (tf + TF_CS)) (\<lambda>csw. bind (read32 (tf + TF_EIP)) (\<lambda>eip. bind (read32 (tf + TF_ERR)) (\<lambda>err.
     let seg = csw AND 0xFFFF in
     if trapno = T_SYSCALL then bind curproc (\<lambda>c. seqM [
         bind killed (\<lambda>k. whenM k exit),
         setp c (\<lambda>p. p\<lparr>p_tf := tf\<rparr>),
         syscall junk,
         bind killed (\<lambda>k. whenM k exit)])
     else seqM [
       if trapno = T_IRQ0 + 0 then timer_tick cpu
       else if trapno = T_IRQ0 + 14 then skip
       else if trapno = T_IRQ0 + 14 + 1 then skip
       else if trapno = T_IRQ0 + 1 then kbdintr
       else if trapno = T_IRQ0 + 4 then uartintr
       else if trapno = T_IRQ0 + 7 \<or> trapno = T_IRQ0 + 31 then
         cprintf ''cpu%d: spurious interrupt at %x:%x\<newline>'' [AInt (of_nat cpu), AInt seg, AInt eip]
       else trap_default cpu cr2 trapno seg eip err,
       exit_if_killed seg,
       bind myproc (\<lambda>po. case po of
         None \<Rightarrow> skip
       | Some c \<Rightarrow> bind (getp c) (\<lambda>p. whenM (p_state p = RUNNING \<and> trapno = T_IRQ0 + 0) yield)),
       exit_if_killed seg]))))"

end
