(* ===== verification/Session.thy ===== *)
theory Session
  imports Log
begin

text \<open>
  A process alone with the buffer cache. A \<open>session\<close> is a good cache of which one process holds some buffers and nobody else any, and
  in which every buffer is dirty or a copy of its block. The lemmas say what \<open>bread\<close>, \<open>bwrite\<close> and \<open>brelse\<close> of \<open>bio.c\<close> do in a session,
  and what the copy of one block to another does.
\<close>

section \<open>Running sequences\<close>

lemma bind_gets: "bind (gets f) g s e = g (f s) s e"
  by (simp add: monad_defs)

lemma bind_ret: "m s e = Ret x t e' \<Longrightarrow> bind m k s e = k x t e'"
  by (simp add: monad_defs)

lemma seqM_two: "seqM (m # m' # ms) = andthen (andthen m m') (seqM ms)"
  by (auto simp: monad_defs fun_eq_iff split: result.split)

lemma seqM_map: "seqM (map f xs) = forM xs f"
  by (induction xs) simp_all

lemma seqM_append: "seqM (xs @ ys) s e = andthen (seqM xs) (seqM ys) s e"
  by (induction xs arbitrary: s e) (auto simp: monad_defs split: result.splits)

section \<open>Sessions\<close>

definition session :: "int \<Rightarrow> nat list \<Rightarrow> nat set \<Rightarrow> 'z biost_scheme \<Rightarrow> bool" where
  "session pid xs H s \<longleftrightarrow> bio_ready pid s \<and> cache_ok s xs \<and> (\<forall>i<NBUF.
     (dirty (bufs s ! i) \<or> copy_of (disk s) (bufs s ! i)) \<and>
     (if i \<in> H then owns_buf pid i s \<and> b_refcnt (bufs s ! i) = 1 else \<not> sl_locked (sleeplocks s (BufSleepLk i)) \<and> b_refcnt (bufs s ! i) = 0))"

definition dirties :: "'z biost_scheme \<Rightarrow> nat set" where
  "dirties s = {i. i < NBUF \<and> dirty (bufs s ! i)}"

lemma sessionD:
  assumes "session pid xs H s"
  shows "bio_ready pid s" "cache_ok s xs" "one_each (bufs s)" "length (bufs s) = 31"
    "i < NBUF \<Longrightarrow> dirty (bufs s ! i) \<or> copy_of (disk s) (bufs s ! i)"
    "i < NBUF \<Longrightarrow> i \<in> H \<Longrightarrow> owns_buf pid i s" "i < NBUF \<Longrightarrow> i \<in> H \<Longrightarrow> b_refcnt (bufs s ! i) = 1"
    "i < NBUF \<Longrightarrow> i \<notin> H \<Longrightarrow> \<not> sl_locked (sleeplocks s (BufSleepLk i))" "i < NBUF \<Longrightarrow> i \<notin> H \<Longrightarrow> b_refcnt (bufs s ! i) = 0"
  using assms cache_ok_len [of s xs] by (auto simp: session_def cache_ok_def)

lemma session_bread:
  assumes s: "session pid xs H s" and free: "\<And>i. i \<in> H \<Longrightarrow> \<not> holds_block 1 blk (bufs s) i"
    and room: "card (dirties s \<union> H) < NBUF" and fin: "finite H" and d: "unat blk < length (disk s)"
  shows "\<exists>i t. bread 1 blk s e = Ret i t e \<and> i < NBUF \<and> i \<notin> H \<and> session pid xs (insert i H) t \<and> holds_block 1 blk (bufs t) i \<and>
    b_data (bufs t ! i) = contents s blk \<and> contents t = contents s \<and> disk t = disk s \<and> biost.more t = biost.more s \<and>
    (\<forall>j\<in>H. bufs t ! j = bufs s ! j) \<and> dirties t \<subseteq> dirties s"
proof -
  have "\<not> {0..<NBUF} \<subseteq> dirties s \<union> H"
  proof
    assume "{0..<NBUF} \<subseteq> dirties s \<union> H"
    then have "card {0..<NBUF} \<le> card (dirties s \<union> H)" by (rule card_mono [rotated]) (simp add: fin dirties_def)
    then show False using room by simp
  qed
  then obtain k where k: "k < NBUF" "k \<notin> H" "\<not> dirty (bufs s ! k)" by (auto simp: dirties_def)
  then have "reusable (bufs s) k" using sessionD(9) [OF s] by simp
  moreover have "\<not> sl_locked (sleeplocks s (BufSleepLk i)) \<and> b_refcnt (bufs s ! i) \<noteq> - 1" if "i < NBUF" "holds_block 1 blk (bufs s) i" for i
    using sessionD(8,9) [OF s that(1)] free that(2) by fastforce
  ultimately have "obtainable blk s" using k(1) by (auto simp: obtainable_def)
  then obtain i t where g: "bread 1 blk s e = Ret i t e" "i < NBUF" "owns_buf pid i t" "bio_ready pid t" "holds_block 1 blk (bufs t) i"
      "b_data (bufs t ! i) = contents s blk" "contents t = contents s" "cache_ok t xs" "disk t = disk s" "taken i blk s t"
    using bread_ok [OF sessionD(2,1) [OF s]] d by blast
  have iH: "i \<notin> H" using g(2,10) sessionD(7) [OF s g(2)] free by (auto simp: taken_def)
  have "session pid xs (insert i H) t" unfolding session_def
  proof (intro conjI allI impI g(4,8))
    fix j assume j: "j < NBUF"
    show "dirty (bufs t ! j) \<or> copy_of (disk t) (bufs t ! j)"
      using g(9,10) sessionD(5) [OF s j] by (cases "j = i") (auto simp: taken_def)
    show "if j \<in> insert i H then owns_buf pid j t \<and> b_refcnt (bufs t ! j) = 1
        else \<not> sl_locked (sleeplocks t (BufSleepLk j)) \<and> b_refcnt (bufs t ! j) = 0"
      using g(3,10) iH sessionD(6-9) [OF s j] by (cases "j = i") (auto simp: taken_def owns_buf_def)
  qed
  moreover have "dirties t \<subseteq> dirties s"
  proof
    fix j assume "j \<in> dirties t"
    then show "j \<in> dirties s" using g(10) by (cases "j = i") (auto simp: taken_def dirties_def)
  qed
  moreover have "\<forall>j\<in>H. bufs t ! j = bufs s ! j" using iH g(10) by (auto simp: taken_def)
  ultimately show ?thesis using g iH by (auto simp: taken_def)
qed

lemma session_write:
  assumes s: "session pid xs H s" and i: "i < NBUF" "i \<in> H" and h: "holds_block 1 blk (bufs s) i" and d: "unat blk < length (disk s)"
    and x: "x = f (b_data (bufs s ! i))"
  shows "andthen (setdata i f) (bwrite i) s e = Ret () (after_write i blk x s) e"
    and "session pid xs H (after_write i blk x s)"
    and "contents (after_write i blk x s) = (contents s)(blk := x)"
    and "dirties (after_write i blk x s) \<subseteq> dirties s"
proof -
  let ?u = "s\<lparr>bufs := upd i (\<lambda>b. b\<lparr>b_data := f (b_data b)\<rparr>) (bufs s)\<rparr>" and ?t = "after_write i blk x s"
  note len = sessionD(4) [OF s] and o1 = sessionD(3) [OF s]
  have u: "after_write i blk (b_data (bufs ?u ! i)) ?u = ?t" using i len by (simp add: after_write_def upd_def written_def x)
  have "bwrite i ?u e = Ret () ?t e"
    using bwrite_ret [of pid ?u i blk e] sessionD(1) [OF s] sessionD(6) [OF s i] h d len i unfolding u by (simp add: owns_buf_def bio_ready_def)
  then show "andthen (setdata i f) (bwrite i) s e = Ret () ?t e"
    by (simp add: monad_defs setdata_def setb_def upd_def)
  show "contents ?t = (contents s)(blk := x)" by (rule contents_write [OF o1 i(1) len h d])
  have ok: "cache_ok ?t xs" using sessionD(2) [OF s] sessionD(7) [OF s i] i h d by (intro cache_ok_write) simp_all
  have bi: "bufs ?t ! i = written x (bufs s ! i)" and bj: "\<And>j. j \<noteq> i \<Longrightarrow> bufs ?t ! j = bufs s ! j"
    using i len by (simp_all add: after_write_def)
  show "dirties ?t \<subseteq> dirties s"
  proof
    fix j assume "j \<in> dirties ?t"
    then show "j \<in> dirties s" using bi bj by (cases "j = i") (auto simp: dirties_def)
  qed
  have lk: "sleeplocks ?t = sleeplocks s" "owns_buf pid j ?t = owns_buf pid j s" "bio_ready pid ?t" for j
    using sessionD(1) [OF s] by (simp_all add: after_write_def owns_buf_def bio_ready_def)
  show "session pid xs H ?t" unfolding session_def
  proof (intro conjI allI impI ok lk(3))
    fix j assume j: "j < NBUF"
    have "b_refcnt (bufs ?t ! j) = b_refcnt (bufs s ! j)" using bi bj by (cases "j = i") simp_all
    then show "if j \<in> H then owns_buf pid j ?t \<and> b_refcnt (bufs ?t ! j) = 1 else \<not> sl_locked (sleeplocks ?t (BufSleepLk j)) \<and> b_refcnt (bufs ?t ! j) = 0"
      using sessionD(6-9) [OF s j] lk by simp
    show "dirty (bufs ?t ! j) \<or> copy_of (disk ?t) (bufs ?t ! j)"
    proof (cases "j = i")
      case True
      then show ?thesis using bi h d by (simp add: copy_of_def) (simp add: after_write_def)
    next
      case False
      then have "b_dev (bufs s ! j) = 1 \<Longrightarrow> b_blockno (bufs s ! j) \<noteq> blk" using o1 i j h unfolding one_each_def by (metis zero_neq_one)
      then have "copy_of (disk s) (bufs s ! j) \<Longrightarrow> copy_of (disk ?t) (bufs s ! j)"
        by (auto simp: copy_of_def after_write_def word_unat_eq_iff)
      then show ?thesis using sessionD(5) [OF s j] bj [OF False] by auto
    qed
  qed
qed

lemma session_brelse:
  assumes s: "session pid xs H s" and i: "i < NBUF" "i \<in> H"
  shows "brelse i s e = Ret () (after_brelse i s) e"
    and "\<exists>ys. session pid ys (H - {i}) (after_brelse i s)"
    and "contents (after_brelse i s) = contents s" and "dirties (after_brelse i s) = dirties s"
proof -
  let ?t = "after_brelse i s"
  note len = sessionD(4) [OF s]
  show "brelse i s e = Ret () ?t e" by (rule brelse_ret [OF sessionD(1) [OF s] sessionD(6) [OF s i]])
  show "contents ?t = contents s" by (rule contents_core) (simp_all add: after_brelse_def)
  have co: "core (bufs ?t ! j) = core (bufs s ! j)" for j by (simp add: after_brelse_def)
  have fl: "b_flags (bufs ?t ! j) = b_flags (bufs s ! j)" and cp: "copy_of d (bufs ?t ! j) = copy_of d (bufs s ! j)" for j d
    using co [of j] by (simp_all add: core_def copy_of_def)
  show "dirties ?t = dirties s" by (simp add: dirties_def fl)
  have rf: "b_refcnt (bufs ?t ! j) = (if j = i then 0 else b_refcnt (bufs s ! j))" for j
    using sessionD(7) [OF s i] i len by (simp add: after_brelse_def)
  have bits: "dirty (bufs s ! i) \<or> copy_of (disk s) (bufs s ! i)" by (rule sessionD(5) [OF s i(1)])
  have "ring (bufs ?t) (mtf i xs)"
    using ring_released [of "bufs s" xs i] sessionD(2) [OF s] sessionD(7) [OF s i] i by (simp add: cache_ok_def after_brelse_def)
  moreover have "one_each (bufs ?t)" using sessionD(3) [OF s] co unfolding one_each_def core_def by simp
  moreover have bs: "bio_ready pid ?t" using sessionD(1) [OF s] by (auto simp: bio_ready_def after_brelse_def runs_def wake_def)
  moreover have each: "(dirty (bufs ?t ! j) \<or> copy_of (disk ?t) (bufs ?t ! j)) \<and> (if j \<in> H - {i} then owns_buf pid j ?t \<and> b_refcnt (bufs ?t ! j) = 1
      else \<not> sl_locked (sleeplocks ?t (BufSleepLk j)) \<and> b_refcnt (bufs ?t ! j) = 0)" if j: "j < NBUF" for j
    using sessionD(5-9) [OF s j] rf [of j] by (auto simp: fl cp owns_buf_def) (auto simp: after_brelse_def owns_buf_def)
  moreover have "\<not> sl_locked (sleeplocks ?t (BufSleepLk j)) \<and> (dirty (bufs ?t ! j) \<or> copy_of (disk ?t) (bufs ?t ! j))"
    if "j < NBUF" "b_refcnt (bufs ?t ! j) = 0" for j
    using each [OF that(1)] that(2) by (auto split: if_splits)
  moreover have "\<forall>j<NBUF. dirty (bufs ?t ! j) \<longrightarrow> valid (bufs ?t ! j)" using sessionD(2) [OF s] by (simp add: cache_ok_def fl)
  ultimately have "session pid (mtf i xs) (H - {i}) ?t" unfolding session_def cache_ok_def by blast
  then show "\<exists>ys. session pid ys (H - {i}) ?t" by blast
qed

section \<open>Copying one block to another\<close>

text \<open>The block \<open>a\<close> becomes a copy of the block \<open>b\<close>, in the cache and on the disk; the process holds no buffer before and after.\<close>

definition copied :: "int \<Rightarrow> u32 \<Rightarrow> u8 list \<Rightarrow> 'z biost_scheme \<Rightarrow> 'z biost_scheme \<Rightarrow> bool" where
  "copied pid a x s t \<longleftrightarrow> (\<exists>ys. session pid ys {} t) \<and> contents t = (contents s)(a := x) \<and> disk t = (disk s)[unat a := x] \<and>
     biost.more t = biost.more s \<and> dirties t \<subseteq> dirties s"

lemma copy_tail:
  assumes s: "session pid xs {i, j} s" and ij: "i \<noteq> j" "i < NBUF" "j < NBUF" and h: "holds_block 1 a (bufs s) i" and d: "unat a < length (disk s)"
  shows "\<exists>t. seqM [setdata i (\<lambda>_. x), bwrite i, brelse j, brelse i] s e = Ret () t e \<and> copied pid a x s t"
proof -
  let ?t = "after_write i a x s" and ?u = "after_brelse j (after_write i a x s)"
  note w = session_write [OF s ij(2) _ h d, where f = "\<lambda>_. x", OF _ refl, simplified]
  have "j \<in> {i, j}" by simp
  note b = session_brelse [OF w(2) ij(3) this]
  obtain ys where "session pid ys ({i, j} - {j}) ?u" using b(2) by blast
  then have "session pid ys {i} ?u" using ij(1) by (simp add: insert_Diff_if)
  note c = session_brelse [OF this ij(2)]
  have "seqM [setdata i (\<lambda>_. x), bwrite i, brelse j, brelse i] s e = Ret () (after_brelse i ?u) e"
    using w(1) [of e] b(1) [of e] c(1) [of e] by (auto simp: monad_defs split: result.splits)
  moreover have "\<exists>zs. session pid zs {} (after_brelse i ?u)" using c(2) by simp
  moreover have "disk (after_brelse i ?u) = (disk s)[unat a := x]" "biost.more (after_brelse i ?u) = biost.more s"
    by (simp_all add: after_brelse_def after_write_def)
  ultimately show ?thesis using w(3,4) b(3,4) c(3,4) by (auto simp: copied_def)
qed

lemma copy_forward:
  assumes s: "session pid xs {} s" and ab: "a \<noteq> b" "unat a < length (disk s)" "unat b < length (disk s)" and room: "card (dirties s) \<le> NBUF - 2"
  shows "\<exists>t. bind (bread 1 a) (\<lambda>i. bind (bread 1 b) (\<lambda>j. bind (getb j) (\<lambda>fb.
    seqM [setdata i (\<lambda>_. b_data fb), bwrite i, brelse j, brelse i]))) s e = Ret () t e \<and> copied pid a (contents s b) s t"
proof -
  obtain i t where g: "bread 1 a s e = Ret i t e" "i < NBUF" "session pid xs {i} t" "holds_block 1 a (bufs t) i"
      "contents t = contents s" "disk t = disk s" "biost.more t = biost.more s" "dirties t \<subseteq> dirties s"
    using session_bread [where e = e, OF s _ _ _ ab(2)] room by auto
  have fin: "finite (dirties s)" by (simp add: dirties_def)
  have "card (dirties t \<union> {i}) < NBUF"
    using card_mono [OF fin g(8)] room by (simp add: card_insert_if finite_subset [OF g(8) fin])
  then obtain j u where h: "bread 1 b t e = Ret j u e" "j < NBUF" "j \<noteq> i" "session pid xs {j, i} u" "b_data (bufs u ! j) = contents t b"
      "contents u = contents t" "disk u = disk t" "biost.more u = biost.more t" "bufs u ! i = bufs t ! i" "dirties u \<subseteq> dirties t"
    using session_bread [OF g(3), of b e] ab g(4,6) by auto
  obtain v where "seqM [setdata i (\<lambda>_. contents s b), bwrite i, brelse j, brelse i] u e = Ret () v e" "copied pid a (contents s b) u v"
    using copy_tail [of pid xs i j u a "contents s b" e] h g ab(2) by (auto simp: insert_commute)
  then show ?thesis using g h by (simp add: monad_defs getb_def copied_def) blast
qed

lemma copy_backward:
  assumes s: "session pid xs {} s" and ab: "a \<noteq> b" "unat a < length (disk s)" "unat b < length (disk s)" and room: "card (dirties s) \<le> NBUF - 2"
  shows "\<exists>t. bind (bread 1 b) (\<lambda>j. bind (bread 1 a) (\<lambda>i. bind (getb j) (\<lambda>fb.
    seqM [setdata i (\<lambda>_. b_data fb), bwrite i, brelse j, brelse i]))) s e = Ret () t e \<and> copied pid a (contents s b) s t"
proof -
  obtain j t where g: "bread 1 b s e = Ret j t e" "j < NBUF" "session pid xs {j} t" "holds_block 1 b (bufs t) j" "b_data (bufs t ! j) = contents s b"
      "contents t = contents s" "disk t = disk s" "biost.more t = biost.more s" "dirties t \<subseteq> dirties s"
    using session_bread [where e = e, OF s _ _ _ ab(3)] room by auto
  have fin: "finite (dirties s)" by (simp add: dirties_def)
  have "card (dirties t \<union> {j}) < NBUF"
    using card_mono [OF fin g(9)] room by (simp add: card_insert_if finite_subset [OF g(9) fin])
  then obtain i u where h: "bread 1 a t e = Ret i u e" "i < NBUF" "i \<noteq> j" "session pid xs {i, j} u" "holds_block 1 a (bufs u) i"
      "contents u = contents t" "disk u = disk t" "biost.more u = biost.more t" "bufs u ! j = bufs t ! j" "dirties u \<subseteq> dirties t"
    using session_bread [OF g(3), of a e] ab g(4,7) by auto
  obtain v where "seqM [setdata i (\<lambda>_. contents s b), bwrite i, brelse j, brelse i] u e = Ret () v e" "copied pid a (contents s b) u v"
    using copy_tail [of pid xs i j u a "contents s b" e] h g ab(2) by auto
  then show ?thesis using g h by (simp add: monad_defs getb_def copied_def) blast
qed

end
