(* ===== verification/Crash.thy ===== *)
theory Crash
  imports Session
begin

text \<open>
  Crash safety of the log, \<open>log.c\<close>. The commit is a sequence of steps, each of which writes one block of the disk. The theorem says
  what the recovery at the next start makes of the disk after any number of them: the disk from before the commit, or all of it.
\<close>

section \<open>The steps of a commit\<close>

definition log_step :: "nat \<Rightarrow> ('z logst_scheme, unit) kop" where
  "log_step tail = bind (gets log_dev) (\<lambda>dev. bind (gets log_start) (\<lambda>start. bind (gets lh_block) (\<lambda>blk.
     bind (bread dev (start + of_nat tail + 1)) (\<lambda>tob.
     bind (bread dev (blk ! tail)) (\<lambda>from.
     bind (getb from) (\<lambda>fb. seqM [
       setdata tob (\<lambda>_. b_data fb),
       bwrite tob,
       brelse from,
       brelse tob]))))))"

definition install_step :: "nat \<Rightarrow> ('z logst_scheme, unit) kop" where
  "install_step tail = bind (gets log_dev) (\<lambda>dev. bind (gets log_start) (\<lambda>start. bind (gets lh_block) (\<lambda>blk.
     bind (bread dev (start + of_nat tail + 1)) (\<lambda>lbuf.
     bind (bread dev (blk ! tail)) (\<lambda>dbuf.
     bind (getb lbuf) (\<lambda>lb. seqM [
       setdata dbuf (\<lambda>_. b_data lb),
       bwrite dbuf,
       brelse lbuf,
       brelse dbuf]))))))"

definition clear_step :: "('z logst_scheme, unit) kop" where
  "clear_step = andthen (modify (\<lambda>s. s\<lparr>lh_n := 0\<rparr>)) write_head"

definition commit_steps :: "nat \<Rightarrow> ('z logst_scheme, unit) kop list" where
  "commit_steps n = map log_step [0..<n] @ write_head # map install_step [0..<n] @ [clear_step]"

lemma loops_steps:
  "write_log = bind (gets lh_n) (\<lambda>n. forM [0..<nat n] log_step)"
  "install_trans = bind (gets lh_n) (\<lambda>n. forM [0..<nat n] install_step)"
  unfolding write_log_def install_trans_def log_step_def install_step_def by (rule refl)+

lemma log_more:
  fixes s t :: "'z logst_scheme"
  assumes "biost.more t = biost.more s"
  shows "lh_n t = lh_n s" "lh_block t = lh_block s" "log_start t = log_start s" "log_dev t = log_dev s"
  using assms by (cases s; cases t; simp)+

lemma log_upd [simp]:
  fixes s :: "'z logst_scheme"
  shows "session pid xs H (s\<lparr>lh_n := n\<rparr>) = session pid xs H s" "session pid xs H (s\<lparr>lh_block := b\<rparr>) = session pid xs H s"
    "contents (s\<lparr>lh_n := n\<rparr>) = contents s" "contents (s\<lparr>lh_block := b\<rparr>) = contents s"
    "dirties (s\<lparr>lh_n := n\<rparr>) = dirties s" "dirties (s\<lparr>lh_block := b\<rparr>) = dirties s"
  by (simp_all add: session_def cache_ok_def bio_ready_def runs_def owns_buf_def contents_def dirties_def fun_eq_iff split: option.split)

text \<open>Where the log lies: the header at \<open>start\<close> and the copies of the blocks behind it, all on the disk.\<close>

definition log_place :: "'z logst_scheme \<Rightarrow> bool" where
  "log_place s \<longleftrightarrow> log_dev s = 1 \<and> unat (log_start s) + LOGSIZE < length (disk s) \<and> length (disk s) \<le> 2 ^ 32"

text \<open>The home blocks of the header, the first \<open>n\<close> entries of the list, are on the disk, and neither the header nor one
  of the \<open>n\<close> blocks behind it.\<close>

definition homes_ok :: "nat \<Rightarrow> nat \<Rightarrow> nat \<Rightarrow> u32 list \<Rightarrow> bool" where
  "homes_ok len st n bl \<longleftrightarrow> n \<le> length bl \<and>
     (\<forall>j<n. unat (bl ! j) < len \<and> (unat (bl ! j) < st \<or> st + n < unat (bl ! j)))"

abbreviation slot_of :: "'z logst_scheme \<Rightarrow> nat \<Rightarrow> u32" where "slot_of s j \<equiv> log_start s + of_nat j + 1"

lemma unat_slot:
  assumes "log_place s" and "j < LOGSIZE"
  shows "unat (slot_of s j) = unat (log_start s) + j + 1"
proof -
  have b: "unat (log_start s) + j + 1 < 2 ^ 32" using assms by (simp add: log_place_def)
  have j: "unat (of_nat j :: u32) = j" using assms(2) by (simp add: unat_of_nat take_bit_nat_eq_self)
  have "unat (log_start s + of_nat j) = unat (log_start s) + j"
    using unat_add_lem [where ?'a = 32, of "log_start s" "of_nat j"] b j by simp
  then show ?thesis using unat_add_lem [where ?'a = 32, of "log_start s + of_nat j" 1] b by simp
qed

section \<open>Many copies\<close>

text \<open>Blocks written one after the other, in the cache and on the disk.\<close>

definition put_all :: "(nat \<Rightarrow> u32) \<Rightarrow> (nat \<Rightarrow> u8 list) \<Rightarrow> nat list \<Rightarrow> (u32 \<Rightarrow> u8 list) \<Rightarrow> u32 \<Rightarrow> u8 list" where
  "put_all a x js c = fold (\<lambda>j c. c(a j := x j)) js c"

definition write_all :: "(nat \<Rightarrow> u32) \<Rightarrow> (nat \<Rightarrow> u8 list) \<Rightarrow> nat list \<Rightarrow> u8 list list \<Rightarrow> u8 list list" where
  "write_all a x js d = fold (\<lambda>j d. d[unat (a j) := x j]) js d"

lemma length_write_all [simp]: "length (write_all a x js d) = length d"
  unfolding write_all_def by (induction js arbitrary: d) simp_all

lemma put_all_other: "(\<And>j. j \<in> set js \<Longrightarrow> a j \<noteq> b) \<Longrightarrow> put_all a x js c b = c b"
  unfolding put_all_def by (induction js arbitrary: c) auto

lemma write_all_other: "(\<And>j. j \<in> set js \<Longrightarrow> unat (a j) \<noteq> b) \<Longrightarrow> write_all a x js d ! b = d ! b"
  unfolding write_all_def by (induction js arbitrary: d) auto

text \<open>When the value depends on the block only, a written block has the value of some, hence of each of its writes.\<close>

lemma write_all_at:
  assumes "\<And>j. j \<in> set js \<Longrightarrow> x j = y (a j)" and "i \<in> set js" and "unat (a i) < length d"
  shows "write_all a x js d ! unat (a i) = y (a i)"
  using assms
proof (induction js arbitrary: d rule: rev_induct)
  case Nil
  then show ?case by simp
next
  case (snoc k ks)
  have e: "write_all a x (ks @ [k]) d = (write_all a x ks d)[unat (a k) := x k]" by (simp add: write_all_def)
  show ?case
  proof (cases "a k = a i")
    case True
    then show ?thesis using snoc.prems by (simp add: e)
  next
    case False
    then have "unat (a k) \<noteq> unat (a i)" by (simp add: word_unat_eq_iff)
    then show ?thesis using snoc False by (auto simp: e)
  qed
qed

lemma copies:
  fixes s :: "'z logst_scheme"
  assumes "session pid xs {} s" and "card (dirties s) \<le> NBUF - 2"
    and "\<And>j (u :: 'z logst_scheme) zs. j \<in> set js \<Longrightarrow> session pid zs {} u \<Longrightarrow> card (dirties u) \<le> NBUF - 2 \<Longrightarrow> biost.more u = biost.more s \<Longrightarrow>
      length (disk u) = length (disk s) \<Longrightarrow> \<exists>t. step j u e = Ret () t e \<and> copied pid (a j) (contents u (b j)) u t"
    and "\<And>i j. i \<in> set js \<Longrightarrow> j \<in> set js \<Longrightarrow> a i \<noteq> b j"
  shows "\<exists>t ys. forM js step s e = Ret () t e \<and> session pid ys {} t \<and> contents t = put_all a (\<lambda>j. contents s (b j)) js (contents s) \<and>
    disk t = write_all a (\<lambda>j. contents s (b j)) js (disk s) \<and> biost.more t = biost.more s \<and> dirties t \<subseteq> dirties s"
  using assms
proof (induction js arbitrary: s xs)
  case Nil
  then show ?case by (auto simp: monad_defs put_all_def write_all_def)
next
  case (Cons j js)
  obtain t where t: "step j s e = Ret () t e" "copied pid (a j) (contents s (b j)) s t"
    using Cons.prems(3) [of j xs s] Cons.prems(1,2) by auto
  then obtain ys where ys: "session pid ys {} t" "contents t = (contents s)(a j := contents s (b j))"
      "disk t = (disk s)[unat (a j) := contents s (b j)]" "biost.more t = biost.more s" "dirties t \<subseteq> dirties s"
    by (auto simp: copied_def)
  have "card (dirties t) \<le> card (dirties s)" by (rule card_mono [OF _ ys(5)]) (simp add: dirties_def)
  then have "card (dirties t) \<le> NBUF - 2" using Cons.prems(2) by simp
  then obtain u zs where u: "forM js step t e = Ret () u e" "session pid zs {} u" "contents u = put_all a (\<lambda>j. contents t (b j)) js (contents t)"
      "disk u = write_all a (\<lambda>j. contents t (b j)) js (disk t)" "biost.more u = biost.more t" "dirties u \<subseteq> dirties t"
    using Cons.IH [of ys t, OF ys(1)] Cons.prems(3,4) ys(3,4) by auto
  have b: "contents t (b i) = contents s (b i)" if "i \<in> set js" for i using ys(2) Cons.prems(4) [of j i] that by simp
  have "put_all a (\<lambda>j. contents t (b j)) js c = put_all a (\<lambda>j. contents s (b j)) js c" for c
    unfolding put_all_def by (rule fold_cong) (auto simp: b)
  moreover have "write_all a (\<lambda>j. contents t (b j)) js d = write_all a (\<lambda>j. contents s (b j)) js d" for d
    unfolding write_all_def by (rule fold_cong) (auto simp: b)
  ultimately show ?case
    using t(1) u ys by (intro exI [of _ u] exI [of _ zs]) (auto simp: monad_defs put_all_def write_all_def)
qed

lemma slot_apart:
  assumes "log_place s" and "homes_ok (length (disk s)) (unat (log_start s)) n (lh_block s)" and "i < n" and "j < n" and "n \<le> LOGSIZE"
  shows "slot_of s i \<noteq> lh_block s ! j" "log_start s \<noteq> lh_block s ! j" "slot_of s i \<noteq> log_start s"
proof -
  have "unat (slot_of s i) = unat (log_start s) + i + 1" using unat_slot [OF assms(1)] assms by simp
  moreover have "unat (lh_block s ! j) < unat (log_start s) \<or> unat (log_start s) + n < unat (lh_block s ! j)"
    using assms(2,4) by (simp add: homes_ok_def)
  ultimately show "slot_of s i \<noteq> lh_block s ! j" "log_start s \<noteq> lh_block s ! j" "slot_of s i \<noteq> log_start s" using assms(3,5)
    by (auto simp: word_unat_eq_iff)
qed

lemma log_steps:
  fixes s :: "'z logst_scheme"
  assumes s: "session pid xs {} s" and room: "card (dirties s) \<le> NBUF - 2" and pl: "log_place s"
    and hm: "homes_ok (length (disk s)) (unat (log_start s)) n (lh_block s)" and k: "k \<le> n" "n \<le> LOGSIZE"
  shows "\<exists>t ys. forM [0..<k] log_step s e = Ret () t e \<and> session pid ys {} t \<and>
    contents t = put_all (slot_of s) (\<lambda>j. contents s (lh_block s ! j)) [0..<k] (contents s) \<and>
    disk t = write_all (slot_of s) (\<lambda>j. contents s (lh_block s ! j)) [0..<k] (disk s) \<and> biost.more t = biost.more s \<and> dirties t \<subseteq> dirties s"
proof (rule copies [OF s room])
  fix j and u :: "'z logst_scheme" and zs
  assume u: "j \<in> set [0..<k]" "session pid zs {} u" "card (dirties u) \<le> NBUF - 2" "biost.more u = biost.more s" "length (disk u) = length (disk s)"
  note m = log_more [OF u(4)]
  have j: "j < n" "j < LOGSIZE" using u(1) k by auto
  have "unat (slot_of s j) < length (disk u)" "unat (lh_block s ! j) < length (disk u)"
    using unat_slot [OF pl j(2)] pl j hm u(5) by (auto simp: log_place_def homes_ok_def)
  then have run: "\<exists>t. bind (bread 1 (slot_of s j)) (\<lambda>i. bind (bread 1 (lh_block s ! j)) (\<lambda>k. bind (getb k) (\<lambda>fb.
      seqM [setdata i (\<lambda>_. b_data fb), bwrite i, brelse k, brelse i]))) u e = Ret () t e \<and> copied pid (slot_of s j) (contents u (lh_block s ! j)) u t"
    by (intro copy_forward [OF u(2) slot_apart(1) [OF pl hm j(1,1) k(2)] _ _ u(3)])
  have step: "log_step j u e = bind (bread 1 (slot_of s j)) (\<lambda>i. bind (bread 1 (lh_block s ! j)) (\<lambda>k. bind (getb k) (\<lambda>fb.
      seqM [setdata i (\<lambda>_. b_data fb), bwrite i, brelse k, brelse i]))) u e"
    using pl by (simp only: log_step_def bind_gets m log_place_def)
  show "\<exists>t. log_step j u e = Ret () t e \<and> copied pid (slot_of s j) (contents u (lh_block s ! j)) u t"
    unfolding step by (rule run)
next
  fix i j assume "i \<in> set [0..<k]" "j \<in> set [0..<k]"
  then show "slot_of s i \<noteq> lh_block s ! j" using slot_apart(1) [OF pl hm _ _ k(2)] k(1) by simp
qed

lemma install_steps:
  fixes s :: "'z logst_scheme"
  assumes s: "session pid xs {} s" and room: "card (dirties s) \<le> NBUF - 2" and pl: "log_place s"
    and hm: "homes_ok (length (disk s)) (unat (log_start s)) n (lh_block s)" and k: "k \<le> n" "n \<le> LOGSIZE"
  shows "\<exists>t ys. forM [0..<k] install_step s e = Ret () t e \<and> session pid ys {} t \<and>
    contents t = put_all (\<lambda>j. lh_block s ! j) (\<lambda>j. contents s (slot_of s j)) [0..<k] (contents s) \<and>
    disk t = write_all (\<lambda>j. lh_block s ! j) (\<lambda>j. contents s (slot_of s j)) [0..<k] (disk s) \<and> biost.more t = biost.more s \<and> dirties t \<subseteq> dirties s"
proof (rule copies [OF s room])
  fix j and u :: "'z logst_scheme" and zs
  assume u: "j \<in> set [0..<k]" "session pid zs {} u" "card (dirties u) \<le> NBUF - 2" "biost.more u = biost.more s" "length (disk u) = length (disk s)"
  note m = log_more [OF u(4)]
  have j: "j < n" "j < LOGSIZE" using u(1) k by auto
  have "unat (slot_of s j) < length (disk u)" "unat (lh_block s ! j) < length (disk u)"
    using unat_slot [OF pl j(2)] pl j hm u(5) by (auto simp: log_place_def homes_ok_def)
  then have run: "\<exists>t. bind (bread 1 (slot_of s j)) (\<lambda>k. bind (bread 1 (lh_block s ! j)) (\<lambda>i. bind (getb k) (\<lambda>fb.
      seqM [setdata i (\<lambda>_. b_data fb), bwrite i, brelse k, brelse i]))) u e = Ret () t e \<and> copied pid (lh_block s ! j) (contents u (slot_of s j)) u t"
    by (intro copy_backward [OF u(2) slot_apart(1) [OF pl hm j(1,1) k(2), symmetric] _ _ u(3)])
  have step: "install_step j u e = bind (bread 1 (slot_of s j)) (\<lambda>k. bind (bread 1 (lh_block s ! j)) (\<lambda>i. bind (getb k) (\<lambda>fb.
      seqM [setdata i (\<lambda>_. b_data fb), bwrite i, brelse k, brelse i]))) u e"
    using pl by (simp only: install_step_def bind_gets m log_place_def)
  show "\<exists>t. install_step j u e = Ret () t e \<and> copied pid (lh_block s ! j) (contents u (slot_of s j)) u t"
    unfolding step by (rule run)
next
  fix i j assume "i \<in> set [0..<k]" "j \<in> set [0..<k]"
  then show "lh_block s ! i \<noteq> slot_of s j" using slot_apart(1) [OF pl hm _ _ k(2), of j i] k(1) by auto
qed

lemma write_head_ok:
  fixes s :: "'z logst_scheme"
  assumes s: "session pid xs {} s" and room: "card (dirties s) \<le> NBUF - 2" and pl: "log_place s"
  shows "\<exists>t. write_head s e = Ret () t e \<and> copied pid (log_start s) (put_head (lh_n s) (lh_block s) (contents s (log_start s))) s t"
proof -
  have d: "unat (log_start s) < length (disk s)" using pl by (simp add: log_place_def)
  obtain i t where g: "bread 1 (log_start s) s e = Ret i t e" "i < NBUF" "session pid xs {i} t" "holds_block 1 (log_start s) (bufs t) i"
      "b_data (bufs t ! i) = contents s (log_start s)" "contents t = contents s" "disk t = disk s" "biost.more t = biost.more s" "dirties t \<subseteq> dirties s"
    using session_bread [where e = e, OF s _ _ _ d] room by auto
  let ?x = "put_head (lh_n s) (lh_block s) (contents s (log_start s))"
  let ?u = "after_write i (log_start s) ?x t"
  have di: "unat (log_start s) < length (disk t)" using d g(7) by simp
  have x: "?x = put_head (lh_n s) (lh_block s) (b_data (bufs t ! i))" by (simp add: g(5))
  have "i \<in> {i}" by simp
  note w = session_write [where f = "put_head (lh_n s) (lh_block s)", OF g(3,2) this g(4) di x]
  note w2 = w(2)
  note b = session_brelse [OF w2 g(2), simplified]
  have 1: "bind (bread 1 (log_start s)) K s e = K i t e" for K :: "nat \<Rightarrow> ('z logst_scheme, unit) kop" by (rule bind_ret) (rule g(1))
  have 2: "andthen (andthen (setdata i (put_head (lh_n s) (lh_block s))) (bwrite i)) K t e = K ?u e" for K :: "('z logst_scheme, unit) kop"
    by (rule andthen_ret) (rule w(1))
  have 3: "seqM [brelse i] ?u e = Ret () (after_brelse i ?u) e" using b(1) [of e] by (simp add: monad_defs)
  have "log_dev s = 1" using pl by (simp add: log_place_def)
  then have "write_head s e = Ret () (after_brelse i ?u) e"
    by (simp only: write_head_def bind_gets 1 log_more [OF g(8)] seqM_two 2 3)
  moreover have "copied pid (log_start s) ?x s (after_brelse i ?u)"
    using b(2) b(3,4) w(3,4) g(6-9) by (auto simp: copied_def after_brelse_def after_write_def)
  ultimately show ?thesis by blast
qed

section \<open>The disk at each point of the commit\<close>

lemma put_all_at:
  assumes "inj_on a (set js)" and "i \<in> set js" and "distinct js"
  shows "put_all a x js c (a i) = x i"
  using assms
proof (induction js arbitrary: c rule: rev_induct)
  case (snoc k ks)
  have e: "put_all a x (ks @ [k]) c = (put_all a x ks c)(a k := x k)" by (simp add: put_all_def)
  show ?case
  proof (cases "k = i")
    case False
    then have "a k \<noteq> a i" using snoc.prems by (auto simp: inj_on_def)
    then show ?thesis using snoc False by (auto simp: e inj_on_def)
  next
    case True
    then show ?thesis using e by simp
  qed
qed simp

lemma log_slot_inj:
  assumes "log_place s" and "n \<le> LOGSIZE"
  shows "inj_on (slot_of s) (set [0..<n])"
proof (rule inj_onI)
  fix i j assume ij: "i \<in> set [0..<n]" "j \<in> set [0..<n]" and eq: "slot_of s i = slot_of s j"
  have lt: "i < LOGSIZE" "j < LOGSIZE" using ij assms(2) by (simp_all add: order_less_le_trans)
  have "unat (log_start s) + i + 1 = unat (slot_of s i)" using unat_slot [OF assms(1) lt(1)] by (rule sym)
  also have "\<dots> = unat (log_start s) + j + 1" unfolding eq by (rule unat_slot [OF assms(1) lt(2)])
  finally show "i = j" by simp
qed

definition logged :: "nat \<Rightarrow> 'z logst_scheme \<Rightarrow> u8 list list" where
  "logged k s = write_all (slot_of s) (\<lambda>j. contents s (lh_block s ! j)) [0..<k] (disk s)"

definition new_head :: "'z logst_scheme \<Rightarrow> u8 list" where
  "new_head s = put_head (lh_n s) (lh_block s) (contents s (log_start s))"

definition installed :: "nat \<Rightarrow> nat \<Rightarrow> 'z logst_scheme \<Rightarrow> u8 list list" where
  "installed n k s = write_all (\<lambda>j. lh_block s ! j) (\<lambda>j. contents s (lh_block s ! j)) [0..<k]
     ((logged n s)[unat (log_start s) := new_head s])"

definition cleared :: "nat \<Rightarrow> 'z logst_scheme \<Rightarrow> u8 list list" where
  "cleared n s = (installed n n s)[unat (log_start s) := put_head 0 (lh_block s) (new_head s)]"

text \<open>What a commit starts from: nobody uses a buffer, the blocks of the header are the ones that may be dirty, two buffers are clean.\<close>

definition commit_ready :: "int \<Rightarrow> nat \<Rightarrow> 'z logst_scheme \<Rightarrow> bool" where
  "commit_ready pid n s \<longleftrightarrow> (\<exists>xs. session pid xs {} s) \<and> card (dirties s) \<le> NBUF - 2 \<and> log_place s \<and> lh_n s = int n \<and> n \<le> LOGSIZE \<and>
     homes_ok (length (disk s)) (unat (log_start s)) n (lh_block s) \<and> length (contents s (log_start s)) = BSIZE \<and>
     (\<forall>i\<in>dirties s. b_blockno (bufs s ! i) \<in> set (take n (lh_block s)))"

lemma room_sub: "card (dirties s) \<le> k \<Longrightarrow> dirties t \<subseteq> dirties s \<Longrightarrow> card (dirties t) \<le> k"
  using card_mono [of "dirties s" "dirties t"] by (simp add: dirties_def)

lemma place_more:
  assumes "biost.more t = biost.more s" and "length (disk t) = length (disk s)"
  shows "log_place t = log_place s"
  unfolding log_place_def log_more [OF assms(1)] assms(2) ..

lemma headed_ok:
  assumes r: "commit_ready pid n s"
  shows "\<exists>t ys. seqM (map log_step [0..<n] @ [write_head]) s e = Ret () t e \<and> session pid ys {} t \<and>
    disk t = installed n 0 s \<and> biost.more t = biost.more s \<and> dirties t \<subseteq> dirties s \<and>
    (\<forall>j<n. contents t (slot_of s j) = contents s (lh_block s ! j)) \<and> contents t (log_start s) = new_head s"
proof -
  obtain xs where s: "session pid xs {} s" and room: "card (dirties s) \<le> NBUF - 2" and pl: "log_place s" and n: "lh_n s = int n" "n \<le> LOGSIZE"
    and hm: "homes_ok (length (disk s)) (unat (log_start s)) n (lh_block s)"
    using r unfolding commit_ready_def by blast
  obtain t ys where t: "forM [0..<n] log_step s e = Ret () t e" "session pid ys {} t"
      "contents t = put_all (slot_of s) (\<lambda>j. contents s (lh_block s ! j)) [0..<n] (contents s)"
      "disk t = logged n s" "biost.more t = biost.more s" "dirties t \<subseteq> dirties s"
    unfolding logged_def using log_steps [OF s room pl hm order_refl n(2), of e] by blast
  have len: "length (disk t) = length (disk s)" by (simp add: t(4) logged_def)
  note m = log_more [OF t(5)]
  have st: "contents t (log_start s) = contents s (log_start s)"
    unfolding t(3) using slot_apart(3) [OF pl hm _ _ n(2)] by (intro put_all_other) auto
  obtain u where u: "write_head t e = Ret () u e" "copied pid (log_start s) (new_head s) t u"
    using write_head_ok [OF t(2) room_sub [OF room t(6)], of e] pl place_more [OF t(5) len] unfolding m st new_head_def by blast
  have "contents u (slot_of s j) = contents s (lh_block s ! j)" if "j < n" for j
  proof -
    have "contents u (slot_of s j) = contents t (slot_of s j)" using u(2) slot_apart(3) [OF pl hm that that n(2)] by (simp add: copied_def)
    then show ?thesis unfolding t(3) using put_all_at [OF log_slot_inj [OF pl n(2)]] that by simp
  qed
  moreover have "seqM (map log_step [0..<n] @ [write_head]) s e = Ret () u e"
    using t(1) u(1) by (simp add: seqM_append seqM_map) (simp add: monad_defs)
  moreover have "disk u = installed n 0 s" "biost.more u = biost.more s" "dirties u \<subseteq> dirties s" "contents u (log_start s) = new_head s"
      "\<exists>zs. session pid zs {} u"
    using u(2) t(4-6) by (auto simp: copied_def installed_def write_all_def)
  ultimately show ?thesis by blast
qed

lemma commit_readyD:
  assumes "commit_ready pid n s"
  shows "card (dirties s) \<le> NBUF - 2" "log_place s" "lh_n s = int n" "n \<le> LOGSIZE"
    "homes_ok (length (disk s)) (unat (log_start s)) n (lh_block s)" "length (contents s (log_start s)) = BSIZE"
    "\<And>i. i \<in> dirties s \<Longrightarrow> b_blockno (bufs s ! i) \<in> set (take n (lh_block s))" "unat (log_start s) < length (disk s)"
  using assms by (simp_all add: commit_ready_def log_place_def)

lemma length_installed [simp]: "length (installed n k s) = length (disk s)" "length (logged k s) = length (disk s)"
  by (simp_all add: installed_def logged_def)

lemma installed_ok:
  assumes r: "commit_ready pid n s" and k: "k \<le> n"
  shows "\<exists>t ys. seqM (map log_step [0..<n] @ write_head # map install_step [0..<k]) s e = Ret () t e \<and> session pid ys {} t \<and>
    disk t = installed n k s \<and> biost.more t = biost.more s \<and> dirties t \<subseteq> dirties s \<and> contents t (log_start s) = new_head s"
proof -
  note D = commit_readyD [OF r]
  obtain t ys where t: "seqM (map log_step [0..<n] @ [write_head]) s e = Ret () t e" "session pid ys {} t" "disk t = installed n 0 s"
      "biost.more t = biost.more s" "dirties t \<subseteq> dirties s" "\<forall>j<n. contents t (slot_of s j) = contents s (lh_block s ! j)"
      "contents t (log_start s) = new_head s"
    using headed_ok [OF r] by blast
  note m = log_more [OF t(4)]
  have len: "length (disk t) = length (disk s)" by (simp add: t(3))
  have pl: "log_place t" using place_more [OF t(4) len] D(2) by simp
  have hm: "homes_ok (length (disk t)) (unat (log_start t)) n (lh_block t)" using D(5) by (simp only: len m)
  obtain u zs where u: "forM [0..<k] install_step t e = Ret () u e" "session pid zs {} u"
      "contents u = put_all (\<lambda>j. lh_block t ! j) (\<lambda>j. contents t (slot_of t j)) [0..<k] (contents t)"
      "disk u = write_all (\<lambda>j. lh_block t ! j) (\<lambda>j. contents t (slot_of t j)) [0..<k] (disk t)"
      "biost.more u = biost.more t" "dirties u \<subseteq> dirties t"
    using install_steps [OF t(2) room_sub [OF D(1) t(5)] pl hm k D(4), of e] by blast
  have "disk u = installed n k s"
    unfolding u(4) m t(3) unfolding installed_def write_all_def by (simp, rule fold_cong) (use t(6) k in auto)
  moreover have "lh_block s ! j \<noteq> log_start s" if "j < n" for j using slot_apart(2) [OF D(2,5) that that D(4)] by simp
  then have "contents u (log_start s) = new_head s" unfolding u(3) m using k t(7) by (subst put_all_other) auto
  moreover have "seqM (map log_step [0..<n] @ write_head # map install_step [0..<k]) s e = Ret () u e"
    using t(1) u(1) seqM_append [of "map log_step [0..<n] @ [write_head]" "map install_step [0..<k]" s e]
    by (simp add: andthen_ret seqM_map)
  ultimately show ?thesis using u(2,5,6) t(4,5) by (metis order_trans)
qed

lemma cleared_ok:
  assumes r: "commit_ready pid n s"
  shows "\<exists>t ys. seqM (commit_steps n) s e = Ret () t e \<and> disk t = cleared n s \<and> session pid ys {} t"
proof -
  note D = commit_readyD [OF r]
  obtain t ys where t: "seqM (map log_step [0..<n] @ write_head # map install_step [0..<n]) s e = Ret () t e" "session pid ys {} t"
      "disk t = installed n n s" "biost.more t = biost.more s" "dirties t \<subseteq> dirties s" "contents t (log_start s) = new_head s"
    using installed_ok [OF r order_refl] by blast
  note m = log_more [OF t(4)]
  let ?t = "t\<lparr>lh_n := 0\<rparr>"
  have len: "length (disk t) = length (disk s)" by (simp add: t(3))
  have pl: "log_place ?t" using place_more [OF t(4) len] D(2) by (simp add: log_place_def)
  have "session pid ys {} ?t" "card (dirties ?t) \<le> NBUF - 2" using t(2) room_sub [OF D(1) t(5)] by simp_all
  then obtain u where u: "write_head ?t e = Ret () u e" "copied pid (log_start ?t) (put_head (lh_n ?t) (lh_block ?t) (contents ?t (log_start ?t))) ?t u"
    using write_head_ok [OF _ _ pl] by blast
  have "disk u = cleared n s" using u(2) t(3,6) m by (simp add: copied_def cleared_def)
  moreover have "\<exists>zs. session pid zs {} u" using u(2) by (simp add: copied_def)
  moreover have "clear_step t e = Ret () u e" using u(1) by (simp add: clear_step_def monad_defs)
  then have "seqM (commit_steps n) s e = Ret () u e"
    using t(1) seqM_append [of "map log_step [0..<n] @ write_head # map install_step [0..<n]" "[clear_step]" s e]
    by (simp add: commit_steps_def andthen_ret skip_def return_def)
  ultimately show ?thesis by blast
qed

definition crash_disk :: "nat \<Rightarrow> nat \<Rightarrow> 'z logst_scheme \<Rightarrow> u8 list list" where
  "crash_disk n k s = (if k \<le> n then logged k s else if k \<le> 2 * n + 1 then installed n (k - n - 1) s else cleared n s)"

lemma commit_prefix:
  fixes s :: "'z logst_scheme"
  assumes r: "commit_ready pid n s"
  shows "\<exists>t. seqM (take k (commit_steps n)) s e = Ret () t e \<and> disk t = crash_disk n k s"
proof -
  note D = commit_readyD [OF r]
  consider "k \<le> n" | "n < k" "k \<le> 2 * n + 1" | "2 * n + 1 < k" by linarith
  then show ?thesis
  proof cases
    case 1
    obtain xs where "session pid xs {} s" using r by (auto simp: commit_ready_def)
    then obtain t where "forM [0..<k] log_step s e = Ret () t e" "disk t = logged k s"
      using log_steps [where e = e, OF _ D(1,2,5) 1 D(4)] unfolding logged_def by blast
    moreover have "take k (commit_steps n :: ('z logst_scheme, unit) kop list) = map log_step [0..<k]" using 1 by (simp add: commit_steps_def take_map)
    ultimately show ?thesis using 1 by (simp add: seqM_map crash_disk_def)
  next
    case 2
    then have "take k (commit_steps n :: ('z logst_scheme, unit) kop list) = map log_step [0..<n] @ write_head # map install_step [0..<k - n - 1]"
      by (simp add: commit_steps_def take_map take_Cons')
    moreover have "k - n - 1 \<le> n" using 2 by linarith
    ultimately show ?thesis using installed_ok [OF r, of "k - n - 1" e] 2 by (auto simp: crash_disk_def)
  next
    case 3
    then have "take k (commit_steps n :: ('z logst_scheme, unit) kop list) = commit_steps n" by (simp add: commit_steps_def)
    then show ?thesis using cleared_ok [OF r, of e] 3 by (auto simp: crash_disk_def)
  qed
qed

section \<open>Recovery\<close>

lemma clean_contents:
  assumes s: "session pid xs {} s" and "dirties s = {}"
  shows "contents s b = disk s ! unat b"
proof (rule contents_disk)
  fix i assume i: "i < NBUF" "holds_block 1 b (bufs s) i" "valid (bufs s ! i)"
  then have "copy_of (disk s) (bufs s ! i)" using sessionD(5) [OF s i(1)] assms(2) by (auto simp: dirties_def)
  then show "b_data (bufs s ! i) = disk s ! unat b" using i by (simp add: copy_of_def)
qed

lemma set_blocks:
  "forM [0..<n] (\<lambda>i. modify (\<lambda>s. s\<lparr>lh_block := (lh_block s)[i := f i]\<rparr>)) s e =
    Ret () (s\<lparr>lh_block := map f [0..<n] @ drop n (lh_block s)\<rparr>) e" if "n \<le> length (lh_block s)"
  using that
proof (induction n)
  case 0
  then show ?case by (simp add: skip_def return_def)
next
  case (Suc n)
  have a: "forM (xs @ [x]) g s e = andthen (forM xs g) (g x) s e" for xs x g and s :: "'b logst_scheme" and e
    by (induction xs arbitrary: s e) (auto simp: monad_defs split: result.splits)
  have "(map f [0..<n] @ drop n (lh_block s))[n := f n] = map f [0..<n] @ f n # drop (Suc n) (lh_block s)"
    using Suc.prems by (simp add: list_update_append Cons_nth_drop_Suc [symmetric])
  then show ?case using Suc by (simp add: a andthen_ret) (simp add: monad_defs)
qed

lemma read_head_ok:
  fixes r :: "'z logst_scheme"
  assumes s: "session pid xs {} r" and cl: "dirties r = {}" and pl: "log_place r" and len: "length (lh_block r) = LOGSIZE"
    and n: "sint (get32 (disk r ! unat (log_start r)) 0) = int n" "n \<le> LOGSIZE"
  shows "\<exists>t ys. read_head r e = Ret () t e \<and> session pid ys {} t \<and> dirties t = {} \<and> disk t = disk r \<and> log_start t = log_start r \<and>
    log_dev t = log_dev r \<and> lh_n t = int n \<and> length (lh_block t) = LOGSIZE \<and>
    (\<forall>j<n. lh_block t ! j = get32 (disk r ! unat (log_start r)) (4 + 4 * j))"
proof -
  let ?d = "disk r ! unat (log_start r)"
  have d: "unat (log_start r) < length (disk r)" "log_dev r = 1" using pl by (simp_all add: log_place_def)
  obtain i t where g: "bread 1 (log_start r) r e = Ret i t e" "i < NBUF" "session pid xs {i} t" "holds_block 1 (log_start r) (bufs t) i"
      "b_data (bufs t ! i) = contents r (log_start r)" "contents t = contents r" "disk t = disk r" "biost.more t = biost.more r" "dirties t \<subseteq> dirties r"
    using session_bread [where e = e, OF s _ _ _ d(1)] cl by auto
  note m = log_more [OF g(8)]
  let ?u = "t\<lparr>lh_n := int n, lh_block := map (\<lambda>j. get32 ?d (4 + 4 * j)) [0..<n] @ drop n (lh_block t)\<rparr>"
  have dd: "b_data (bufs t ! i) = ?d" using g(5) clean_contents [OF s cl] by simp
  have "session pid xs {i} ?u" using g(3) by simp
  note b = session_brelse [OF this g(2), simplified]
  have "modify (\<lambda>s. s\<lparr>lh_n := int n\<rparr>) t e = Ret () (t\<lparr>lh_n := int n\<rparr>) e" by (simp add: modify_def)
  moreover have "forM [0..<n] (\<lambda>i. modify (\<lambda>s. s\<lparr>lh_block := (lh_block s)[i := get32 ?d (4 + 4 * i)]\<rparr>)) (t\<lparr>lh_n := int n\<rparr>) e = Ret () ?u e"
    using set_blocks [of n "t\<lparr>lh_n := int n\<rparr>" "\<lambda>j. get32 ?d (4 + 4 * j)" e] n(2) m(2) len by simp
  ultimately have "seqM [modify (\<lambda>s. s\<lparr>lh_n := int n\<rparr>), forM [0..<nat (int n)] (\<lambda>i. modify (\<lambda>s. s\<lparr>lh_block := (lh_block s)[i := get32 ?d (4 + 4 * i)]\<rparr>)),
      brelse i] t e = Ret () (after_brelse i ?u) e"
    using b(1) [of e] by (simp add: andthen_ret skip_def return_def)
  then have run: "read_head r e = Ret () (after_brelse i ?u) e"
    using n by (simp add: read_head_def bind_gets d(2) bind_ret [where m = "bread 1 (log_start r)", OF g(1)] getb_def dd Let_def)
  have v: "dirties (after_brelse i ?u) = {}" "disk (after_brelse i ?u) = disk r" "log_start (after_brelse i ?u) = log_start r"
      "log_dev (after_brelse i ?u) = log_dev r" "lh_n (after_brelse i ?u) = int n"
      "lh_block (after_brelse i ?u) = map (\<lambda>j. get32 ?d (4 + 4 * j)) [0..<n] @ drop n (lh_block t)"
    using b(4) g(7,9) cl m by (simp_all add: after_brelse_def)
  obtain ys where "session pid ys {} (after_brelse i ?u)" using b(2) by blast
  moreover have "length (lh_block (after_brelse i ?u)) = LOGSIZE" unfolding v(6) using m(2) len n(2) by simp
  moreover have "\<forall>j<n. lh_block (after_brelse i ?u) ! j = get32 ?d (4 + 4 * j)" unfolding v(6) by (simp add: nth_append)
  ultimately show ?thesis using run v(1-5) by blast
qed

lemma put_head_simps:
  "length (put_head n bl d) = length d" "put_head 0 bl d = put32 0 0 d"
  "4 \<le> length d \<Longrightarrow> get32 (put_head n bl d) 0 = of_int n"
  "4 + 4 * nat n \<le> length d \<Longrightarrow> j < nat n \<Longrightarrow> get32 (put_head n bl d) (4 + 4 * j) = bl ! j"
  by (simp_all add: put_head_def bytes_simps)

text \<open>What recovery does to the disk, from the header it finds there.\<close>

lemma recover_ok:
  fixes r :: "'z logst_scheme"
  assumes s: "session pid xs {} r" and cl: "dirties r = {}" and pl: "log_place r" and len: "length (lh_block r) = LOGSIZE"
    and n: "sint (get32 (disk r ! unat (log_start r)) 0) = int n" "n \<le> LOGSIZE"
    and bl: "\<And>j. j < n \<Longrightarrow> get32 (disk r ! unat (log_start r)) (4 + 4 * j) = bl ! j"
    and hm: "homes_ok (length (disk r)) (unat (log_start r)) n bl"
  shows "\<exists>u. recover_from_log r e = Ret () u e \<and>
    disk u = (write_all (\<lambda>j. bl ! j) (\<lambda>j. disk r ! unat (slot_of r j)) [0..<n] (disk r))[unat (log_start r) := put32 0 0 (disk r ! unat (log_start r))]"
proof -
  obtain t ys where t: "read_head r e = Ret () t e" "session pid ys {} t" "dirties t = {}" "disk t = disk r" "log_start t = log_start r"
      "log_dev t = log_dev r" "lh_n t = int n" "length (lh_block t) = LOGSIZE" "\<forall>j<n. lh_block t ! j = bl ! j"
    using read_head_ok [OF s cl pl len n, of e] bl by auto
  have pt: "log_place t" using pl by (simp only: log_place_def t)
  have ht: "homes_ok (length (disk t)) (unat (log_start t)) n (lh_block t)" using hm t(9) n(2) by (simp add: homes_ok_def t(4,5,8))
  have room: "card (dirties t) \<le> NBUF - 2" by (simp add: t(3))
  obtain u zs where u: "forM [0..<n] install_step t e = Ret () u e" "session pid zs {} u"
      "contents u = put_all (\<lambda>j. lh_block t ! j) (\<lambda>j. contents t (slot_of t j)) [0..<n] (contents t)"
      "disk u = write_all (\<lambda>j. lh_block t ! j) (\<lambda>j. contents t (slot_of t j)) [0..<n] (disk t)"
      "biost.more u = biost.more t" "dirties u \<subseteq> dirties t"
    using install_steps [OF t(2) room pt ht order_refl n(2), of e] by blast
  note m = log_more [OF u(5)]
  let ?u = "u\<lparr>lh_n := 0\<rparr>"
  have lu: "length (disk u) = length (disk t)" by (simp add: u(4))
  have pu: "log_place ?u" using place_more [OF u(5) lu] pt by (simp add: log_place_def)
  have "session pid zs {} ?u" "card (dirties ?u) \<le> NBUF - 2" using u(2) room_sub [OF room u(6)] by simp_all
  then obtain v where v: "write_head ?u e = Ret () v e" "copied pid (log_start ?u) (put_head (lh_n ?u) (lh_block ?u) (contents ?u (log_start ?u))) ?u v"
    using write_head_ok [OF _ _ pu] by blast
  have "lh_block t ! j \<noteq> log_start t" if "j < n" for j using slot_apart(2) [OF pt ht that that n(2)] by simp
  then have "contents u (log_start t) = disk r ! unat (log_start r)"
    unfolding u(3) using clean_contents [OF t(2,3)] by (subst put_all_other) (auto simp: t(4,5))
  moreover have "disk u = write_all (\<lambda>j. bl ! j) (\<lambda>j. disk r ! unat (slot_of r j)) [0..<n] (disk r)"
    unfolding u(4) t(4) write_all_def using t(9) by (intro fold_cong) (auto simp: clean_contents [OF t(2,3)] t(4,5))
  ultimately have "disk v = (write_all (\<lambda>j. bl ! j) (\<lambda>j. disk r ! unat (slot_of r j)) [0..<n] (disk r))[unat (log_start r) :=
      put32 0 0 (disk r ! unat (log_start r))]"
    using v(2) m t(5) by (simp add: copied_def put_head_simps)
  moreover have "install_trans t e = Ret () u e" using u(1) t(7) by (simp add: loops_steps bind_gets)
  then have "recover_from_log r e = Ret () v e"
    using t(1) v(1) by (simp add: recover_from_log_def andthen_ret) (simp add: monad_defs)
  ultimately show ?thesis by blast
qed

section \<open>All or nothing\<close>

text \<open>The blocks of the disk that are not of a log of \<open>n\<close> blocks.\<close>

definition outside_log :: "nat \<Rightarrow> 'z logst_scheme \<Rightarrow> u32 \<Rightarrow> bool" where
  "outside_log n s b \<longleftrightarrow> unat b < length (disk s) \<and> (unat b < unat (log_start s) \<or> unat (log_start s) + n < unat b)"

lemma not_home:
  assumes r: "commit_ready pid n s" and b: "b \<notin> set (take n (lh_block s))"
  shows "contents s b = disk s ! unat b"
proof (rule contents_disk)
  obtain xs where s: "session pid xs {} s" using r by (auto simp: commit_ready_def)
  fix i assume i: "i < NBUF" "holds_block 1 b (bufs s) i" "valid (bufs s ! i)"
  then have "i \<notin> dirties s" using commit_readyD(7) [OF r] b by auto
  then have "copy_of (disk s) (bufs s ! i)" using sessionD(5) [OF s i(1)] i(1) by (auto simp: dirties_def)
  then show "b_data (bufs s ! i) = disk s ! unat b" using i by (simp add: copy_of_def)
qed

lemma outside_slots:
  assumes r: "commit_ready pid n s" and b: "outside_log n s b" and j: "j < n"
  shows "unat (slot_of s j) \<noteq> unat b" "unat (log_start s) \<noteq> unat b"
  using unat_slot [OF commit_readyD(2) [OF r], of j] commit_readyD(4) [OF r] b j by (auto simp: outside_log_def)

lemma logged_outside:
  assumes r: "commit_ready pid n s" and b: "outside_log n s b" and k: "k \<le> n"
  shows "logged k s ! unat b = disk s ! unat b"
  unfolding logged_def using outside_slots(1) [OF r b] k by (intro write_all_other) auto

lemma homes_written:
  assumes r: "commit_ready pid n s" and "length d = length (disk s)" and "unat b < length d" and "b \<in> set (take n (lh_block s))"
    and x: "\<And>j. j < n \<Longrightarrow> x j = contents s (lh_block s ! j)"
  shows "write_all (\<lambda>j. lh_block s ! j) x [0..<n] d ! unat b = contents s b"
proof -
  have "n \<le> length (lh_block s)" using commit_readyD(5) [OF r] by (simp add: homes_ok_def)
  then obtain i where "i < n" "b = lh_block s ! i" using assms(4) by (auto simp: in_set_conv_nth)
  then show ?thesis using write_all_at [of "[0..<n]" x "contents s" "\<lambda>j. lh_block s ! j" i d] x assms(2,3) by auto
qed

lemma slots_logged:
  assumes r: "commit_ready pid n s" and j: "j < n"
  shows "logged n s ! unat (slot_of s j) = contents s (lh_block s ! j)"
proof -
  note D = commit_readyD [OF r]
  let ?y = "\<lambda>w. contents s (lh_block s ! (unat w - unat (log_start s) - 1))"
  have u: "unat (slot_of s i) = unat (log_start s) + i + 1" if "i < n" for i using unat_slot [OF D(2), of i] that D(4) by simp
  have "contents s (lh_block s ! i) = ?y (slot_of s i)" if "i \<in> set [0..<n]" for i using u [of i] that by simp
  moreover have "unat (slot_of s j) < length (disk s)" using u [OF j] j D(2,4) by (simp add: log_place_def)
  ultimately have "logged n s ! unat (slot_of s j) = ?y (slot_of s j)" unfolding logged_def using j by (intro write_all_at) simp_all
  then show ?thesis using u [OF j] by simp
qed

text \<open>The disk between the writing of the header and the end: the header, the copies in the log, and the other blocks.\<close>

lemma installed_blocks:
  assumes r: "commit_ready pid n s" and k: "k \<le> n"
  shows "installed n k s ! unat (log_start s) = new_head s"
    and "j < n \<Longrightarrow> installed n k s ! unat (slot_of s j) = contents s (lh_block s ! j)"
    and "outside_log n s b \<Longrightarrow> b \<notin> set (take n (lh_block s)) \<Longrightarrow> installed n k s ! unat b = contents s b"
proof -
  note D = commit_readyD [OF r]
  have ap: "unat (slot_of s j) \<noteq> unat (lh_block s ! i)" "unat (log_start s) \<noteq> unat (lh_block s ! i)" "unat (slot_of s j) \<noteq> unat (log_start s)"
    if "i < n" "j < n" for i j using slot_apart [OF D(2,5) that(2,1) D(4)] by (simp_all only: word_unat_eq_iff not_False_eq_True)
  have st: "unat (lh_block s ! i) \<noteq> unat (log_start s)" if "i < n" for i using ap(2) [OF that that] by simp
  have "installed n k s ! unat (log_start s) = ((logged n s)[unat (log_start s) := new_head s]) ! unat (log_start s)"
    unfolding installed_def by (rule write_all_other) (use st k in simp)
  then show "installed n k s ! unat (log_start s) = new_head s" using D(8) by simp
  show "installed n k s ! unat (slot_of s j) = contents s (lh_block s ! j)" if "j < n"
  proof -
    have "installed n k s ! unat (slot_of s j) = ((logged n s)[unat (log_start s) := new_head s]) ! unat (slot_of s j)"
      unfolding installed_def by (rule write_all_other) (use not_sym [OF ap(1) [OF _ that]] k in simp)
    also have "\<dots> = logged n s ! unat (slot_of s j)" using ap(3) [OF that that] by (subst nth_list_update_neq) auto
    finally show ?thesis using slots_logged [OF r that] by simp
  qed
  show "installed n k s ! unat b = contents s b" if b: "outside_log n s b" "b \<notin> set (take n (lh_block s))"
  proof -
    have "n \<le> length (lh_block s)" using D(5) by (simp add: homes_ok_def)
    then have nb: "lh_block s ! j \<noteq> b" if "j < k" for j using b(2) that k by (auto simp: in_set_conv_nth)
    have "installed n k s ! unat b = ((logged n s)[unat (log_start s) := new_head s]) ! unat b"
      unfolding installed_def by (rule write_all_other) (use nb in \<open>auto simp: word_unat_eq_iff\<close>)
    also have "\<dots> = logged n s ! unat b" using b(1) by (subst nth_list_update_neq) (auto simp: outside_log_def)
    also have "\<dots> = disk s ! unat b" by (rule logged_outside [OF r b(1) order_refl])
    finally show ?thesis using not_home [OF r b(2)] by simp
  qed
qed

lemma installed_all:
  assumes r: "commit_ready pid n s" and b: "outside_log n s b"
  shows "installed n n s ! unat b = contents s b"
proof (cases "b \<in> set (take n (lh_block s))")
  case True
  then show ?thesis unfolding installed_def using b by (intro homes_written [OF r]) (simp_all add: outside_log_def)
next
  case False
  then show ?thesis by (rule installed_blocks(3) [OF r order_refl b])
qed

lemma commit_eq:
  fixes s :: "'z logst_scheme"
  assumes r: "commit_ready pid n s" and n: "0 < n"
  shows "commit s e = seqM (commit_steps n) s e"
proof -
  note D = commit_readyD [OF r]
  obtain xs where s: "session pid xs {} s" using r by (auto simp: commit_ready_def)
  obtain t ys where t: "forM [0..<n] log_step s e = Ret () t e" "session pid ys {} t" "disk t = logged n s" "biost.more t = biost.more s" "dirties t \<subseteq> dirties s"
    using log_steps [OF s D(1,2,5) order_refl D(4), of e] unfolding logged_def by blast
  have len: "length (disk t) = length (disk s)" by (simp add: t(3))
  have pl: "log_place t" using place_more [OF t(4) len] D(2) by simp
  obtain u where u: "write_head t e = Ret () u e" "biost.more u = biost.more t"
    using write_head_ok [OF t(2) room_sub [OF D(1) t(5)] pl, of e] by (auto simp: copied_def)
  have lu: "lh_n u = int n" using log_more [OF u(2)] log_more [OF t(4)] D(3) by simp
  have "write_log s e = Ret () t e" using t(1) D(3) by (simp add: loops_steps bind_gets)
  moreover have "install_trans u e = forM [0..<n] install_step u e" using lu by (simp add: loops_steps bind_gets)
  then have "andthen install_trans K u e = andthen (forM [0..<n] install_step) K u e" for K by (simp add: andthen_def bind_def)
  ultimately have "commit s e = andthen (forM [0..<n] install_step) (seqM [modify (\<lambda>s. s\<lparr>lh_n := 0\<rparr>), write_head]) u e"
    using u(1) n D(3) by (simp add: commit_def bind_gets whenM_def andthen_ret)
  moreover have "seqM (commit_steps n) s e = andthen (forM [0..<n] install_step) (seqM [clear_step]) u e"
    unfolding commit_steps_def using t(1) u(1) by (simp add: seqM_append seqM_map andthen_ret)
  moreover have "seqM [modify (\<lambda>s. s\<lparr>lh_n := 0\<rparr>), write_head] = seqM [clear_step :: ('z logst_scheme, unit) kop]"
    unfolding seqM_two clear_step_def by simp
  ultimately show ?thesis by simp
qed

text \<open>A machine after a restart: nobody holds a buffer, no buffer is dirty, and the log is where it was.\<close>

definition restarted :: "u32 \<Rightarrow> u8 list list \<Rightarrow> 'z logst_scheme \<Rightarrow> bool" where
  "restarted start d u \<longleftrightarrow> (\<exists>pid xs. session pid xs {} u) \<and> dirties u = {} \<and> disk u = d \<and> log_dev u = 1 \<and> log_start u = start \<and>
     length (lh_block u) = LOGSIZE"

lemma restart_place: "log_place s \<Longrightarrow> restarted (log_start s) d u \<Longrightarrow> length d = length (disk s) \<Longrightarrow> log_place u"
  by (simp add: log_place_def restarted_def)

lemma head_length:
  assumes "commit_ready pid n s"
  shows "length (disk s ! unat (log_start s)) = BSIZE" "length (new_head s) = BSIZE"
proof -
  note D = commit_readyD [OF assms]
  have "n \<le> length (lh_block s)" using D(5) by (simp add: homes_ok_def)
  moreover have "lh_block s ! j \<noteq> log_start s" if "j < n" for j using slot_apart(2) [OF D(2,5) that that D(4)] by simp
  ultimately have "log_start s \<notin> set (take n (lh_block s))" by (auto simp: in_set_conv_nth)
  then show "length (disk s ! unat (log_start s)) = BSIZE" using not_home [OF assms] D(6) by metis
  show "length (new_head s) = BSIZE" using D(6) by (simp add: new_head_def put_head_simps)
qed

lemma recover_nothing:
  assumes r: "commit_ready pid n s" and u: "restarted (log_start s) d u" and d: "length d = length (disk s)"
    and h: "get32 (d ! unat (log_start s)) 0 = 0" "length (d ! unat (log_start s)) = BSIZE"
  shows "\<exists>v. recover_from_log u e = Ret () v e \<and> get32 (disk v ! unat (log_start s)) 0 = 0 \<and> (\<forall>b. outside_log n s b \<longrightarrow> disk v ! unat b = d ! unat b)"
proof -
  note D = commit_readyD [OF r]
  obtain pid' xs where s: "session pid' xs {} u" and c: "dirties u = {}" "disk u = d" "log_start u = log_start s" "length (lh_block u) = LOGSIZE"
    using u by (auto simp: restarted_def)
  have "sint (get32 (disk u ! unat (log_start u)) 0) = int 0" using h c by simp
  then obtain v where "recover_from_log u e = Ret () v e" "disk v = d[unat (log_start s) := put32 0 0 (d ! unat (log_start s))]"
    using recover_ok [OF s c(1) restart_place [OF D(2) u d] c(4), of 0 "[]" e] c by (auto simp: write_all_def homes_ok_def)
  moreover have "unat (log_start s) < length d" using D(8) d by simp
  ultimately show ?thesis using h(2) by (auto simp: outside_log_def bytes_simps)
qed

lemma recover_all:
  assumes r: "commit_ready pid n s" and u: "restarted (log_start s) (installed n k s) u" and k: "k \<le> n"
  shows "\<exists>v. recover_from_log u e = Ret () v e \<and> get32 (disk v ! unat (log_start s)) 0 = 0 \<and> (\<forall>b. outside_log n s b \<longrightarrow> disk v ! unat b = contents s b)"
proof -
  note D = commit_readyD [OF r] and I = installed_blocks [OF r k]
  let ?d = "installed n k s"
  obtain pid' xs where s: "session pid' xs {} u" and c: "dirties u = {}" "disk u = ?d" "log_start u = log_start s" "length (lh_block u) = LOGSIZE"
    using u by (auto simp: restarted_def)
  have h: "disk u ! unat (log_start u) = new_head s" using I(1) c by simp
  have l: "4 + 4 * nat (int n) \<le> length (contents s (log_start s))" using D(4,6) by simp
  have "get32 (new_head s) 0 = of_int (int n)" unfolding new_head_def D(3) by (rule put_head_simps(3)) (use D(6) in simp)
  moreover have "sint (of_int (int n) :: u32) = int n" using D(4) by (simp add: signed_of_nat signed_take_bit_int_eq_self)
  ultimately have n: "sint (get32 (disk u ! unat (log_start u)) 0) = int n" by (simp only: h)
  have bl: "get32 (disk u ! unat (log_start u)) (4 + 4 * j) = lh_block s ! j" if "j < n" for j
    unfolding h new_head_def D(3) by (rule put_head_simps(4) [OF l]) (use that in simp)
  have hm: "homes_ok (length (disk u)) (unat (log_start u)) n (lh_block s)" using D(5) c by simp
  obtain v where v: "recover_from_log u e = Ret () v e" "disk v = (write_all (\<lambda>j. lh_block s ! j) (\<lambda>j. ?d ! unat (slot_of s j)) [0..<n] ?d)
      [unat (log_start s) := put32 0 0 (new_head s)]"
    using recover_ok [OF s c(1) restart_place [OF D(2) u] c(4) n D(4) bl hm, of e] h by (auto simp: c(2,3))
  have "disk v ! unat b = contents s b" if b: "outside_log n s b" for b
  proof -
    have "disk v ! unat b = write_all (\<lambda>j. lh_block s ! j) (\<lambda>j. ?d ! unat (slot_of s j)) [0..<n] ?d ! unat b"
      unfolding v(2) using b by (subst nth_list_update_neq) (auto simp: outside_log_def)
    also have "\<dots> = contents s b"
    proof (cases "b \<in> set (take n (lh_block s))")
      case True
      then show ?thesis using b I(2) by (intro homes_written [OF r]) (simp_all add: outside_log_def)
    next
      case False
      moreover have "n \<le> length (lh_block s)" using D(5) by (simp add: homes_ok_def)
      ultimately have "lh_block s ! j \<noteq> b" if "j < n" for j using that by (auto simp: in_set_conv_nth)
      then show ?thesis using I(3) [OF b False] by (subst write_all_other) (auto simp: word_unat_eq_iff)
    qed
    finally show ?thesis .
  qed
  moreover have "get32 (disk v ! unat (log_start s)) 0 = 0" unfolding v(2) using D(8) head_length(2) [OF r] by (simp add: bytes_simps)
  ultimately show ?thesis using v(1) by blast
qed

text \<open>
  C1. The commit is atomic across a crash. A commit of \<open>n\<close> blocks is a sequence of steps of which each writes one block of the disk.
  After any number \<open>k\<close> of the steps, a restart and the recovery from the log give a clean log and a disk that, outside of the log, is
  the old one when the header had not been written and is what the cache said at the start of the commit, for every block, otherwise.
\<close>

theorem commit_crash_safe:
  fixes s :: "'z logst_scheme"
  assumes r: "commit_ready pid n s" and h: "get32 (disk s ! unat (log_start s)) 0 = 0"
  shows "(0 < n \<longrightarrow> commit s e = seqM (commit_steps n) s e) \<and>
    (\<exists>t. seqM (take k (commit_steps n)) s e = Ret () t e \<and>
      (\<forall>u :: 'z logst_scheme. restarted (log_start s) (disk t) u \<longrightarrow>
        (\<exists>v. recover_from_log u e' = Ret () v e' \<and> get32 (disk v ! unat (log_start s)) 0 = 0 \<and>
          (\<forall>b. outside_log n s b \<longrightarrow> disk v ! unat b = (if k \<le> n then disk s ! unat b else contents s b)))))"
proof (intro conjI impI)
  note D = commit_readyD [OF r]
  show "commit s e = seqM (commit_steps n) s e" if "0 < n" by (rule commit_eq [OF r that])
  obtain t where t: "seqM (take k (commit_steps n)) s e = Ret () t e" "disk t = crash_disk n k s"
    using commit_prefix [OF r] by blast
  have "\<exists>v. recover_from_log u e' = Ret () v e' \<and> get32 (disk v ! unat (log_start s)) 0 = 0 \<and>
      (\<forall>b. outside_log n s b \<longrightarrow> disk v ! unat b = (if k \<le> n then disk s ! unat b else contents s b))"
    if u: "restarted (log_start s) (crash_disk n k s) u" for u :: "'z logst_scheme"
  proof -
    consider "k \<le> n" | "n < k" "k \<le> 2 * n + 1" | "2 * n + 1 < k" by linarith
    then show ?thesis
    proof cases
      case 1
      have "unat (slot_of s j) \<noteq> unat (log_start s)" if "j < n" for j
        using slot_apart(3) [OF D(2,5) that that D(4)] by (simp only: word_unat_eq_iff not_False_eq_True)
      then have "logged k s ! unat (log_start s) = disk s ! unat (log_start s)"
        unfolding logged_def using 1 by (intro write_all_other) simp
      then show ?thesis
        using recover_nothing [OF r, of "logged k s" u e'] u 1 h head_length(1) [OF r] logged_outside [OF r _ 1] by (auto simp: crash_disk_def)
    next
      case 2
      then have "crash_disk n k s = installed n (k - n - 1) s" "k - n - 1 \<le> n" by (simp_all add: crash_disk_def)
      then show ?thesis using recover_all [OF r, of "k - n - 1" u e'] u 2 by simp
    next
      case 3
      then have c: "crash_disk n k s = cleared n s" by (simp add: crash_disk_def)
      have "cleared n s ! unat (log_start s) = put32 0 0 (new_head s)" using D(8) by (simp add: cleared_def put_head_simps)
      moreover have "cleared n s ! unat b = contents s b" if b: "outside_log n s b" for b
        using installed_all [OF r b] b unfolding cleared_def by (subst nth_list_update_neq) (auto simp: outside_log_def)
      ultimately show ?thesis
        using recover_nothing [OF r, of "cleared n s" u e'] u c 3 head_length(2) [OF r] by (simp add: bytes_simps) (simp add: cleared_def)
    qed
  qed
  then show "\<exists>t. seqM (take k (commit_steps n)) s e = Ret () t e \<and>
      (\<forall>u :: 'z logst_scheme. restarted (log_start s) (disk t) u \<longrightarrow>
        (\<exists>v. recover_from_log u e' = Ret () v e' \<and> get32 (disk v ! unat (log_start s)) 0 = 0 \<and>
          (\<forall>b. outside_log n s b \<longrightarrow> disk v ! unat b = (if k \<le> n then disk s ! unat b else contents s b))))"
    using t by (metis (no_types, lifting))
qed

section \<open>An example state\<close>

text \<open>Block 45 has been changed in buffer 0 and is the one block of the transaction.\<close>

definition crash_demo :: logst where
  "crash_demo = log_demo\<lparr>bufs := upd 0 (\<lambda>b. b\<lparr>b_dev := 1, b_blockno := 45, b_flags := B_VALID OR B_DIRTY, b_data := replicate BSIZE 9\<rparr>) demo_bufs,
     lh_n := 1, lh_block := (replicate LOGSIZE 0)[0 := 45]\<rparr>"

lemma crash_demo_simps:
  "disk crash_demo = replicate 60 (replicate BSIZE 0)" "sleeplocks crash_demo lk = \<lparr>sl_locked = False, sl_pid = 0\<rparr>"
  "lh_n crash_demo = 1" "lh_block crash_demo = (replicate LOGSIZE 0)[0 := 45]" "log_start crash_demo = 2" "log_dev crash_demo = 1"
  "bufs crash_demo = upd 0 (\<lambda>b. b\<lparr>b_dev := 1, b_blockno := 45, b_flags := B_VALID OR B_DIRTY, b_data := replicate BSIZE 9\<rparr>) demo_bufs"
  by (simp_all add: crash_demo_def demo_defs)

lemma crash_demo_buf:
  "bufs crash_demo ! 0 = (demo_bufs ! 0)\<lparr>b_dev := 1, b_blockno := 45, b_flags := B_VALID OR B_DIRTY, b_data := replicate BSIZE 9\<rparr>"
  "i \<noteq> 0 \<Longrightarrow> bufs crash_demo ! i = demo_bufs ! i"
  using demo_ring by (simp_all add: crash_demo_simps ring_def)

lemma crash_demo_ready: "bio_ready 2 crash_demo"
  by (simp add: bio_ready_def runs_def crash_demo_def demo_defs)

lemma crash_demo_fields:
  assumes "i < NBUF"
  shows "b_refcnt (bufs crash_demo ! i) = 0" "dirty (bufs crash_demo ! i) \<longleftrightarrow> i = 0" "valid (bufs crash_demo ! i) \<longleftrightarrow> i = 0"
    "b_dev (bufs crash_demo ! i) = (if i = 0 then 1 else 0)" "b_blockno (bufs crash_demo ! i) = (if i = 0 then 45 else 0)"
  using demo_fields [OF assms] by (cases "i = 0"; simp add: crash_demo_buf B_VALID_def B_DIRTY_def)+

lemma crash_demo_session: "session 2 (rev [0..<NBUF]) {} crash_demo"
proof -
  have "ring (bufs crash_demo) (rev [0..<NBUF])" unfolding crash_demo_simps by (rule ring_fields [OF demo_ring]) simp_all
  moreover have "one_each (bufs crash_demo)" unfolding one_each_def using crash_demo_fields by (auto split: if_splits)
  ultimately show ?thesis
    using crash_demo_ready crash_demo_fields by (auto simp: session_def cache_ok_def crash_demo_simps(2) copy_of_def)
qed

lemma crash_demo_commit: "commit_ready 2 1 crash_demo"
proof -
  have "i \<in> dirties crash_demo \<longleftrightarrow> i = 0" for i using crash_demo_fields(2) [of i] by (auto simp: dirties_def)
  then have "dirties crash_demo = {0}" by blast
  moreover have "contents crash_demo 2 = replicate BSIZE 0"
  proof -
    have "contents crash_demo 2 = disk crash_demo ! unat (2 :: u32)"
      by (rule contents_disk) (use crash_demo_fields in \<open>auto split: if_splits\<close>)
    then show ?thesis by (simp add: crash_demo_simps)
  qed
  moreover have "log_place crash_demo" by (simp add: log_place_def crash_demo_simps)
  moreover have "homes_ok (length (disk crash_demo)) (unat (log_start crash_demo)) 1 (lh_block crash_demo)"
    by (simp add: homes_ok_def crash_demo_simps)
  moreover have "b_blockno (bufs crash_demo ! 0) \<in> set (take 1 (lh_block crash_demo))"
    using crash_demo_fields(5) [of 0] by (simp add: crash_demo_simps(4) replicate_lit)
  ultimately show ?thesis
    using crash_demo_session by (simp add: commit_ready_def crash_demo_simps(3,5)) blast
qed

theorem commit_crash_safe_witness:
  "\<exists>t. seqM (take 2 (commit_steps 1)) crash_demo [] = Ret () t [] \<and>
    (\<forall>u :: logst. restarted (log_start crash_demo) (disk t) u \<longrightarrow>
      (\<exists>v. recover_from_log u [] = Ret () v [] \<and> get32 (disk v ! unat (log_start crash_demo)) 0 = 0 \<and>
        (\<forall>b. outside_log 1 crash_demo b \<longrightarrow> disk v ! unat b = contents crash_demo b)))"
proof -
  have "get32 (disk crash_demo ! unat (log_start crash_demo)) 0 = 0" by (simp add: crash_demo_simps get32_def)
  from commit_crash_safe [OF crash_demo_commit this, of "[]" 2 "[]"] show ?thesis by simp
qed

end
