(* ===== verification/Grep.thy ===== *)
theory Grep
  imports Prelude
begin

text \<open>
  The user program \<open>grep\<close>, \<open>grep.c\<close>. A C string is the list of its bytes before the terminating zero. The matcher is related to the
  usual meaning of the expressions, a set of words; the loop over the input is related to the list of the lines of the file.

  The input is any object with a read operation: \<open>rd k f\<close> gives at most \<open>k\<close> bytes and the rest of the input. The loop of
  \<open>grep\<close> ends when the input does; it has fuel, and the theorem on it says how much is enough.
\<close>

abbreviation CARET :: u8 where "CARET \<equiv> 0x5E"
abbreviation DOLLAR :: u8 where "DOLLAR \<equiv> 0x24"
abbreviation DOT :: u8 where "DOT \<equiv> 0x2E"
abbreviation STAR :: u8 where "STAR \<equiv> 0x2A"
abbreviation NEWLINE :: u8 where "NEWLINE \<equiv> 0x0A"

section \<open>The matcher\<close>

function (sequential) matchhere :: "u8 list \<Rightarrow> u8 list \<Rightarrow> bool"
  and matchstar :: "u8 \<Rightarrow> u8 list \<Rightarrow> u8 list \<Rightarrow> bool" where
  "matchhere [] str = True"
| "matchhere (r # re) str =
     (if re \<noteq> [] \<and> hd re = STAR then matchstar r (tl re) str
      else if r = DOLLAR \<and> re = [] then str = []
      else if str \<noteq> [] \<and> (r = DOT \<or> r = hd str) then matchhere re (tl str)
      else False)"
| "matchstar c re str =
     (if matchhere re str then True
      else if str \<noteq> [] \<and> (hd str = c \<or> c = DOT) then matchstar c re (tl str)
      else False)"
  by pat_completeness auto
termination
  by (relation "measures [\<lambda>x. case x of Inl (re, _) \<Rightarrow> length re | Inr (_, re, _) \<Rightarrow> length re,
      \<lambda>x. case x of Inl (_, str) \<Rightarrow> length str | Inr (_, _, str) \<Rightarrow> length str,
      \<lambda>x. case x of Inl _ \<Rightarrow> 0 | Inr _ \<Rightarrow> 1]") auto

declare matchstar.simps [simp del]

fun match_from :: "u8 list \<Rightarrow> u8 list \<Rightarrow> bool" where
  "match_from re [] = matchhere re []"
| "match_from re (c # str) = (if matchhere re (c # str) then True else match_from re str)"

definition matches :: "u8 list \<Rightarrow> u8 list \<Rightarrow> bool" where
  "matches re str = (if re \<noteq> [] \<and> hd re = CARET then matchhere (tl re) str else match_from re str)"

section \<open>The meaning of the expressions\<close>

datatype atom = Any | Chr u8
datatype piece = One atom | Many atom

fun fits :: "atom \<Rightarrow> u8 \<Rightarrow> bool" where
  "fits Any x = True"
| "fits (Chr c) x = (c = x)"

definition atom_of :: "u8 \<Rightarrow> atom" where
  "atom_of c = (if c = DOT then Any else Chr c)"

text \<open>The pieces of an expression, and whether it ends with the mark for the end of the text.\<close>

fun pieces :: "u8 list \<Rightarrow> piece list \<times> bool" where
  "pieces [] = ([], False)"
| "pieces [r] = (if r = DOLLAR then ([], True) else ([One (atom_of r)], False))"
| "pieces (r # q # re) =
     (if q = STAR then (let (ps, e) = pieces re in (Many (atom_of r) # ps, e))
      else (let (ps, e) = pieces (q # re) in (One (atom_of r) # ps, e)))"

fun words_of :: "piece list \<Rightarrow> u8 list set" where
  "words_of [] = {[]}"
| "words_of (One a # ps) = {x # w |x w. fits a x \<and> w \<in> words_of ps}"
| "words_of (Many a # ps) = {u @ w |u w. list_all (fits a) u \<and> w \<in> words_of ps}"

definition found_at_start :: "u8 list \<Rightarrow> u8 list \<Rightarrow> bool" where
  "found_at_start re str \<longleftrightarrow> (\<exists>w rest. str = w @ rest \<and> w \<in> words_of (fst (pieces re)) \<and> (snd (pieces re) \<longrightarrow> rest = []))"

definition found :: "u8 list \<Rightarrow> u8 list \<Rightarrow> bool" where
  "found re str \<longleftrightarrow>
     (if re \<noteq> [] \<and> hd re = CARET then found_at_start (tl re) str
      else \<exists>pre str'. str = pre @ str' \<and> found_at_start re str')"

lemma fits_atom [simp]: "fits (atom_of c) x \<longleftrightarrow> c = DOT \<or> c = x"
  by (simp add: atom_of_def)

lemma found_Nil: "found_at_start [] str"
  by (simp add: found_at_start_def)

lemma found_end: "found_at_start [DOLLAR] str \<longleftrightarrow> str = []"
  by (simp add: found_at_start_def)

lemma found_one:
  assumes "re \<noteq> [] \<Longrightarrow> hd re \<noteq> STAR" and "\<not> (r = DOLLAR \<and> re = [])"
  shows "found_at_start (r # re) str \<longleftrightarrow> str \<noteq> [] \<and> (r = DOT \<or> r = hd str) \<and> found_at_start re (tl str)"
proof -
  have p: "pieces (r # re) = (One (atom_of r) # fst (pieces re), snd (pieces re))"
    using assms by (cases re) (auto split: prod.split)
  show ?thesis
  proof (cases str)
    case (Cons x t)
    then show ?thesis unfolding found_at_start_def p by (auto simp: Cons_eq_append_conv)
  qed (auto simp: found_at_start_def p)
qed

lemma found_many:
  "found_at_start (r # STAR # re) str \<longleftrightarrow>
    found_at_start re str \<or> (str \<noteq> [] \<and> (hd str = r \<or> r = DOT) \<and> found_at_start (r # STAR # re) (tl str))"
proof -
  have w: "words_of (fst (pieces (r # STAR # re))) = {u @ w |u w. list_all (fits (atom_of r)) u \<and> w \<in> words_of (fst (pieces re))}"
      "snd (pieces (r # STAR # re)) = snd (pieces re)"
    by (auto simp: case_prod_unfold Let_def)
  have m: "found_at_start (r # STAR # re) t \<longleftrightarrow> (\<exists>u t'. t = u @ t' \<and> list_all (fits (atom_of r)) u \<and> found_at_start re t')" (is "_ = ?R") for t
  proof
    assume "found_at_start (r # STAR # re) t"
    then obtain u v rest where "t = (u @ v) @ rest" "list_all (fits (atom_of r)) u" "v \<in> words_of (fst (pieces re))" "snd (pieces re) \<longrightarrow> rest = []"
      unfolding found_at_start_def w by blast
    then show ?R unfolding found_at_start_def by (intro exI [of _ u] exI [of _ "v @ rest"]) auto
  next
    assume ?R
    then obtain u v rest where "t = u @ v @ rest" "list_all (fits (atom_of r)) u" "v \<in> words_of (fst (pieces re))" "snd (pieces re) \<longrightarrow> rest = []"
      unfolding found_at_start_def by blast
    then show "found_at_start (r # STAR # re) t" unfolding found_at_start_def w by (intro exI [of _ "u @ v"] exI [of _ rest]) auto
  qed
  show ?thesis
  proof
    assume "found_at_start (r # STAR # re) str"
    then obtain u t' where u: "str = u @ t'" "list_all (fits (atom_of r)) u" "found_at_start re t'" by (auto simp: m)
    then show "found_at_start re str \<or> (str \<noteq> [] \<and> (hd str = r \<or> r = DOT) \<and> found_at_start (r # STAR # re) (tl str))"
      by (cases u) (auto simp: m)
  next
    assume "found_at_start re str \<or> (str \<noteq> [] \<and> (hd str = r \<or> r = DOT) \<and> found_at_start (r # STAR # re) (tl str))"
    then show "found_at_start (r # STAR # re) str"
    proof
      assume "found_at_start re str"
      then show ?thesis unfolding m by (intro exI [of _ "[]"] exI [of _ str]) simp
    next
      assume h: "str \<noteq> [] \<and> (hd str = r \<or> r = DOT) \<and> found_at_start (r # STAR # re) (tl str)"
      then obtain u t' where u: "tl str = u @ t'" "list_all (fits (atom_of r)) u" "found_at_start re t'" by (auto simp: m)
      then have "str = (hd str # u) @ t'" using h by (metis append_Cons list.collapse)
      moreover have "list_all (fits (atom_of r)) (hd str # u)" using u(2) h by auto
      ultimately show ?thesis unfolding m using u(3) by blast
    qed
  qed
qed

lemma matchhere_found:
  "matchhere re str \<longleftrightarrow> found_at_start re str"
  "matchstar c re str \<longleftrightarrow> found_at_start (c # STAR # re) str"
proof (induction re str and c re str rule: matchhere_matchstar.induct)
  case (1 str)
  then show ?case by (simp add: found_Nil)
next
  case (2 r re str)
  show ?case
  proof (cases "re \<noteq> [] \<and> hd re = STAR")
    case True
    then show ?thesis using 2(1) by (cases re) auto
  next
    case F: False
    show ?thesis
    proof (cases "r = DOLLAR \<and> re = []")
      case True
      then show ?thesis by (simp add: found_end)
    next
      case False
      then show ?thesis using F 2(2) found_one [of re r str] by auto
    qed
  qed
next
  case (3 c re str)
  then show ?case by (subst matchstar.simps) (auto simp: found_many [of c re str])
qed

lemma match_from_found: "match_from re str \<longleftrightarrow> (\<exists>pre str'. str = pre @ str' \<and> found_at_start re str')"
proof (induction re str rule: match_from.induct)
  case (1 re)
  then show ?case by (simp add: matchhere_found)
next
  case (2 re c str)
  have "(\<exists>pre str'. c # str = pre @ str' \<and> found_at_start re str') \<longleftrightarrow>
      found_at_start re (c # str) \<or> (\<exists>pre str'. str = pre @ str' \<and> found_at_start re str')"
    by (auto simp: Cons_eq_append_conv)
  then show ?case using 2 by (simp add: matchhere_found)
qed

text \<open>
  C33. The matcher of \<open>grep\<close> finds what the expression says. It answers yes exactly when the text contains, at its start after
  a leading caret, a word of the language of the expression, at its end when the expression ends with a dollar sign.
\<close>

theorem grep_matches_language: "matches re str \<longleftrightarrow> found re str"
  by (simp add: matches_def found_def matchhere_found match_from_found)

section \<open>The lines of the input\<close>

fun strchr :: "u8 list \<Rightarrow> u8 \<Rightarrow> nat option" where
  "strchr [] c = None"
| "strchr (x # s) c = (if x = 0 then None else if x = c then Some 0 else map_option Suc (strchr s c))"

lemma strchr_less: "strchr s c = Some i \<Longrightarrow> i < length s"
  by (induction s arbitrary: i) (auto split: if_splits)

text \<open>The inner loop: what is written, and the bytes behind the last line.\<close>

function grep_lines :: "u8 list \<Rightarrow> u8 list \<Rightarrow> u8 list list \<times> u8 list" where
  "grep_lines re p = (case strchr p NEWLINE of
       None \<Rightarrow> ([], p)
     | Some i \<Rightarrow> (let (outs, rest) = grep_lines re (drop (Suc i) p) in
         (if matches re (take i p) then take (Suc i) p # outs else outs, rest)))"
  by pat_completeness auto
termination by (relation "measure (\<lambda>(_, p). length p)") (auto dest: strchr_less)

declare grep_lines.simps [simp del]

abbreviation GREPBUF :: nat where "GREPBUF \<equiv> 1024"

text \<open>The loop of \<open>grep\<close>, with the bytes that the buffer holds; the result is what is written to the output, in order.\<close>

fun grep_loop :: "nat \<Rightarrow> (nat \<Rightarrow> 'f \<Rightarrow> u8 list \<times> 'f) \<Rightarrow> u8 list \<Rightarrow> 'f \<Rightarrow> u8 list \<Rightarrow> u8 list list option" where
  "grep_loop 0 rd re f kept = None"
| "grep_loop (Suc fuel) rd re f kept = (case rd (GREPBUF - length kept - 1) f of (d, f') \<Rightarrow>
     if d = [] then Some []
     else (case grep_lines re (kept @ d) of (outs, rest) \<Rightarrow>
       map_option (append outs) (grep_loop fuel rd re f' (if rest = kept @ d then [] else rest))))"

definition grep :: "nat \<Rightarrow> (nat \<Rightarrow> 'f \<Rightarrow> u8 list \<times> 'f) \<Rightarrow> u8 list \<Rightarrow> 'f \<Rightarrow> u8 list list option" where
  "grep fuel rd re f = grep_loop fuel rd re f []"

text \<open>Reading a file, and reading a pipe whose writer has written the given pieces.\<close>

definition file_read :: "nat \<Rightarrow> u8 list \<Rightarrow> u8 list \<times> u8 list" where
  "file_read k f = (take k f, drop k f)"

fun chunk_read :: "nat \<Rightarrow> u8 list list \<Rightarrow> u8 list \<times> u8 list list" where
  "chunk_read k [] = ([], [])"
| "chunk_read k (c # cs) = (take k c, if length c \<le> k then cs else drop k c # cs)"

text \<open>A line and the text of a list of lines.\<close>

definition line_ok :: "u8 list \<Rightarrow> bool" where
  "line_ok w \<longleftrightarrow> NEWLINE \<notin> set w \<and> 0 \<notin> set w"

definition lines_text :: "u8 list list \<Rightarrow> u8 list" where
  "lines_text ws = concat (map (\<lambda>w. w @ [NEWLINE]) ws)"

lemma lines_text_simps [simp]: "lines_text [] = []" "lines_text (w # ws) = w @ NEWLINE # lines_text ws"
    "lines_text (ws @ vs) = lines_text ws @ lines_text vs"
  by (simp_all add: lines_text_def)

lemma strchr_line: "line_ok w \<Longrightarrow> strchr (w @ NEWLINE # s) NEWLINE = Some (length w)"
  by (induction w) (auto simp: line_ok_def)

lemma strchr_none: "line_ok w \<Longrightarrow> strchr w NEWLINE = None"
  by (induction w) (auto simp: line_ok_def)

lemma grep_lines_text:
  assumes "list_all line_ok ws" and "line_ok rest"
  shows "grep_lines re (lines_text ws @ rest) = (map (\<lambda>w. w @ [NEWLINE]) (filter (matches re) ws), rest)"
  using assms(1)
proof (induction ws)
  case Nil
  then show ?case by (subst grep_lines.simps) (simp add: strchr_none assms(2))
next
  case (Cons w ws)
  then show ?case by (subst grep_lines.simps) (simp add: strchr_line)
qed

lemma prefix_of_lines:
  assumes "list_all line_ok ws" and "lines_text ws = s @ f"
  shows "\<exists>k rest. s = lines_text (take k ws) @ rest \<and> line_ok rest \<and> rest @ f = lines_text (drop k ws) \<and> (k = 0 \<longrightarrow> (case ws of [] \<Rightarrow> s = [] | w # _ \<Rightarrow> length s \<le> length w))"
  using assms
proof (induction ws arbitrary: s)
  case Nil
  then show ?case by (auto simp: line_ok_def)
next
  case (Cons w ws)
  show ?case
  proof (cases "length s \<le> length w")
    case True
    then have "\<exists>r. w = s @ r" using Cons.prems(2) by (auto simp: append_eq_append_conv2)
    then show ?thesis using Cons.prems True by (intro exI [of _ 0] exI [of _ s]) (auto simp: line_ok_def)
  next
    case False
    then obtain s' where s: "s = w @ NEWLINE # s'" "lines_text ws = s' @ f"
      using Cons.prems(2) by (auto simp: append_eq_append_conv2 Cons_eq_append_conv)
    then obtain k rest where "s' = lines_text (take k ws) @ rest" "line_ok rest" "rest @ f = lines_text (drop k ws)"
      using Cons.IH [of s'] Cons.prems(1) by auto
    then show ?thesis using s by (intro exI [of _ "Suc k"] exI [of _ rest]) simp
  qed
qed

lemma grep_file_loop:
  assumes "list_all line_ok ws" and "list_all (\<lambda>w. length w < GREPBUF - 1) ws" and "kept @ f = lines_text ws" and "line_ok kept"
    and "length f < fuel"
  shows "grep_loop fuel file_read re f kept = Some (map (\<lambda>w. w @ [NEWLINE]) (filter (matches re) ws))"
  using assms
proof (induction fuel arbitrary: ws kept f)
  case (Suc fuel)
  show ?case
  proof (cases ws)
    case Nil
    then show ?thesis using Suc.prems(3) by (simp add: file_read_def)
  next
    case (Cons w vs)
    have kw: "length kept \<le> length w"
    proof (rule ccontr)
      assume "\<not> length kept \<le> length w"
      then have "NEWLINE \<in> set kept" using Suc.prems(3) Cons by (auto simp: append_eq_append_conv2 append_eq_Cons_conv)
      then show False using Suc.prems(4) by (simp add: line_ok_def)
    qed
    let ?k = "GREPBUF - length kept - 1"
    have k: "length kept + ?k = GREPBUF - 1" "0 < ?k" using kw Suc.prems(2) Cons by auto
    have "f \<noteq> []" using kw Suc.prems(3) Cons by auto
    then have d: "take ?k f \<noteq> []" using k(2) by auto
    have "lines_text ws = (kept @ take ?k f) @ drop ?k f" using Suc.prems(3) by simp
    from prefix_of_lines [OF Suc.prems(1) this]
    obtain m rest where m: "kept @ take ?k f = lines_text (take m ws) @ rest" "line_ok rest" "rest @ drop ?k f = lines_text (drop m ws)"
        "m = 0 \<longrightarrow> (case ws of [] \<Rightarrow> kept @ take ?k f = [] | w # _ \<Rightarrow> length (kept @ take ?k f) \<le> length w)"
      by blast
    have "m \<noteq> 0"
    proof
      assume "m = 0"
      then have "length (kept @ take ?k f) \<le> length w" using m(4) by (simp add: Cons)
      moreover have "length (kept @ f) > length w" using Suc.prems(3) Cons by simp
      ultimately show False using k(1) Suc.prems(2) Cons by auto
    qed
    then have "rest \<noteq> kept @ take ?k f" using m(1) Cons by (cases m) auto
    moreover have "list_all line_ok (take m ws)" "list_all line_ok (drop m ws)" "list_all (\<lambda>w. length w < GREPBUF - 1) (drop m ws)"
      using Suc.prems(1,2) by (auto simp: list_all_iff dest: in_set_takeD in_set_dropD)
    moreover have "length (drop ?k f) < fuel" using \<open>f \<noteq> []\<close> k(2) Suc.prems(5) by (cases f) auto
    ultimately have "grep_loop (Suc fuel) file_read re f kept =
        Some (map (\<lambda>w. w @ [NEWLINE]) (filter (matches re) (take m ws)) @ map (\<lambda>w. w @ [NEWLINE]) (filter (matches re) (drop m ws)))"
      using d m Suc.IH [of "drop m ws" rest "drop ?k f"] by (simp add: file_read_def [of _ f] grep_lines_text)
    then show ?thesis by (metis append_take_drop_id filter_append map_append)
  qed
qed simp

text \<open>
  C34. \<open>grep\<close> on a file prints the lines that match, all of them, whole and in order, when every line ends with a newline, holds no
  zero byte and fits into the buffer; one round more than the file has bytes is enough for it to end.
\<close>

theorem grep_prints_matching_lines:
  assumes "list_all line_ok ws" and "list_all (\<lambda>w. length w < GREPBUF - 1) ws"
  shows "grep (Suc (length (lines_text ws))) file_read re (lines_text ws) = Some (map (\<lambda>w. w @ [NEWLINE]) (filter (found re) ws))"
proof -
  have "matches re = found re" by (simp add: fun_eq_iff matches_def found_def matchhere_found match_from_found)
  then show ?thesis
    using grep_file_loop [OF assms, of "[]" "lines_text ws" "Suc (length (lines_text ws))" re] by (simp add: grep_def line_ok_def)
qed

theorem grep_prints_matching_lines_witness:
  "grep (Suc (length (lines_text [[0x61, 0x61, 0x63], [0x62], [0x62, 0x63]]))) file_read [0x61, STAR, 0x63, DOLLAR]
      (lines_text [[0x61, 0x61, 0x63], [0x62], [0x62, 0x63]]) =
    Some (map (\<lambda>w. w @ [NEWLINE]) (filter (found [0x61, STAR, 0x63, DOLLAR]) [[0x61, 0x61, 0x63], [0x62], [0x62, 0x63]]))"
  by (rule grep_prints_matching_lines) (simp_all add: line_ok_def)

text \<open>
  C35. A short read loses the start of a line. When a line arrives in two pieces, as it does from a pipe or from the console, and
  the first piece holds no newline, \<open>grep\<close> drops it: the answer depends on the second piece only, and only that is printed.
\<close>

theorem grep_short_read_loses_line:
  assumes "line_ok u" and "u \<noteq> []" and "length u < GREPBUF" and "line_ok w" and "length w < GREPBUF - 1"
  shows "grep 3 chunk_read re [u, w @ [NEWLINE]] = Some (if matches re w then [w @ [NEWLINE]] else [])"
proof -
  have "grep_lines re u = ([], u)" using grep_lines_text [of "[]" u re] assms(1) by simp
  moreover have "grep_lines re (w @ [NEWLINE]) = (if matches re w then [w @ [NEWLINE]] else [], [])"
    using grep_lines_text [of "[w]" "[]" re] assms(4) by (simp add: line_ok_def)
  ultimately show ?thesis using assms by (simp add: grep_def eval_nat_numeral)
qed

theorem grep_short_read_loses_line_witness:
  "grep 3 chunk_read [0x61, 0x62] [[0x61], [0x62] @ [NEWLINE]] = Some [] \<and> found [0x61, 0x62] ([0x61] @ [0x62])"
proof
  have "\<not> matches [0x61, 0x62] [0x62]" by code_simp
  then show "grep 3 chunk_read [0x61, 0x62] [[0x61], [0x62] @ [NEWLINE]] = Some []"
    using grep_short_read_loses_line [of "[0x61]" "[0x62]" "[0x61, 0x62]"] by (simp add: line_ok_def)
  have "matches [0x61, 0x62] [0x61, 0x62]" by code_simp
  then show "found [0x61, 0x62] ([0x61] @ [0x62])" by (simp add: matches_def found_def matchhere_found match_from_found)
qed

section \<open>The program\<close>

text \<open>
  What \<open>main\<close> does with its arguments: the messages and the output of \<open>grep\<close>, by descriptor. \<open>op\<close> opens a file and \<open>stdin\<close> is the
  standard input.
\<close>

fun grep_files :: "nat \<Rightarrow> (nat \<Rightarrow> 'f \<Rightarrow> u8 list \<times> 'f) \<Rightarrow> (u8 list \<Rightarrow> 'f option) \<Rightarrow> u8 list \<Rightarrow> u8 list list \<Rightarrow> (nat \<times> u8 list) list option" where
  "grep_files fuel rd op re [] = Some []"
| "grep_files fuel rd op re (a # as) = (case op a of
       None \<Rightarrow> Some [(1, map (of_nat \<circ> of_char) ''grep: cannot open '' @ a @ [NEWLINE])]
     | Some f \<Rightarrow> (case grep fuel rd re f of
           None \<Rightarrow> None
         | Some outs \<Rightarrow> map_option (append (map (Pair 1) outs)) (grep_files fuel rd op re as)))"

definition grep_main :: "nat \<Rightarrow> (nat \<Rightarrow> 'f \<Rightarrow> u8 list \<times> 'f) \<Rightarrow> (u8 list \<Rightarrow> 'f option) \<Rightarrow> 'f \<Rightarrow> u8 list list \<Rightarrow> (nat \<times> u8 list) list option" where
  "grep_main fuel rd op stdin argv =
     (if length argv \<le> 1 then Some [(2, map (of_nat \<circ> of_char) ''usage: grep pattern [file ...]'' @ [NEWLINE])]
      else if length argv \<le> 2 then map_option (map (Pair 1)) (grep fuel rd (argv ! 1) stdin)
      else grep_files fuel rd op (argv ! 1) (drop 2 argv))"

end
