(* ===== verification/Ulib.thy ===== *)
theory Ulib
  imports Console Cstring
begin

text \<open>
  The library of the user programs: \<open>ulib.c\<close> and \<open>printf.c\<close>. Strings that are only read are the lists of their bytes before the
  terminating zero; a string argument of \<open>printf\<close> has its zero. The output of \<open>printf\<close> is the list of the bytes that it
  writes, one call of \<open>write\<close> each; \<open>None\<close> says that it ran past its arguments or past a string. What \<open>gets\<close> reads comes from
  any object with a read operation for one byte.
\<close>

section \<open>Strings\<close>

fun strcmp :: "u8 list \<Rightarrow> u8 list \<Rightarrow> int" where
  "strcmp (p # ps) (q # qs) = (if p = q then strcmp ps qs else uint p - uint q)"
| "strcmp (p # ps) [] = uint p"
| "strcmp [] (q # qs) = - uint q"
| "strcmp [] [] = 0"

text \<open>The number of bytes before the zero of an array; \<open>None\<close> when there is none.\<close>

fun strlen :: "u8 list \<Rightarrow> nat option" where
  "strlen [] = None"
| "strlen (c # s) = (if c = 0 then Some 0 else map_option Suc (strlen s))"

text \<open>\<open>strcpy\<close> copies up to and with the zero; \<open>None\<close> when the destination is too small or the source has no zero.\<close>

fun strcpy :: "u8 list \<Rightarrow> u8 list \<Rightarrow> u8 list option" where
  "strcpy (_ # s) (c # t) = (if c = 0 then Some (0 # s) else map_option (Cons c) (strcpy s t))"
| "strcpy _ _ = None"

definition umemset :: "u32 \<Rightarrow> u32 \<Rightarrow> u32 \<Rightarrow> (u32 \<Rightarrow> u8) \<Rightarrow> u32 \<Rightarrow> u8" where
  "umemset dst c n m = fold (\<lambda>i m. m(dst + of_nat i := ucast c)) [0..<unat n] m"

text \<open>\<open>memmove\<close> of the user library copies upwards only.\<close>

fun umemmove :: "nat \<Rightarrow> u32 \<Rightarrow> u32 \<Rightarrow> (u32 \<Rightarrow> u8) \<Rightarrow> u32 \<Rightarrow> u8" where
  "umemmove 0 dst src m = m"
| "umemmove (Suc n) dst src m = umemmove n (dst + 1) (src + 1) (m(dst := m src))"

section \<open>Input\<close>

text \<open>The loop of \<open>gets\<close>: the bytes stored before the zero, and the rest of the input.\<close>

fun gets_loop :: "nat \<Rightarrow> ('f \<Rightarrow> (u8 \<times> 'f) option) \<Rightarrow> 'f \<Rightarrow> u8 list \<times> 'f" where
  "gets_loop 0 rd f = ([], f)"
| "gets_loop (Suc n) rd f = (case rd f of
       None \<Rightarrow> ([], f)
     | Some (c, f') \<Rightarrow> if c = 0x0A \<or> c = 0x0D then ([c], f') else (let (s, f'') = gets_loop n rd f' in (c # s, f'')))"

definition ugets :: "int \<Rightarrow> ('f \<Rightarrow> (u8 \<times> 'f) option) \<Rightarrow> 'f \<Rightarrow> u8 list \<times> 'f" where
  "ugets lim rd f = (case gets_loop (nat (lim - 1)) rd f of (s, f') \<Rightarrow> (s @ [0], f'))"

section \<open>Numbers\<close>

definition is_digit :: "u8 \<Rightarrow> bool" where
  "is_digit c \<longleftrightarrow> 0x30 \<le> c \<and> c \<le> 0x39"

fun atoi_loop :: "u32 \<Rightarrow> u8 list \<Rightarrow> u32" where
  "atoi_loop n [] = n"
| "atoi_loop n (c # s) = (if is_digit c then atoi_loop (n * 10 + ucast c - 0x30) s else n)"

definition atoi :: "u8 list \<Rightarrow> u32" where
  "atoi s = atoi_loop 0 s"

definition uprintint :: "u32 \<Rightarrow> u32 \<Rightarrow> bool \<Rightarrow> u8 list" where
  "uprintint xx base sign = map of_char (rev (printint_buf ''0123456789ABCDEF'' xx base sign))"

section \<open>Formatted output\<close>

definition ustring :: "u8 list \<Rightarrow> u8 list option" where
  "ustring bs = (if 0 \<in> set bs then Some (takeWhile (\<lambda>b. b \<noteq> 0) bs) else None)"

fun printf :: "string \<Rightarrow> fmtarg list \<Rightarrow> u8 list option" where
  "printf [] args = Some []"
| "printf (c # fmt) args =
     (if c \<noteq> CHR ''%'' then map_option (Cons (of_char c)) (printf fmt args)
      else case fmt of
        [] \<Rightarrow> Some []
      | d # fmt' \<Rightarrow>
          if d = CHR ''d'' then
            (case args of AInt x # args' \<Rightarrow> map_option (append (uprintint x 10 True)) (printf fmt' args') | _ \<Rightarrow> None)
          else if d = CHR ''x'' \<or> d = CHR ''p'' then
            (case args of AInt x # args' \<Rightarrow> map_option (append (uprintint x 16 False)) (printf fmt' args') | _ \<Rightarrow> None)
          else if d = CHR ''s'' then
            (case args of AStr t # args' \<Rightarrow>
               (case ustring (case t of None \<Rightarrow> null_text | Some bs \<Rightarrow> bs) of
                  None \<Rightarrow> None
                | Some s \<Rightarrow> map_option (append s) (printf fmt' args'))
             | _ \<Rightarrow> None)
          else if d = CHR ''c'' then
            (case args of AInt x # args' \<Rightarrow> map_option (Cons (ucast x)) (printf fmt' args') | _ \<Rightarrow> None)
          else if d = CHR ''%'' then map_option (Cons (of_char d)) (printf fmt' args)
          else map_option (\<lambda>r. of_char CHR ''%'' # of_char d # r) (printf fmt' args))"

section \<open>Numbers survive\<close>

lemma decimal_digit:
  assumes "d < 10"
  shows "(of_char (''0123456789ABCDEF'' ! d) :: u8) = 0x30 + of_nat d"
proof -
  have "d \<in> {0, 1, 2, 3, 4, 5, 6, 7, 8, 9}" using assms by auto
  then show ?thesis by auto
qed

lemma digit_byte:
  assumes "d < 10"
  shows "is_digit (0x30 + of_nat d)" "(ucast (0x30 + of_nat d :: u8) :: u32) = 0x30 + of_nat d"
proof -
  have "d \<in> {0, 1, 2, 3, 4, 5, 6, 7, 8, 9}" using assms by auto
  then show "is_digit (0x30 + of_nat d)" "(ucast (0x30 + of_nat d :: u8) :: u32) = 0x30 + of_nat d" by (auto simp: is_digit_def)
qed

lemma atoi_digits:
  assumes "list_all (\<lambda>d. d < 10) ds"
  shows "atoi_loop n (map (\<lambda>d. 0x30 + of_nat d) (rev ds) @ s) = atoi_loop (n * 10 ^ length ds + of_nat (num_of 10 ds)) s"
  using assms
proof (induction ds arbitrary: s)
  case (Cons d ds)
  have "atoi_loop n (map (\<lambda>d. 0x30 + of_nat d) (rev ds) @ (0x30 + of_nat d) # s) =
      atoi_loop (n * 10 ^ length ds + of_nat (num_of 10 ds)) ((0x30 + of_nat d) # s)" using Cons by simp
  then show ?case using Cons.prems digit_byte [of d] by (simp add: algebra_simps)
qed simp

lemma atoi_digits_of:
  assumes "s \<noteq> [] \<Longrightarrow> \<not> is_digit (hd s)"
  shows "atoi (map of_char (rev (digits_of ''0123456789ABCDEF'' 10 x)) @ s) = x"
proof -
  have l: "list_all (\<lambda>d. d < 10) (digit_values 10 x)" using digit_values_less [of 10 _ x] by (auto simp: list_all_iff)
  then have "map of_char (rev (digits_of ''0123456789ABCDEF'' 10 x)) = map (\<lambda>d. 0x30 + of_nat d :: u8) (rev (digit_values 10 x))"
    by (auto simp: digits_of_values rev_map list_all_iff decimal_digit)
  then have "atoi (map of_char (rev (digits_of ''0123456789ABCDEF'' 10 x)) @ s) = atoi_loop (of_nat (num_of 10 (digit_values 10 x))) s"
    using atoi_digits [OF l, of 0 s] by (simp add: atoi_def)
  moreover have "num_of 10 (digit_values 10 x) = unat x" using num_of_digit_values [of 10 x] by simp
  moreover have "atoi_loop n s = n" for n using assms by (cases s) auto
  ultimately show ?thesis by simp
qed

text \<open>
  C36. Numbers survive printing and reading, and where they do not. What \<open>printf\<close> writes for \<open>%d\<close> and a number that is not negative as a
  signed integer is read back by \<open>atoi\<close> as that number, whatever follows it that is not a digit. For a negative number
  \<open>printf\<close> writes a minus sign and the digits of the magnitude: \<open>atoi\<close>, which knows no sign, reads 0 from the text and the
  magnitude from the text after the sign, also for the least integer, whose magnitude is itself.
\<close>

theorem atoi_reads_printf:
  assumes "s \<noteq> [] \<Longrightarrow> \<not> is_digit (hd s)"
  shows "\<exists>bs. printf ''%d'' [AInt x] = Some bs \<and>
           (if x <s 0 then hd bs = 0x2D \<and> atoi (bs @ s) = 0 \<and> atoi (tl bs @ s) = - x else atoi (bs @ s) = x)"
proof (intro exI conjI)
  show "printf ''%d'' [AInt x] = Some (uprintint x 10 True)" by simp
  show "if x <s 0 then hd (uprintint x 10 True) = 0x2D \<and> atoi (uprintint x 10 True @ s) = 0 \<and> atoi (tl (uprintint x 10 True) @ s) = - x
      else atoi (uprintint x 10 True @ s) = x"
    using atoi_digits_of [OF assms, of x] atoi_digits_of [OF assms, of "- x"]
    by (simp add: uprintint_def printint_buf_def) (simp add: atoi_def is_digit_def)
qed

theorem atoi_reads_printf_witness:
  "printf ''%d'' [AInt 2047] = Some [0x32, 0x30, 0x34, 0x37] \<and> atoi [0x32, 0x30, 0x34, 0x37, 0x0A] = 2047 \<and>
   (\<exists>bs. printf ''%d'' [AInt 0x80000000] = Some bs \<and> atoi (bs @ [0x0A]) = 0 \<and> atoi (tl bs @ [0x0A]) = 0x80000000)"
proof -
  have sg: "\<not> (2047 :: u32) <s 0" "(0x80000000 :: u32) <s 0" by code_simp+
  have out: "printf ''%d'' [AInt 2047] = Some [0x32, 0x30, 0x34, 0x37]" by code_simp
  have nd: "[0x0A :: u8] \<noteq> [] \<Longrightarrow> \<not> is_digit (hd [0x0A])" by (simp add: is_digit_def)
  show ?thesis using atoi_reads_printf [OF nd, of 2047] atoi_reads_printf [OF nd, of "0x80000000"] sg out by (auto simp del: printf.simps)
qed

section \<open>Copying\<close>

lemma umemmove_copy_up: "umemmove n dst src m = copy_up dst src n m"
  by (induction n arbitrary: dst src m) simp_all

lemma umemmove_other: "(\<And>j. j < n \<Longrightarrow> a \<noteq> dst + of_nat j) \<Longrightarrow> umemmove n dst src m a = m a"
proof (induction n arbitrary: dst src m)
  case (Suc n)
  have "a \<noteq> dst + 1 + of_nat j" if "j < n" for j using Suc.prems [of "Suc j"] that by (simp add: algebra_simps)
  moreover have "a \<noteq> dst" using Suc.prems [of 0] by simp
  ultimately show ?case using Suc.IH by simp
qed simp

lemma umemmove_smears:
  assumes "i \<le> n" and "n < 2 ^ 32"
  shows "umemmove n (p + 1) p m (p + of_nat i) = m p"
  using assms
proof (induction n arbitrary: i p m)
  case (Suc n)
  show ?case
  proof (cases i)
    case 0
    have "p \<noteq> p + 1 + of_nat j" if "j < Suc n" for j
    proof
      assume "p = p + 1 + of_nat j"
      then have "(of_nat (Suc j) :: u32) = of_nat 0" by (simp add: algebra_simps)
      then show False using of_nat_inj32 [of "Suc j" 0] that Suc.prems by simp
    qed
    then have "umemmove (Suc n) (p + 1) p m p = m p" by (rule umemmove_other)
    then show ?thesis using 0 by simp
  next
    case (Suc k)
    then show ?thesis using Suc.IH [of k "p + 1" "m(p + 1 := m p)"] Suc.prems by (simp add: algebra_simps del: fun_upd_apply) simp
  qed
qed simp



end
