(* ===== verification/ShParse.thy ===== *)
theory ShParse
  imports Prelude
begin

text \<open>
  The parser of the shell, \<open>sh.c\<close>. The line is the list of its bytes before the terminating zero; a pointer into it is an index,
  and the end \<open>es\<close> is its length, where the zero is. A token is a pair of indices, as the parser keeps the pointers \<open>q\<close> and
  \<open>eq\<close>; \<open>nulterminate\<close> then writes a zero at the second.

  \<open>parseexec\<close> wraps the redirections around the command while it still fills in the arguments of the command inside, through a
  second pointer; the model collects both and builds the command at the end. The parser functions have fuel, which stands for
  the depth of their calls and loops; \<open>None\<close> is out of fuel, \<open>Inl\<close> a call of \<open>panic\<close>. Memory is taken to be enough.
\<close>

unbundle bit_operations_syntax

datatype cmd =
    EXEC "(nat \<times> nat) list"
  | REDIR cmd nat nat u32 nat
  | PIPE cmd cmd
  | LIST cmd cmd
  | BACK cmd

abbreviation O_RDONLY :: u32 where "O_RDONLY \<equiv> 0"
abbreviation O_WRONLY :: u32 where "O_WRONLY \<equiv> 1"
abbreviation O_CREATE :: u32 where "O_CREATE \<equiv> 0x200"
abbreviation MAXARGS :: nat where "MAXARGS \<equiv> 10"

section \<open>Tokens\<close>

definition whitespace :: "u8 list" where "whitespace = [0x20, 0x09, 0x0D, 0x0A, 0x0B]"
definition symbols :: "u8 list" where "symbols = [0x3C, 0x7C, 0x3E, 0x26, 0x3B, 0x28, 0x29]"

abbreviation is_space :: "u8 \<Rightarrow> bool" where "is_space c \<equiv> c \<in> set whitespace"
abbreviation is_word :: "u8 \<Rightarrow> bool" where "is_word c \<equiv> c \<notin> set whitespace \<and> c \<notin> set symbols"

definition byte_at :: "u8 list \<Rightarrow> nat \<Rightarrow> u8" where
  "byte_at s i = (if i < length s then s ! i else 0)"

text \<open>The loops \<open>while(s < es && P(*s)) s++\<close>.\<close>

definition advance :: "(u8 \<Rightarrow> bool) \<Rightarrow> u8 list \<Rightarrow> nat \<Rightarrow> nat" where
  "advance P s i = i + length (takeWhile P (drop i s))"

abbreviation skip_space :: "u8 list \<Rightarrow> nat \<Rightarrow> nat" where "skip_space \<equiv> advance is_space"

text \<open>The token, its two indices, and the index behind it.\<close>

definition gettoken :: "u8 list \<Rightarrow> nat \<Rightarrow> u8 \<times> nat \<times> nat \<times> nat" where
  "gettoken s i = (let q = skip_space s i; c = byte_at s q;
     (ret, eq) =
       (if c = 0 then (0, q)
        else if c \<in> {0x7C, 0x28, 0x29, 0x3B, 0x26, 0x3C} then (c, q + 1)
        else if c = 0x3E then (if byte_at s (q + 1) = 0x3E then (0x2B, q + 2) else (c, q + 1))
        else (0x61, advance is_word s q))
     in (ret, q, eq, skip_space s eq))"

definition peek :: "u8 list \<Rightarrow> nat \<Rightarrow> u8 list \<Rightarrow> bool \<times> nat" where
  "peek s i toks = (let j = skip_space s i in (byte_at s j \<noteq> 0 \<and> byte_at s j \<in> set toks, j))"

section \<open>The parser\<close>

type_synonym 'a presult = "(string + 'a \<times> nat) option"

definition pbind :: "'a presult \<Rightarrow> ('a \<Rightarrow> nat \<Rightarrow> 'b presult) \<Rightarrow> 'b presult" where
  "pbind r f = (case r of None \<Rightarrow> None | Some (Inl e) \<Rightarrow> Some (Inl e) | Some (Inr (x, i)) \<Rightarrow> f x i)"

text \<open>A redirection: the file, the mode and the descriptor; and what \<open>redircmd\<close> makes of it.\<close>

type_synonym redir = "(nat \<times> nat) \<times> u32 \<times> nat"

definition redircmd :: "cmd \<Rightarrow> redir \<Rightarrow> cmd" where
  "redircmd c r = (case r of ((q, eq), mode, fd) \<Rightarrow> REDIR c q eq mode fd)"

definition redir_of :: "u8 \<Rightarrow> nat \<times> nat \<Rightarrow> redir list" where
  "redir_of tok f =
     (if tok = 0x3C then [(f, O_RDONLY, 0)]
      else if tok = 0x3E then [(f, O_WRONLY OR O_CREATE, 1)]
      else if tok = 0x2B then [(f, O_WRONLY OR O_CREATE, 1)]
      else [])"

fun parseredirs :: "nat \<Rightarrow> u8 list \<Rightarrow> nat \<Rightarrow> redir list presult" where
  "parseredirs 0 s i = None"
| "parseredirs (Suc n) s i = (case peek s i [0x3C, 0x3E] of (b, j) \<Rightarrow>
     if \<not> b then Some (Inr ([], j))
     else case gettoken s j of (tok, _, _, k) \<Rightarrow> (case gettoken s k of (t, q, eq, l) \<Rightarrow>
       if t \<noteq> 0x61 then Some (Inl ''missing file for redirection'')
       else pbind (parseredirs n s l) (\<lambda>rs m. Some (Inr (redir_of tok (q, eq) @ rs, m)))))"

text \<open>The loop of \<open>parseexec\<close>: the arguments and the redirections that it adds to the ones it has.\<close>

fun parseargs :: "nat \<Rightarrow> u8 list \<Rightarrow> nat \<Rightarrow> (nat \<times> nat) list \<Rightarrow> redir list \<Rightarrow> ((nat \<times> nat) list \<times> redir list) presult" where
  "parseargs 0 s i args rs = None"
| "parseargs (Suc n) s i args rs = (case peek s i [0x7C, 0x29, 0x26, 0x3B] of (b, j) \<Rightarrow>
     if b then Some (Inr ((args, rs), j))
     else case gettoken s j of (tok, q, eq, k) \<Rightarrow>
       if tok = 0 then Some (Inr ((args, rs), k))
       else if tok \<noteq> 0x61 then Some (Inl ''syntax'')
       else if MAXARGS \<le> length args + 1 then Some (Inl ''too many args'')
       else pbind (parseredirs n s k) (\<lambda>rs' l. parseargs n s l (args @ [(q, eq)]) (rs @ rs')))"

text \<open>The loop of \<open>parseline\<close> over the ampersands.\<close>

fun parsebacks :: "nat \<Rightarrow> u8 list \<Rightarrow> nat \<Rightarrow> cmd \<Rightarrow> cmd presult" where
  "parsebacks 0 s i c = None"
| "parsebacks (Suc n) s i c = (case peek s i [0x26] of (b, j) \<Rightarrow>
     if \<not> b then Some (Inr (c, j))
     else case gettoken s j of (_, _, _, k) \<Rightarrow> parsebacks n s k (BACK c))"

fun parseline :: "nat \<Rightarrow> u8 list \<Rightarrow> nat \<Rightarrow> cmd presult"
  and parsepipe :: "nat \<Rightarrow> u8 list \<Rightarrow> nat \<Rightarrow> cmd presult"
  and parseblock :: "nat \<Rightarrow> u8 list \<Rightarrow> nat \<Rightarrow> cmd presult"
  and parseexec :: "nat \<Rightarrow> u8 list \<Rightarrow> nat \<Rightarrow> cmd presult" where
  "parseline 0 s i = None"
| "parseline (Suc n) s i =
     pbind (parsepipe n s i) (\<lambda>c j. pbind (parsebacks n s j c) (\<lambda>c k. case peek s k [0x3B] of (b, l) \<Rightarrow>
       if \<not> b then Some (Inr (c, l))
       else case gettoken s l of (_, _, _, m) \<Rightarrow> pbind (parseline n s m) (\<lambda>d m. Some (Inr (LIST c d, m)))))"
| "parsepipe 0 s i = None"
| "parsepipe (Suc n) s i =
     pbind (parseexec n s i) (\<lambda>c j. case peek s j [0x7C] of (b, k) \<Rightarrow>
       if \<not> b then Some (Inr (c, k))
       else case gettoken s k of (_, _, _, l) \<Rightarrow> pbind (parsepipe n s l) (\<lambda>d m. Some (Inr (PIPE c d, m))))"
| "parseblock 0 s i = None"
| "parseblock (Suc n) s i = (case peek s i [0x28] of (b, j) \<Rightarrow>
     if \<not> b then Some (Inl ''parseblock'')
     else case gettoken s j of (_, _, _, k) \<Rightarrow> pbind (parseline n s k) (\<lambda>c l. case peek s l [0x29] of (b, m) \<Rightarrow>
       if \<not> b then Some (Inl ''syntax - missing )'')
       else case gettoken s m of (_, _, _, p) \<Rightarrow>
         pbind (parseredirs n s p) (\<lambda>rs r. Some (Inr (foldl redircmd c rs, r)))))"
| "parseexec 0 s i = None"
| "parseexec (Suc n) s i = (case peek s i [0x28] of (b, j) \<Rightarrow>
     if b then parseblock n s j
     else pbind (parseredirs n s j) (\<lambda>rs k. pbind (parseargs n s k [] rs) (\<lambda>(args, rs) l.
       Some (Inr (foldl redircmd (EXEC args) rs, l)))))"

fun nulterminate :: "cmd \<Rightarrow> u8 list \<Rightarrow> u8 list" where
  "nulterminate (EXEC args) s = fold (\<lambda>(_, eq) s. s[eq := 0]) args s"
| "nulterminate (REDIR c q eq mode fd) s = (nulterminate c s)[eq := 0]"
| "nulterminate (PIPE c d) s = nulterminate d (nulterminate c s)"
| "nulterminate (LIST c d) s = nulterminate d (nulterminate c s)"
| "nulterminate (BACK c) s = nulterminate c s"

text \<open>The command and the line after \<open>nulterminate\<close>.\<close>

definition parsecmd :: "nat \<Rightarrow> u8 list \<Rightarrow> (string + cmd \<times> u8 list) option" where
  "parsecmd n s = (case parseline n s 0 of
       None \<Rightarrow> None
     | Some (Inl e) \<Rightarrow> Some (Inl e)
     | Some (Inr (c, i)) \<Rightarrow> (case peek s i [] of (_, j) \<Rightarrow>
         if j \<noteq> length s then Some (Inl ''syntax'') else Some (Inr (c, nulterminate c s))))"

section \<open>Moving along the line\<close>

lemma advance_bounds: "i \<le> length s \<Longrightarrow> i \<le> advance P s i \<and> advance P s i \<le> length s"
  using length_takeWhile_le [of P "drop i s"] by (simp add: advance_def)

lemma advance_stops: "advance P s i < length s \<Longrightarrow> \<not> P (s ! advance P s i)"
  using nth_length_takeWhile [of P "drop i s"] by (simp add: advance_def)

lemma advance_over: "i \<le> j \<Longrightarrow> j < advance P s i \<Longrightarrow> P (s ! j)"
proof -
  assume "i \<le> j" "j < advance P s i"
  then have k: "j - i < length (takeWhile P (drop i s))" "i + (j - i) = j" by (auto simp: advance_def)
  then have "P (takeWhile P (drop i s) ! (j - i))" by (meson nth_mem set_takeWhileD)
  moreover have "takeWhile P (drop i s) ! (j - i) = s ! j"
    using k takeWhile_nth [OF k(1)] length_takeWhile_le [of P "drop i s"] by (simp add: nth_drop)
  ultimately show "P (s ! j)" by simp
qed

lemma advance_moves: "i < length s \<Longrightarrow> P (s ! i) \<Longrightarrow> i < advance P s i"
  by (simp add: advance_def Cons_nth_drop_Suc [symmetric])

text \<open>
  A token of the kind \<open>'a'\<close>: a maximal non-empty stretch of bytes that are neither space nor symbol. The words that begin between two
  indices; the tokens of a command; and that a list of tokens has each of those words once.
\<close>

definition token_ok :: "u8 list \<Rightarrow> nat \<times> nat \<Rightarrow> bool" where
  "token_ok s = (\<lambda>(q, eq). q < eq \<and> eq \<le> length s \<and> (\<forall>j. q \<le> j \<and> j < eq \<longrightarrow> is_word (s ! j)) \<and>
     (eq < length s \<longrightarrow> \<not> is_word (s ! eq)) \<and> (0 < q \<longrightarrow> \<not> is_word (s ! (q - 1))))"

lemma token_less: "token_ok s (q, eq) \<Longrightarrow> q < length s"
  by (simp add: token_ok_def)

definition words_in :: "u8 list \<Rightarrow> nat \<Rightarrow> nat \<Rightarrow> (nat \<times> nat) set" where
  "words_in s i j = {(q, eq). token_ok s (q, eq) \<and> i \<le> q \<and> q < j}"

fun tokens :: "cmd \<Rightarrow> (nat \<times> nat) list" where
  "tokens (EXEC args) = args"
| "tokens (REDIR c q eq mode fd) = tokens c @ [(q, eq)]"
| "tokens (PIPE c d) = tokens c @ tokens d"
| "tokens (LIST c d) = tokens c @ tokens d"
| "tokens (BACK c) = tokens c"

definition cover :: "u8 list \<Rightarrow> nat \<Rightarrow> (nat \<times> nat) list \<Rightarrow> nat \<Rightarrow> bool" where
  "cover s i ts j \<longleftrightarrow> i \<le> j \<and> set ts = words_in s i j \<and> distinct ts"

lemma words_none: "(\<And>p. i \<le> p \<Longrightarrow> p < j \<Longrightarrow> \<not> is_word (s ! p)) \<Longrightarrow> words_in s i j = {}"
  by (force simp: words_in_def token_ok_def)

lemma words_Un: "i \<le> j \<Longrightarrow> j \<le> k \<Longrightarrow> words_in s i k = words_in s i j \<union> words_in s j k"
  by (auto simp: words_in_def)

lemma cover_append: "cover s i ts j \<Longrightarrow> cover s j us k \<Longrightarrow> cover s i (ts @ us) k"
  using words_Un [of i j k s] by (auto simp: cover_def words_in_def)

lemma cover_order: "cover s i ts j \<Longrightarrow> cover s j us k \<Longrightarrow> a \<in> set ts \<Longrightarrow> b \<in> set us \<Longrightarrow> fst a < fst b"
  by (auto simp: cover_def words_in_def)

lemma cover_perm: "cover s i ts j \<Longrightarrow> set us = set ts \<Longrightarrow> distinct us = distinct ts \<Longrightarrow> cover s i us j"
  by (simp add: cover_def)

lemma cover_none: "i \<le> j \<Longrightarrow> (\<And>p. i \<le> p \<Longrightarrow> p < j \<Longrightarrow> \<not> is_word (s ! p)) \<Longrightarrow> cover s i [] j"
  using words_none [of i j s] by (simp add: cover_def)

lemma cover_le: "cover s i ts j \<Longrightarrow> i \<le> j"
  by (simp add: cover_def)

lemma cover_skip: "i \<le> length s \<Longrightarrow> cover s i [] (skip_space s i)"
  using advance_over [of i _ is_space s] advance_bounds [of i s is_space] by (intro cover_none) auto

lemma cover_word:
  assumes "token_ok s (q, eq)"
  shows "cover s q [(q, eq)] eq"
proof -
  have eq: "q < eq" "\<And>j. q \<le> j \<Longrightarrow> j < eq \<Longrightarrow> is_word (s ! j)" "eq < length s \<Longrightarrow> \<not> is_word (s ! eq)"
    using assms by (auto simp: token_ok_def)
  have "p = q \<and> e = eq" if w: "(p, e) \<in> words_in s q eq" for p e
  proof -
    have w: "q \<le> p" "p < eq" "p < e" "e \<le> length s" "\<And>j. p \<le> j \<Longrightarrow> j < e \<Longrightarrow> is_word (s ! j)" "e < length s \<Longrightarrow> \<not> is_word (s ! e)"
        "0 < p \<Longrightarrow> \<not> is_word (s ! (p - 1))"
      using w by (auto simp: words_in_def token_ok_def)
    have "p = q" using w(1,2,7) eq(2) [of "p - 1"] by fastforce
    moreover have "\<not> e < eq" using w(2,3,6) eq(2) [of e] assms calculation by (auto simp: token_ok_def)
    moreover have "\<not> eq < e" using w(1,4) w(5) [of eq] eq(1,3) calculation(1) by auto
    ultimately show ?thesis by simp
  qed
  moreover have "(q, eq) \<in> words_in s q eq" using assms eq(1) by (simp add: words_in_def)
  ultimately show ?thesis using eq(1) by (auto simp: cover_def)
qed

text \<open>An index that is not inside a word: the parser stands at such an index whenever it asks for a token.\<close>

definition at :: "u8 list \<Rightarrow> nat \<Rightarrow> bool" where
  "at s i \<longleftrightarrow> i \<le> length s \<and> (0 < i \<and> i < length s \<longrightarrow> \<not> (is_word (s ! (i - 1)) \<and> is_word (s ! i)))"

lemma at_le: "at s i \<Longrightarrow> i \<le> length s"
  by (simp add: at_def)

lemma at_skip:
  assumes "at s i"
  shows "at s (skip_space s i)"
proof (cases "skip_space s i = i")
  case False
  then have "i \<le> skip_space s i - 1" "skip_space s i - 1 < skip_space s i" using advance_bounds [OF at_le [OF assms], of is_space] by auto
  then have "is_space (s ! (skip_space s i - 1))" by (rule advance_over)
  then show ?thesis using advance_bounds [OF at_le [OF assms], of is_space] by (simp add: at_def)
qed (use assms in simp)

lemma peek_reads:
  assumes "at s i" and "peek s i toks = (b, j)"
  shows "at s j" "cover s i [] j" "b \<Longrightarrow> j < length s"
  using at_skip [OF assms(1)] cover_skip [OF at_le [OF assms(1)]] assms(2) by (auto simp: peek_def Let_def byte_at_def split: if_splits)

lemma gettoken_reads:
  assumes i: "at s i" and g: "gettoken s i = (t, q, eq, k)"
  shows "at s k" "t \<noteq> 0 \<Longrightarrow> i < k" "cover s i (if t = 0x61 then [(q, eq)] else []) k"
proof -
  let ?q = "skip_space s i" and ?c = "byte_at s (skip_space s i)"
  have q: "q = ?q" "at s q" "cover s i [] q" "q \<le> length s"
    using g at_skip [OF i] cover_skip [OF at_le [OF i]] by (auto simp: gettoken_def Let_def at_le split: prod.splits)
  have k: "k = skip_space s eq" using g by (auto simp: gettoken_def Let_def split: prod.splits)
  have lt: "q < length s" "?c = s ! q" if "?c \<noteq> 0" using that q(1) by (auto simp: byte_at_def split: if_splits)
  have sp: "\<not> is_space (s ! q)" if "q < length s" using that advance_stops [of is_space s i] q(1) by simp
  consider "?c = 0" "t = 0" "eq = q" | "t \<noteq> 0x61" "q < eq" "eq \<le> length s" "\<not> is_word (s ! q)" "eq = q + 1 \<or> eq = q + 2 \<and> \<not> is_word (s ! (q + 1))"
    | "?c \<noteq> 0" "is_word ?c" "t = 0x61" "eq = advance is_word s q"
  proof -
    have two: "q + 2 \<le> length s" "s ! (q + 1) = 0x3E" if "byte_at s (q + 1) = 0x3E" using that by (auto simp: byte_at_def split: if_splits)
    show ?thesis using g q(1) two lt sp that
      by (auto simp: gettoken_def Let_def symbols_def split: if_splits)
  qed
  then have "at s eq \<and> q \<le> eq \<and> (t \<noteq> 0 \<longrightarrow> q < eq) \<and> cover s q (if t = 0x61 then [(q, eq)] else []) eq"
  proof cases
    case 1
    then show ?thesis using q(2) cover_none [of q q s] by simp
  next
    case 2
    have no: "\<not> is_word (s ! p)" if "q \<le> p" "p < eq" for p
      using that 2(4,5) by (cases "p = q") (auto simp: le_less_Suc_eq dest!: le_neq_implies_less Suc_leI)
    then have last: "\<not> is_word (s ! (eq - 1))" using 2(2) by auto
    have "cover s q [] eq" by (rule cover_none) (use 2(2) no in simp_all)
    then show ?thesis using 2(1-3) last by (auto simp: at_def)
  next
    case 3
    have "q < eq" using 3 lt advance_moves [of q s is_word] by simp
    moreover have "eq \<le> length s" using 3 advance_bounds [OF q(4)] by simp
    moreover have "0 < q \<Longrightarrow> \<not> is_word (s ! (q - 1))" using q(2) 3 lt by (simp add: at_def)
    ultimately have "token_ok s (q, eq)"
      using 3 advance_over [of q _ is_word s] advance_stops [of is_word s q] by (auto simp: token_ok_def)
    then show ?thesis using 3 cover_word [of s q eq] by (auto simp: token_ok_def at_def)
  qed
  then have e: "at s eq" "q \<le> eq" "t \<noteq> 0 \<Longrightarrow> q < eq" "cover s q (if t = 0x61 then [(q, eq)] else []) eq" by auto
  show "at s k" using at_skip [OF e(1)] k by simp
  show "t \<noteq> 0 \<Longrightarrow> i < k" using e(3) k cover_le [OF q(3)] cover_le [OF cover_skip [OF at_le [OF e(1)]]] by simp
  show "cover s i (if t = 0x61 then [(q, eq)] else []) k"
    using cover_append [OF cover_append [OF q(3) e(4)] cover_skip [OF at_le [OF e(1)]]] k by simp
qed

text \<open>A symbol that \<open>peek\<close> saw is there, so \<open>gettoken\<close> moves, and over the symbol only.\<close>

lemma skip_space_idem: "i \<le> length s \<Longrightarrow> skip_space s (skip_space s i) = skip_space s i"
  using advance_stops [of is_space s i] advance_bounds [of i s is_space]
  by (cases "skip_space s i < length s") (simp_all add: advance_def [of _ s "skip_space s i"] advance_def [of _ s "length s"] Cons_nth_drop_Suc [symmetric])

lemma peek_moves:
  assumes i: "at s i" and p: "peek s i toks = (True, j)" and g: "gettoken s j = (t, q, eq, k)" and sym: "set toks \<subseteq> set symbols"
  shows "at s k" "i < k" "cover s i [] k" "set toks \<subseteq> {0x3C, 0x3E} \<Longrightarrow> t \<in> {0x3C, 0x3E, 0x2B}"
proof -
  note P = peek_reads [OF i p]
  note G = gettoken_reads [OF P(1) g]
  have j: "skip_space s j = j" "byte_at s j \<noteq> 0" "byte_at s j \<in> set toks"
    using p skip_space_idem [OF at_le [OF i]] by (auto simp: peek_def Let_def)
  define c where "c = byte_at s j"
  have c: "c \<noteq> 0" "c \<in> set toks" "c \<in> set symbols" using j(2,3) sym by (auto simp: c_def)
  have tc: "t = (if c \<in> {0x7C, 0x28, 0x29, 0x3B, 0x26, 0x3C} then c
      else if c = 0x3E then (if byte_at s (j + 1) = 0x3E then 0x2B else c) else 0x61)"
    using g c(1) by (auto simp: gettoken_def Let_def j(1) simp flip: c_def split: if_splits)
  have t: "t \<noteq> 0" "t \<noteq> 0x61" unfolding tc using c(1,3) by (auto simp: symbols_def)
  have r: "t \<in> {0x3C, 0x3E, 0x2B}" if "set toks \<subseteq> {0x3C, 0x3E}" unfolding tc using c(2) that by auto
  show "at s k" by (rule G(1))
  show "i < k" using G(2) [OF t(1)] cover_le [OF P(2)] by simp
  show "cover s i [] k" using cover_append [OF P(2) G(3)] t(2) by simp
  show "set toks \<subseteq> {0x3C, 0x3E} \<Longrightarrow> t \<in> {0x3C, 0x3E, 0x2B}" by (rule r)
qed

section \<open>The parser ends and its tokens are the words\<close>

text \<open>The result is there; a command comes with an index that is not before \<open>i\<close> and not inside a word.\<close>

definition answers :: "u8 list \<Rightarrow> nat \<Rightarrow> ('a \<Rightarrow> nat \<Rightarrow> bool) \<Rightarrow> 'a presult \<Rightarrow> bool" where
  "answers s i P r = (case r of None \<Rightarrow> False | Some (Inl e) \<Rightarrow> True | Some (Inr (x, j)) \<Rightarrow> i \<le> j \<and> at s j \<and> P x j)"

lemma answers_simps [simp]:
  "answers s i P (Some (Inl e))" "answers s i P (Some (Inr (x, j))) \<longleftrightarrow> i \<le> j \<and> at s j \<and> P x j"
  by (simp_all add: answers_def)

lemma answers_later: "answers s j P r \<Longrightarrow> i \<le> j \<Longrightarrow> (\<And>x k. j \<le> k \<Longrightarrow> P x k \<Longrightarrow> Q x k) \<Longrightarrow> answers s i Q r"
  by (auto simp: answers_def split: option.splits sum.splits)

lemma answers_bind:
  assumes "answers s i P r" and f: "\<And>x j. P x j \<Longrightarrow> i \<le> j \<Longrightarrow> at s j \<Longrightarrow> answers s j Q (f x j)"
  shows "answers s i Q (pbind r f)"
proof -
  consider e where "r = Some (Inl e)" | x j where "r = Some (Inr (x, j))" "i \<le> j" "at s j" "P x j"
    using assms(1) by (auto simp: answers_def split: option.splits sum.splits)
  then show ?thesis
  proof cases
    case (2 x j)
    have "answers s i Q (f x j)" by (rule answers_later [OF f [OF 2(4,2,3)] 2(2)])
    then show ?thesis using 2(1) by (simp add: pbind_def)
  qed (simp add: pbind_def)
qed

text \<open>
  A command whose simple commands have room for their arguments and have them in the order of the line, and whose parts are in the order
  of the line.
\<close>

fun cmd_ok :: "cmd \<Rightarrow> bool" where
  "cmd_ok (EXEC args) \<longleftrightarrow> length args < MAXARGS \<and> sorted_wrt (\<lambda>a b. fst a < fst b) args"
| "cmd_ok (REDIR c q eq mode fd) \<longleftrightarrow> cmd_ok c"
| "cmd_ok (PIPE c d) \<longleftrightarrow> cmd_ok c \<and> cmd_ok d \<and> (\<forall>a\<in>set (tokens c). \<forall>b\<in>set (tokens d). fst a < fst b)"
| "cmd_ok (LIST c d) \<longleftrightarrow> cmd_ok c \<and> cmd_ok d \<and> (\<forall>a\<in>set (tokens c). \<forall>b\<in>set (tokens d). fst a < fst b)"
| "cmd_ok (BACK c) \<longleftrightarrow> cmd_ok c"

definition parsed :: "u8 list \<Rightarrow> nat \<Rightarrow> cmd \<Rightarrow> nat \<Rightarrow> bool" where
  "parsed s i c j \<longleftrightarrow> cmd_ok c \<and> cover s i (tokens c) j"

lemma redirs_cmd [simp]: "cmd_ok (foldl redircmd c rs) = cmd_ok c" "tokens (foldl redircmd c rs) = tokens c @ map fst rs"
  by (induction rs arbitrary: c) (auto simp: redircmd_def)

lemma parsed_two:
  assumes "parsed s i c j" and "parsed s j d k"
  shows "parsed s i (PIPE c d) k" "parsed s i (LIST c d) k"
  using assms cover_append [of s i "tokens c" j] cover_order [of s i "tokens c" j] by (auto simp: parsed_def)

lemma parsed_gap: "parsed s i c j \<Longrightarrow> cover s j [] k \<Longrightarrow> parsed s i c k" "cover s i [] j \<Longrightarrow> parsed s j c k \<Longrightarrow> parsed s i c k"
  using cover_append [of s i "tokens c" j "[]" k] cover_append [of s i "[]" j "tokens c" k] by (auto simp: parsed_def)

lemma parseredirs_answers:
  "at s i \<Longrightarrow> length s - i < n \<Longrightarrow> answers s i (\<lambda>rs. cover s i (map fst rs)) (parseredirs n s i)"
proof (induction n s i rule: parseredirs.induct)
  case (2 n s i)
  obtain b j where p: "peek s i [0x3C, 0x3E] = (b, j)" by fastforce
  obtain tok q0 e0 k where g: "gettoken s j = (tok, q0, e0, k)" by (cases "gettoken s j") auto
  obtain t q eq l where h: "gettoken s k = (t, q, eq, l)" by (cases "gettoken s k") auto
  note P = peek_reads [OF 2(2) p]
  show ?case
  proof (cases "b \<and> t = 0x61")
    case True
    then have p': "peek s i [0x3C, 0x3E] = (True, j)" using p by simp
    note G = peek_moves [OF 2(2) p' g]
    have k: "at s k" "i < k" "cover s i [] k" "tok \<in> {0x3C, 0x3E, 0x2B}" using G by (auto simp: symbols_def)
    note H = gettoken_reads [OF k(1) h]
    have il: "i < l" using k(2) H(2) True by auto
    have c: "cover s i [(q, eq)] l" using cover_append [OF k(3) H(3)] True by simp
    have "answers s l (\<lambda>rs. cover s l (map fst rs)) (parseredirs n s l)"
      using 2 p g h True il H(1) at_le [OF H(1)] by auto
    then have "answers s i (\<lambda>rs. cover s l (map fst rs)) (parseredirs n s l)" by (rule answers_later) (use il in auto)
    then have "answers s i (\<lambda>rs. cover s i (map fst rs)) (pbind (parseredirs n s l) (\<lambda>rs m. Some (Inr (redir_of tok (q, eq) @ rs, m))))"
      by (rule answers_bind) (use k(4) cover_append [OF c] in \<open>auto simp: redir_of_def\<close>)
    then show ?thesis using True p g h by simp
  next
    case False
    then show ?thesis using p g h P cover_le [OF P(2)] by auto
  qed
qed simp

definition args_parsed :: "u8 list \<Rightarrow> nat \<Rightarrow> (nat \<times> nat) list \<Rightarrow> redir list \<Rightarrow> (nat \<times> nat) list \<times> redir list \<Rightarrow> nat \<Rightarrow> bool" where
  "args_parsed s i args rs = (\<lambda>(args', rs') j. length args' < MAXARGS \<and> (\<exists>xs ys. args' = args @ xs \<and> rs' = rs @ ys \<and>
     sorted_wrt (\<lambda>a b. fst a < fst b) xs \<and> cover s i (xs @ map fst ys) j))"

lemma args_parsed_Cons:
  assumes "cover s i [a] k" and "cover s k (map fst ys) l" and "args_parsed s l (args @ [a]) (rs @ ys) x j"
  shows "args_parsed s i args rs x j"
proof -
  obtain xs zs where x: "x = (args @ a # xs, rs @ ys @ zs)" "length args + Suc (length xs) < MAXARGS"
      "sorted_wrt (\<lambda>a b. fst a < fst b) xs" "cover s l (xs @ map fst zs) j"
    using assms(3) by (cases x) (auto simp: args_parsed_def)
  have later: "cover s k (map fst ys @ xs @ map fst zs) j" by (rule cover_append [OF assms(2) x(4)])
  have "cover s i ((a # xs) @ map fst (ys @ zs)) j"
    by (rule cover_perm [OF cover_append [OF assms(1) later]]) auto
  moreover have "sorted_wrt (\<lambda>a b. fst a < fst b) (a # xs)" using x(3) cover_order [OF assms(1) later] by simp
  ultimately show ?thesis using x(1,2) unfolding args_parsed_def
    by (simp del: sorted_wrt.simps)
qed

lemma parseargs_answers:
  "at s i \<Longrightarrow> length s - i + 1 < n \<Longrightarrow> length args < MAXARGS \<Longrightarrow> answers s i (args_parsed s i args rs) (parseargs n s i args rs)"
proof (induction n arbitrary: i args rs)
  case (Suc n)
  obtain b j where p: "peek s i [0x7C, 0x29, 0x26, 0x3B] = (b, j)" by fastforce
  obtain tok q eq k where g: "gettoken s j = (tok, q, eq, k)" by (cases "gettoken s j") auto
  note P = peek_reads [OF Suc.prems(1) p]
  note G = gettoken_reads [OF P(1) g]
  have c: "cover s i (if tok = 0x61 then [(q, eq)] else []) k" using cover_append [OF P(2) G(3)] by simp
  show ?case
  proof (cases "\<not> b \<and> tok = 0x61 \<and> \<not> MAXARGS \<le> length args + 1")
    case True
    have k: "i < k" "k \<le> length s" "cover s i [(q, eq)] k" using cover_le [OF P(2)] G(2) at_le [OF G(1)] c True by auto
    have r: "answers s i (\<lambda>rs' l. k \<le> l \<and> cover s k (map fst rs') l) (parseredirs n s k)"
      by (rule answers_later [OF parseredirs_answers [OF G(1)]]) (use k Suc.prems in auto)
    have "answers s i (args_parsed s i args rs) (pbind (parseredirs n s k) (\<lambda>rs' l. parseargs n s l (args @ [(q, eq)]) (rs @ rs')))"
    proof (rule answers_bind [OF r])
      fix rs' :: "redir list" and l assume l: "k \<le> l \<and> cover s k (map fst rs') l" "at s l"
      have "answers s l (args_parsed s l (args @ [(q, eq)]) (rs @ rs')) (parseargs n s l (args @ [(q, eq)]) (rs @ rs'))"
        by (rule Suc.IH) (use True k l Suc.prems in auto)
      then show "answers s l (args_parsed s i args rs) (parseargs n s l (args @ [(q, eq)]) (rs @ rs'))"
        by (rule answers_later) (use args_parsed_Cons [OF k(3)] l in auto)
    qed
    then show ?thesis using p g True by auto
  next
    case False
    then show ?thesis using p g P(1) G(1) Suc.prems cover_le [OF P(2)] cover_le [OF c] P(2) c by (auto simp: args_parsed_def)
  qed
qed simp

lemma parsebacks_answers:
  "at s i \<Longrightarrow> length s - i < n \<Longrightarrow> cmd_ok c \<Longrightarrow>
    answers s i (\<lambda>d j. cmd_ok d \<and> tokens d = tokens c \<and> cover s i [] j) (parsebacks n s i c)"
proof (induction n arbitrary: i c)
  case (Suc n)
  obtain b j where p: "peek s i [0x26] = (b, j)" by fastforce
  obtain t q eq k where g: "gettoken s j = (t, q, eq, k)" by (cases "gettoken s j") auto
  show ?case
  proof (cases b)
    case True
    then have p': "peek s i [0x26] = (True, j)" using p by simp
    have M: "at s k" "i < k" "cover s i [] k" using peek_moves [OF Suc.prems(1) p' g] by (simp_all add: symbols_def)
    have "answers s k (\<lambda>d j. cmd_ok d \<and> tokens d = tokens (BACK c) \<and> cover s k [] j) (parsebacks n s k (BACK c))"
      by (rule Suc.IH) (use M at_le [OF M(1)] Suc.prems in auto)
    then have "answers s i (\<lambda>d j. cmd_ok d \<and> tokens d = tokens c \<and> cover s i [] j) (parsebacks n s k (BACK c))"
      by (rule answers_later) (use M cover_append [OF M(3), of "[]"] in auto)
    then show ?thesis using p g True by simp
  next
    case False
    then show ?thesis using p peek_reads [OF Suc.prems(1) p] Suc.prems(3) cover_le [of s i "[]" j] by simp
  qed
qed simp

text \<open>Four calls lie between one \<open>parseline\<close> and the next, and each of those has read a byte.\<close>

definition parses :: "nat \<Rightarrow> u8 list \<Rightarrow> bool" where
  "parses n s \<longleftrightarrow> (\<forall>i. at s i \<longrightarrow>
     (4 * (length s - i) + 5 \<le> n \<longrightarrow> answers s i (parsed s i) (parseline n s i)) \<and>
     (4 * (length s - i) + 4 \<le> n \<longrightarrow> answers s i (parsed s i) (parsepipe n s i)) \<and>
     (4 * (length s - i) + 3 \<le> n \<longrightarrow> answers s i (parsed s i) (parseexec n s i)) \<and>
     (4 * (length s - i) + 2 \<le> n \<longrightarrow> answers s i (parsed s i) (parseblock n s i)))"

lemma parsesD:
  assumes "parses n s" and "at s i"
  shows "4 * (length s - i) + 5 \<le> n \<Longrightarrow> answers s i (parsed s i) (parseline n s i)"
    and "4 * (length s - i) + 4 \<le> n \<Longrightarrow> answers s i (parsed s i) (parsepipe n s i)"
    and "4 * (length s - i) + 3 \<le> n \<Longrightarrow> answers s i (parsed s i) (parseexec n s i)"
    and "4 * (length s - i) + 2 \<le> n \<Longrightarrow> answers s i (parsed s i) (parseblock n s i)"
  using assms by (auto simp: parses_def)

lemma parseline_step:
  assumes I: "parses n s" and i: "at s i" and n: "4 * (length s - i) + 5 \<le> Suc n"
  shows "answers s i (parsed s i) (parseline (Suc n) s i)"
  unfolding parseline.simps
proof (rule answers_bind [OF parsesD(2) [OF I i]])
  fix c j assume j: "parsed s i c j" "i \<le> j" "at s j"
  have b: "answers s j (\<lambda>d k. i \<le> k \<and> parsed s i d k) (parsebacks n s j c)"
    by (rule answers_later [OF parsebacks_answers [OF j(3)]])
      (use n j(1,2) cover_append [of s i "tokens c" j "[]"] in \<open>auto simp: parsed_def\<close>)
  show "answers s j (parsed s i) (pbind (parsebacks n s j c) (\<lambda>c k. case peek s k [0x3B] of (b, l) \<Rightarrow>
       if \<not> b then Some (Inr (c, l))
       else case gettoken s l of (_, _, _, m) \<Rightarrow> pbind (parseline n s m) (\<lambda>d m. Some (Inr (LIST c d, m)))))"
  proof (rule answers_bind [OF b])
    fix c k assume k: "i \<le> k \<and> parsed s i c k" "at s k"
    obtain b l where p: "peek s k [0x3B] = (b, l)" by fastforce
    obtain t q eq m where g: "gettoken s l = (t, q, eq, m)" by (cases "gettoken s l") auto
    note P = peek_reads [OF k(2) p]
    have "answers s k (parsed s i) (pbind (parseline n s m) (\<lambda>d m. Some (Inr (LIST c d, m))))" if b: b
    proof -
      have p': "peek s k [0x3B] = (True, l)" using p b by simp
      have m: "at s m" "k < m" "cover s k [] m" using peek_moves [OF k(2) p' g] by (simp_all add: symbols_def)
      have "answers s k (parsed s m) (parseline n s m)"
        by (rule answers_later [OF parsesD(1) [OF I m(1)]]) (use m(2) at_le [OF m(1)] k(1) n in auto)
      then show ?thesis by (rule answers_bind) (use k parsed_two [of s i c m] parsed_gap(1) [OF _ m(3)] in auto)
    qed
    then show "answers s k (parsed s i) (case peek s k [0x3B] of (b, l) \<Rightarrow>
       if \<not> b then Some (Inr (c, l))
       else case gettoken s l of (_, _, _, m) \<Rightarrow> pbind (parseline n s m) (\<lambda>d m. Some (Inr (LIST c d, m))))"
      using p g k P cover_le [OF P(2)] parsed_gap(1) [OF _ P(2)] by simp
  qed
qed (use n in simp)

lemma parsepipe_step:
  assumes I: "parses n s" and i: "at s i" and n: "4 * (length s - i) + 4 \<le> Suc n"
  shows "answers s i (parsed s i) (parsepipe (Suc n) s i)"
  unfolding parsepipe.simps
proof (rule answers_bind [OF parsesD(3) [OF I i]])
  fix c j assume j: "parsed s i c j" "i \<le> j" "at s j"
  obtain b k where p: "peek s j [0x7C] = (b, k)" by fastforce
  obtain t q eq l where g: "gettoken s k = (t, q, eq, l)" by (cases "gettoken s k") auto
  note P = peek_reads [OF j(3) p]
  have "answers s j (parsed s i) (pbind (parsepipe n s l) (\<lambda>d m. Some (Inr (PIPE c d, m))))" if b: b
  proof -
    have p': "peek s j [0x7C] = (True, k)" using p b by simp
    have m: "at s l" "j < l" "cover s j [] l" using peek_moves [OF j(3) p' g] by (simp_all add: symbols_def)
    have "answers s j (parsed s l) (parsepipe n s l)"
      by (rule answers_later [OF parsesD(2) [OF I m(1)]]) (use m(2) at_le [OF m(1)] j(2) n in auto)
    then show ?thesis by (rule answers_bind) (use j parsed_two [of s i c l] parsed_gap(1) [OF j(1) m(3)] in auto)
  qed
  then show "answers s j (parsed s i) (case peek s j [0x7C] of (b, k) \<Rightarrow>
       if \<not> b then Some (Inr (c, k))
       else case gettoken s k of (_, _, _, l) \<Rightarrow> pbind (parsepipe n s l) (\<lambda>d m. Some (Inr (PIPE c d, m))))"
    using p g P cover_le [OF P(2)] parsed_gap(1) [OF j(1) P(2)] by simp
qed (use n in simp)

lemma parseblock_step:
  assumes I: "parses n s" and i: "at s i" and n: "4 * (length s - i) + 2 \<le> Suc n"
  shows "answers s i (parsed s i) (parseblock (Suc n) s i)"
proof (cases "peek s i [0x28]")
  case p: (Pair b j)
  obtain t q eq k where g: "gettoken s j = (t, q, eq, k)" by (cases "gettoken s j") auto
  show ?thesis
  proof (cases b)
    case True
    then have p1: "peek s i [0x28] = (True, j)" using p by simp
    have k: "at s k" "i < k" "cover s i [] k" using peek_moves [OF i p1 g] by (simp_all add: symbols_def)
    have "answers s i (\<lambda>c l. k \<le> l \<and> parsed s i c l) (parseline n s k)"
      by (rule answers_later [OF parsesD(1) [OF I k(1)]]) (use k at_le [OF k(1)] parsed_gap(2) [OF k(3)] n in auto)
    then show ?thesis
    proof (simp add: p g True, elim answers_bind)
      fix c l assume l: "k \<le> l \<and> parsed s i c l" "at s l"
      obtain b m where p': "peek s l [0x29] = (b, m)" by fastforce
      obtain t q eq r where g': "gettoken s m = (t, q, eq, r)" by (cases "gettoken s m") auto
      have "answers s l (parsed s i) (pbind (parseredirs n s r) (\<lambda>rs r. Some (Inr (foldl redircmd c rs, r))))" if b: b
      proof -
        have p2: "peek s l [0x29] = (True, m)" using p' b by simp
        have m: "at s r" "l < r" "cover s l [] r" using peek_moves [OF l(2) p2 g'] by (simp_all add: symbols_def)
        have c: "cmd_ok c" "cover s i (tokens c) r" using parsed_gap(1) [OF conjunct2 [OF l(1)] m(3)] by (simp_all add: parsed_def)
        have "answers s l (\<lambda>rs. cover s r (map fst rs)) (parseredirs n s r)"
          by (rule answers_later [OF parseredirs_answers [OF m(1)]]) (use m(2) at_le [OF m(1)] l k n in auto)
        then show ?thesis by (rule answers_bind) (use c cover_append [OF c(2)] in \<open>auto simp: parsed_def\<close>)
      qed
      then show "answers s l (parsed s i) (case peek s l [0x29] of (b, m) \<Rightarrow>
         if \<not> b then Some (Inl ''syntax - missing )'')
         else case gettoken s m of (_, _, _, p) \<Rightarrow>
           pbind (parseredirs n s p) (\<lambda>rs r. Some (Inr (foldl redircmd c rs, r))))"
        using p' g' by simp
    qed
  qed (simp add: p)
qed

lemma parseexec_step:
  assumes I: "parses n s" and i: "at s i" and n: "4 * (length s - i) + 3 \<le> Suc n"
  shows "answers s i (parsed s i) (parseexec (Suc n) s i)"
proof (cases "peek s i [0x28]")
  case p: (Pair b j)
  note P = peek_reads [OF i p]
  have ij: "i \<le> j" using cover_le [OF P(2)] .
  show ?thesis
  proof (cases b)
    case True
    have "answers s i (parsed s i) (parseblock n s j)"
      by (rule answers_later [OF parsesD(4) [OF I P(1)]]) (use ij parsed_gap(2) [OF P(2)] n in auto)
    then show ?thesis using p True by simp
  next
    case False
    have r: "answers s i (\<lambda>rs k. j \<le> k \<and> cover s i (map fst rs) k) (parseredirs n s j)"
      by (rule answers_later [OF parseredirs_answers [OF P(1)]]) (use ij cover_append [OF P(2)] n in auto)
    show ?thesis
    proof (simp add: p False, rule answers_bind [OF r])
      fix rs :: "redir list" and k assume k: "j \<le> k \<and> cover s i (map fst rs) k" "at s k"
      have a: "answers s k (args_parsed s k [] rs) (parseargs n s k [] rs)"
        by (rule parseargs_answers) (use k ij n in auto)
      have fin: "parsed s i (foldl redircmd (EXEC args) rs') l" if h: "args_parsed s k [] rs (args, rs') l" for args rs' l
      proof -
        obtain ys where x: "rs' = rs @ ys" "length args < MAXARGS" "sorted_wrt (\<lambda>a b. fst a < fst b) args" "cover s k (args @ map fst ys) l"
          using h by (auto simp: args_parsed_def)
        have "cover s i (args @ map fst rs') l"
          by (rule cover_perm [OF cover_append [OF conjunct2 [OF k(1)] x(4)]]) (auto simp: x(1))
        then show ?thesis using x(2,3) by (simp add: parsed_def)
      qed
      show "answers s k (parsed s i) (pbind (parseargs n s k [] rs) (\<lambda>(args, rs) l.
          Some (Inr (foldl redircmd (EXEC args) rs, l))))"
        by (rule answers_bind [OF a]) (use fin in auto)
    qed
  qed
qed

lemma parser_parses: "parses n s"
proof (induction n)
  case (Suc n)
  then show ?case using parseline_step parsepipe_step parseblock_step parseexec_step
    by (subst parses_def) blast
qed (simp add: parses_def)

section \<open>More fuel changes no answer\<close>

definition refines :: "'a option \<Rightarrow> 'a option \<Rightarrow> bool" where
  "refines r r' \<longleftrightarrow> r = None \<or> r = r'"

lemma refines_refl [simp]: "refines r r" "refines None r"
  by (simp_all add: refines_def)

lemma refines_bind:
  "refines r r' \<Longrightarrow> (\<And>x j. refines (f x j) (g x j)) \<Longrightarrow> refines (pbind r f) (pbind r' g)"
  by (auto simp: refines_def pbind_def split: option.splits sum.splits)

lemma parseredirs_refines: "n \<le> m \<Longrightarrow> refines (parseredirs n s i) (parseredirs m s i)"
proof (induction n arbitrary: i m)
  case (Suc n)
  then obtain k where "m = Suc k" "n \<le> k" by (cases m) auto
  then show ?case using Suc.IH by (auto intro!: refines_bind split: prod.splits)
qed simp

lemma parseargs_refines: "n \<le> m \<Longrightarrow> refines (parseargs n s i args rs) (parseargs m s i args rs)"
proof (induction n arbitrary: i args rs m)
  case (Suc n)
  then obtain k where "m = Suc k" "n \<le> k" by (cases m) auto
  then show ?case using Suc.IH by (auto intro!: refines_bind parseredirs_refines split: prod.splits)
qed simp

lemma parsebacks_refines: "n \<le> m \<Longrightarrow> refines (parsebacks n s i c) (parsebacks m s i c)"
proof (induction n arbitrary: i c m)
  case (Suc n)
  then obtain k where "m = Suc k" "n \<le> k" by (cases m) auto
  then show ?case using Suc.IH by (auto split: prod.splits)
qed simp

lemma parser_refines:
  "n \<le> m \<Longrightarrow> refines (parseline n s i) (parseline m s i) \<and> refines (parsepipe n s i) (parsepipe m s i) \<and>
   refines (parseblock n s i) (parseblock m s i) \<and> refines (parseexec n s i) (parseexec m s i)"
proof (induction n arbitrary: i m)
  case (Suc n)
  then obtain k where k: "m = Suc k" "n \<le> k" by (cases m) auto
  note IH = Suc.IH [OF k(2)]
  show ?case unfolding k(1)
    by (intro conjI) (auto intro!: refines_bind parseredirs_refines parseargs_refines parsebacks_refines k(2) IH [THEN conjunct1]
        IH [THEN conjunct2, THEN conjunct1] IH [THEN conjunct2, THEN conjunct2, THEN conjunct1] IH [THEN conjunct2, THEN conjunct2, THEN conjunct2]
        split: prod.splits)
qed simp

lemma parsecmd_more:
  assumes "parsecmd n s = Some r"
  shows "parsecmd (n + m) s = Some r"
  using assms parser_refines [of n "n + m" s 0] by (auto simp: parsecmd_def refines_def)

lemma at_0: "at s 0"
  by (simp add: at_def)

lemma parsecmd_enough: "\<exists>r. parsecmd (4 * length s + 5) s = Some r"
  using parsesD(1) [OF parser_parses at_0, of s "4 * length s + 5"]
  by (auto simp: parsecmd_def answers_def split: option.splits sum.splits prod.splits)

lemma parsecmd_parsed:
  assumes "parsecmd n s = Some (Inr (c, s'))"
  shows "cmd_ok c" "cover s 0 (tokens c) (length s)" "s' = nulterminate c s"
proof -
  define m where "m = n + (4 * length s + 5)"
  have "parsecmd m s = Some (Inr (c, s'))" unfolding m_def by (rule parsecmd_more [OF assms])
  then obtain i b where l: "parseline m s 0 = Some (Inr (c, i))" "peek s i [] = (b, length s)" "s' = nulterminate c s"
    by (auto simp: parsecmd_def split: option.splits sum.splits prod.splits if_splits)
  have i: "at s i" "parsed s 0 c i" using parsesD(1) [OF parser_parses at_0, of s m] l(1) by (simp_all add: m_def)
  then have "parsed s 0 c (length s)" using parsed_gap(1) [OF i(2)] peek_reads(2) [OF i(1) l(2)] by blast
  then show "cmd_ok c" "cover s 0 (tokens c) (length s)" "s' = nulterminate c s" using l(3) by (simp_all add: parsed_def)
qed

lemma parsecmd_tokens:
  assumes "parsecmd n s = Some (Inr (c, s'))"
  shows "distinct (tokens c)" "set (tokens c) = {t. token_ok s t}"
  using parsecmd_parsed(2) [OF assms] by (auto simp: cover_def words_in_def dest: token_less)

section \<open>The words after nulterminate\<close>

lemma nulterminate_tokens: "nulterminate c s = fold (\<lambda>(_, eq) s. s[eq := 0]) (tokens c) s"
  by (induction c arbitrary: s) auto

lemma cut_length [simp]: "length (fold (\<lambda>(_, eq) s. s[eq := 0]) ts s) = length s"
  by (induction ts arbitrary: s) auto

lemma cut_nth:
  "j < length s \<Longrightarrow> fold (\<lambda>(_, eq) s. s[eq := 0]) ts s ! j = (if j \<in> snd ` set ts then 0 else s ! j)"
proof (induction ts arbitrary: s)
  case (Cons t ts)
  then show ?case by (cases t) (simp add: nth_list_update)
qed simp

text \<open>The C string at \<open>q\<close>, and the word between two indices.\<close>

definition cstring_at :: "u8 list \<Rightarrow> nat \<Rightarrow> u8 list" where
  "cstring_at s q = takeWhile (\<lambda>c. c \<noteq> 0) (drop q s)"

definition word_of :: "u8 list \<Rightarrow> nat \<times> nat \<Rightarrow> u8 list" where
  "word_of s t = take (snd t - fst t) (drop (fst t) s)"

lemma cut_word:
  assumes "0 \<notin> set s" and "\<forall>t\<in>set ts. token_ok s t" and "t \<in> set ts"
  shows "cstring_at (fold (\<lambda>(_, eq) s. s[eq := 0]) ts s) (fst t) = word_of s t"
proof -
  obtain q eq where t: "t = (q, eq)" by fastforce
  let ?s = "fold (\<lambda>(_, eq) s. s[eq := 0]) ts s"
  have tok: "token_ok s (q, eq)" using assms(2,3) t by simp
  then have ok: "q < eq" "eq \<le> length s" "\<And>j. q \<le> j \<Longrightarrow> j < eq \<Longrightarrow> is_word (s ! j)" by (auto simp: token_ok_def)
  have keep: "?s ! j = s ! j" "s ! j \<noteq> 0" if j: "q \<le> j" "j < eq" for j
  proof -
    have "\<not> is_word (s ! e)" if "(p, e) \<in> set ts" "e < length s" for p e using assms(2) that by (auto simp: token_ok_def)
    then have "j \<notin> snd ` set ts" using ok(2,3) j by force
    then show "?s ! j = s ! j" using j ok(2) by (simp add: cut_nth)
    show "s ! j \<noteq> 0" using assms(1) j ok(2) nth_mem [of j s] by force
  qed
  have "drop q ?s = word_of s t @ drop eq ?s"
    by (rule nth_equalityI) (use ok keep t in \<open>auto simp: word_of_def nth_append add.commute\<close>)
  moreover have "\<forall>c\<in>set (word_of s t). c \<noteq> 0"
    using assms(1) by (auto simp: word_of_def dest!: in_set_takeD in_set_dropD)
  moreover have "takeWhile (\<lambda>c. c \<noteq> 0) (drop eq ?s) = []"
    using assms(3) t by (cases "eq < length s") (force simp: Cons_nth_drop_Suc [symmetric] cut_nth)+
  ultimately show ?thesis using t by (simp add: cstring_at_def takeWhile_append2)
qed

section \<open>Properties\<close>

text \<open>C38. On every line the parser ends: it returns a command or panics once its calls may be \<open>4 * length s + 5\<close> deep, and no
  greater depth changes its answer.\<close>

theorem parsecmd_terminates:
  "parsecmd (4 * length s + 5) s \<noteq> None \<and> parsecmd (4 * length s + 5 + n) s = parsecmd (4 * length s + 5) s"
  using parsecmd_enough [of s] parsecmd_more by fastforce

text \<open>C39. The commands the parser returns have the words of the line, all of them, each once and in order: the arguments and file names
  of the command are exactly the maximal non-empty runs of bytes of the line that are neither white space nor symbols; every simple command has its
  arguments in the order of the line, and fewer than \<open>MAXARGS\<close> of them, so that the null pointer behind them is inside \<open>argv\<close>; and the
  words of the left part of a pipe or a list come before those of the right part.\<close>

theorem parsecmd_well_formed:
  "parsecmd n s = Some (Inr (c, s')) \<Longrightarrow> cmd_ok c \<and> distinct (tokens c) \<and> set (tokens c) = {t. token_ok s t}"
  by (intro conjI parsecmd_parsed parsecmd_tokens)

text \<open>C40. The zeros that \<open>nulterminate\<close> writes for one token damage no other: in the line it leaves, the C string at the start of
  every argument and every file name of the command is exactly the word that was there.\<close>

theorem parsecmd_words:
  assumes "0 \<notin> set s" and "parsecmd n s = Some (Inr (c, s'))"
  shows "list_all (\<lambda>t. cstring_at s' (fst t) = word_of s t) (tokens c)"
  using cut_word [OF assms(1)] parsecmd_tokens(2) [OF assms(2)] parsecmd_parsed(3) [OF assms(2)]
  by (simp add: list_all_iff nulterminate_tokens)

text \<open>The line \<open>a>b|c\<close>.\<close>

definition demo_line :: "u8 list" where "demo_line = [0x61, 0x3E, 0x62, 0x7C, 0x63]"

lemma demo_line_parsed:
  "parsecmd 25 demo_line =
     Some (Inr (PIPE (REDIR (EXEC [(0, 1)]) 2 3 0x201 1) (EXEC [(4, 5)]), [0x61, 0, 0x62, 0, 0x63]))"
  by code_simp

theorem parsecmd_well_formed_witness:
  "cmd_ok (PIPE (REDIR (EXEC [(0, 1)]) 2 3 0x201 1) (EXEC [(4, 5)])) \<and> {t. token_ok demo_line t} = {(0, 1), (2, 3), (4, 5)}"
  using parsecmd_well_formed [OF demo_line_parsed] by auto

theorem parsecmd_words_witness:
  "list_all (\<lambda>t. cstring_at [0x61, 0, 0x62, 0, 0x63] (fst t) = word_of demo_line t) [(0, 1), (2, 3), (4, 5)]"
  using parsecmd_words [OF _ demo_line_parsed] by (simp add: demo_line_def)

end
