(* ===== verification/Umalloc.thy ===== *)
theory Umalloc
  imports Prelude
begin

text \<open>
  The memory allocator of the user programs, \<open>umalloc.c\<close>. The headers of the blocks are two maps from their addresses, for the
  link and the size in units of a header, eight bytes; the address of \<open>base\<close> is a parameter, and so is \<open>sbrk\<close>, which takes a
  number of bytes and the state of the system and gives the old end of the memory or \<open>-1\<close>. Headers lie eight bytes apart at least,
  which the invariant says, so that no two of them share a byte.

  The walks along the circular list of free blocks have fuel, and so has the loop of \<open>malloc\<close>; the properties say how much is
  enough. Shown here: the list keeps its form, and \<open>free\<close> and \<open>malloc\<close> add and take exactly the bytes of the block.
\<close>

record uheap =
  h_ptr :: "u32 \<Rightarrow> u32"
  h_size :: "u32 \<Rightarrow> u32"
  freep :: u32

definition set_ptr :: "u32 \<Rightarrow> u32 \<Rightarrow> uheap \<Rightarrow> uheap" where
  "set_ptr p v h = h\<lparr>h_ptr := (h_ptr h)(p := v)\<rparr>"

definition set_size :: "u32 \<Rightarrow> u32 \<Rightarrow> uheap \<Rightarrow> uheap" where
  "set_size p v h = h\<lparr>h_size := (h_size h)(p := v)\<rparr>"

abbreviation header_add :: "u32 \<Rightarrow> u32 \<Rightarrow> u32" where
  "header_add p n \<equiv> p + 8 * n"

section \<open>The operations\<close>

text \<open>The loop of \<open>free\<close> that looks for the place of the block.\<close>

fun free_find :: "nat \<Rightarrow> uheap \<Rightarrow> u32 \<Rightarrow> u32 \<Rightarrow> u32 option" where
  "free_find 0 h bp p = None"
| "free_find (Suc n) h bp p =
     (if bp > p \<and> bp < h_ptr h p then Some p
      else if p \<ge> h_ptr h p \<and> (bp > p \<or> bp < h_ptr h p) then Some p
      else free_find n h bp (h_ptr h p))"

definition free_link :: "u32 \<Rightarrow> u32 \<Rightarrow> uheap \<Rightarrow> uheap" where
  "free_link bp p h =
     (let h = (if header_add bp (h_size h bp) = h_ptr h p
               then (let h = set_size bp (h_size h bp + h_size h (h_ptr h p)) h in set_ptr bp (h_ptr h (h_ptr h p)) h)
               else set_ptr bp (h_ptr h p) h);
          h = (if header_add p (h_size h p) = bp
               then (let h = set_size p (h_size h p + h_size h bp) h in set_ptr p (h_ptr h bp) h)
               else set_ptr p bp h)
      in h\<lparr>freep := p\<rparr>)"

definition ufree :: "nat \<Rightarrow> u32 \<Rightarrow> uheap \<Rightarrow> uheap option" where
  "ufree n ap h = (let bp = ap - 8 in map_option (\<lambda>p. free_link bp p h) (free_find n h bp (freep h)))"

definition morecore :: "nat \<Rightarrow> (u32 \<Rightarrow> 'k \<Rightarrow> u32 \<times> 'k) \<Rightarrow> u32 \<Rightarrow> uheap \<Rightarrow> 'k \<Rightarrow> (u32 \<times> uheap \<times> 'k) option" where
  "morecore n sbrk nu h k =
     (let nu = (if nu < 4096 then 4096 else nu); (p, k) = sbrk (nu * 8) k
      in if p = - 1 then Some (0, h, k)
         else map_option (\<lambda>h. (freep h, h, k)) (ufree n (header_add p 1) (set_size p nu h)))"

text \<open>A block that is large enough: taken off the list, or its tail cut off.\<close>

definition take_block :: "u32 \<Rightarrow> u32 \<Rightarrow> u32 \<Rightarrow> uheap \<Rightarrow> u32 \<times> uheap" where
  "take_block nunits prevp p h =
     (let (p, h) = (if h_size h p = nunits then (p, set_ptr prevp (h_ptr h p) h)
        else (let h = set_size p (h_size h p - nunits) h; p = header_add p (h_size h p) in (p, set_size p nunits h)))
      in (header_add p 1, h\<lparr>freep := prevp\<rparr>))"

fun malloc_loop :: "nat \<Rightarrow> (u32 \<Rightarrow> 'k \<Rightarrow> u32 \<times> 'k) \<Rightarrow> u32 \<Rightarrow> u32 \<Rightarrow> u32 \<Rightarrow> uheap \<Rightarrow> 'k \<Rightarrow> (u32 \<times> uheap \<times> 'k) option" where
  "malloc_loop 0 sbrk nunits prevp p h k = None"
| "malloc_loop (Suc n) sbrk nunits prevp p h k =
     (if h_size h p \<ge> nunits then (case take_block nunits prevp p h of (r, h) \<Rightarrow> Some (r, h, k))
      else if p = freep h then
        (case morecore n sbrk nunits h k of
           None \<Rightarrow> None
         | Some (p, h, k) \<Rightarrow> if p = 0 then Some (0, h, k) else malloc_loop n sbrk nunits p (h_ptr h p) h k)
      else malloc_loop n sbrk nunits p (h_ptr h p) h k)"

definition nunits_of :: "u32 \<Rightarrow> u32" where
  "nunits_of nbytes = (nbytes + 8 - 1) div 8 + 1"

definition umalloc :: "nat \<Rightarrow> u32 \<Rightarrow> (u32 \<Rightarrow> 'k \<Rightarrow> u32 \<times> 'k) \<Rightarrow> u32 \<Rightarrow> uheap \<Rightarrow> 'k \<Rightarrow> (u32 \<times> uheap \<times> 'k) option" where
  "umalloc n base sbrk nbytes h k =
     (let h = (if freep h = 0 then set_size base 0 ((set_ptr base base h)\<lparr>freep := base\<rparr>) else h)
      in malloc_loop n sbrk (nunits_of nbytes) (freep h) (h_ptr h (freep h)) h k)"

section \<open>The free list\<close>

text \<open>The blocks \<open>xs\<close> between \<open>a\<close> and \<open>c\<close>, linked one way.\<close>

fun lseg :: "(u32 \<Rightarrow> u32) \<Rightarrow> u32 \<Rightarrow> u32 list \<Rightarrow> u32 \<Rightarrow> bool" where
  "lseg nx a [] c \<longleftrightarrow> nx a = c"
| "lseg nx a (x # xs) c \<longleftrightarrow> nx a = x \<and> lseg nx x xs c"

lemma lseg_append: "lseg nx a (xs @ x # ys) c \<longleftrightarrow> lseg nx a xs x \<and> lseg nx x ys c"
  by (induction xs arbitrary: a) auto

lemma lseg_upd [simp]: "u \<noteq> a \<Longrightarrow> u \<notin> set xs \<Longrightarrow> lseg (nx(u := v)) a xs c = lseg nx a xs c"
  by (induction xs arbitrary: a) auto

text \<open>Blocks one behind the other from the address \<open>e\<close> on, none of them empty; and where they end.\<close>

abbreviation hi :: "(u32 \<Rightarrow> u32) \<Rightarrow> u32 \<Rightarrow> nat" where
  "hi sz y \<equiv> unat y + 8 * unat (sz y)"

fun laid :: "(u32 \<Rightarrow> u32) \<Rightarrow> nat \<Rightarrow> u32 list \<Rightarrow> bool" where
  "laid sz e [] \<longleftrightarrow> True"
| "laid sz e (y # ys) \<longleftrightarrow> e \<le> unat y \<and> 0 < sz y \<and> hi sz y < 2 ^ 32 \<and> laid sz (hi sz y) ys"

fun laid_end :: "(u32 \<Rightarrow> u32) \<Rightarrow> nat \<Rightarrow> u32 list \<Rightarrow> nat" where
  "laid_end sz e [] = e"
| "laid_end sz e (y # ys) = laid_end sz (hi sz y) ys"

lemma laid_append: "laid sz e (xs @ ys) \<longleftrightarrow> laid sz e xs \<and> laid sz (laid_end sz e xs) ys"
  by (induction xs arbitrary: e) auto

lemma laid_upd [simp]: "u \<notin> set xs \<Longrightarrow> laid (sz(u := v)) e xs = laid sz e xs"
  by (induction xs arbitrary: e) auto

lemma laid_end_upd [simp]: "u \<notin> set xs \<Longrightarrow> laid_end (sz(u := v)) e xs = laid_end sz e xs"
  by (induction xs arbitrary: e) auto

lemma laid_later: "laid sz e xs \<Longrightarrow> e' \<le> e \<Longrightarrow> laid sz e' xs"
  by (cases xs) auto

lemma laid_above: "laid sz e xs \<Longrightarrow> y \<in> set xs \<Longrightarrow> e \<le> unat y \<and> 0 < sz y \<and> hi sz y < 2 ^ 32"
  by (induction xs arbitrary: e) fastforce+

lemma laid_below: "laid sz e xs \<Longrightarrow> y \<in> set xs \<Longrightarrow> hi sz y \<le> laid_end sz e xs"
proof (induction xs arbitrary: e)
  case (Cons x xs)
  have "e \<le> laid_end sz e zs" if "laid sz e zs" for e zs
    using that by (induction zs arbitrary: e) fastforce+
  then show ?case using Cons by auto
qed simp

lemma pos_unat: "0 < (x :: u32) \<Longrightarrow> 0 < unat x"
  by (simp add: word_gt_0 unat_gt_0)

lemma laid_distinct: "laid sz e xs \<Longrightarrow> distinct xs"
proof (induction xs arbitrary: e)
  case (Cons x xs)
  then show ?case using laid_above [of sz "hi sz x" xs x] pos_unat [of "sz x"] by auto
qed simp

definition bytes_of :: "(u32 \<Rightarrow> u32) \<Rightarrow> u32 list \<Rightarrow> nat set" where
  "bytes_of sz ys = (\<Union>y\<in>set ys. {unat y..<hi sz y})"

lemma bytes_of_simps [simp]:
  "bytes_of sz [] = {}" "bytes_of sz (y # ys) = {unat y..<hi sz y} \<union> bytes_of sz ys"
  "bytes_of sz (xs @ ys) = bytes_of sz xs \<union> bytes_of sz ys"
  by (auto simp: bytes_of_def)

lemma bytes_of_upd [simp]: "u \<notin> set xs \<Longrightarrow> bytes_of (sz(u := v)) xs = bytes_of sz xs"
  unfolding bytes_of_def by (rule SUP_cong) auto

definition heap_ok :: "u32 \<Rightarrow> u32 list \<Rightarrow> uheap \<Rightarrow> bool" where
  "heap_ok b ys h \<longleftrightarrow> 0 < b \<and> h_size h b = 0 \<and> lseg (h_ptr h) b ys b \<and> laid (h_size h) (unat b + 8) ys \<and> freep h \<in> insert b (set ys)"

definition fresh_block :: "u32 \<Rightarrow> u32 list \<Rightarrow> uheap \<Rightarrow> u32 \<Rightarrow> bool" where
  "fresh_block b ys h bp \<longleftrightarrow> unat b + 8 \<le> unat bp \<and> 0 < h_size h bp \<and> hi (h_size h) bp < 2 ^ 32 \<and>
     {unat bp..<hi (h_size h) bp} \<inter> bytes_of (h_size h) ys = {}"

text \<open>The place of a block among the blocks of the list.\<close>

lemma laid_place:
  assumes "laid sz e ys" and "e \<le> unat bp" and "0 < sz bp" and "hi sz bp < 2 ^ 32" and "{unat bp..<hi sz bp} \<inter> bytes_of sz ys = {}"
  shows "\<exists>l r. ys = l @ r \<and> laid sz e (l @ bp # r)"
  using assms
proof (induction ys arbitrary: e)
  case Nil
  then show ?case by (intro exI [of _ "[]"]) simp
next
  case (Cons y ys)
  have y: "0 < unat (sz y)" "0 < unat (sz bp)" using Cons.prems(1,3) by (auto intro: pos_unat)
  have dis: "hi sz bp \<le> unat y \<or> hi sz y \<le> unat bp"
  proof (rule ccontr)
    assume "\<not> (hi sz bp \<le> unat y \<or> hi sz y \<le> unat bp)"
    then have "max (unat bp) (unat y) \<in> {unat bp..<hi sz bp} \<inter> {unat y..<hi sz y}" using y by auto
    then show False using Cons.prems(5) unfolding bytes_of_simps by blast
  qed
  show ?case
  proof (cases "hi sz bp \<le> unat y")
    case True
    then show ?thesis using Cons.prems by (intro exI [of _ "[]"] exI [of _ "y # ys"]) auto
  next
    case False
    then obtain l r where "ys = l @ r" "laid sz (hi sz y) (l @ bp # r)"
      using Cons.IH [of "hi sz y"] Cons.prems dis by auto
    then show ?thesis using Cons.prems by (intro exI [of _ "y # l"] exI [of _ r]) auto
  qed
qed

lemma ring_split:
  "lseg nx b (l @ r) c \<longleftrightarrow> lseg nx (last (b # l)) r c \<and> (l \<noteq> [] \<longrightarrow> lseg nx b (butlast l) (last l))"
  by (cases l rule: rev_cases) (auto simp: lseg_append)

lemma lseg_from: "lseg nx a xs c \<Longrightarrow> p \<notin> set xs \<Longrightarrow> lseg (nx(p := nx a)) p xs c"
  by (cases xs) auto

text \<open>What is known when the block \<open>bp\<close> is put between the blocks \<open>l\<close> and the blocks \<open>r\<close>, and that they differ.\<close>

definition between :: "u32 \<Rightarrow> u32 list \<Rightarrow> u32 \<Rightarrow> u32 list \<Rightarrow> uheap \<Rightarrow> bool" where
  "between b l bp r h \<longleftrightarrow> 0 < b \<and> h_size h b = 0 \<and> laid (h_size h) (unat b + 8) (l @ bp # r) \<and>
     (l \<noteq> [] \<longrightarrow> lseg (h_ptr h) b (butlast l) (last l))"

lemma between_facts:
  assumes "between b l bp r h"
  shows "distinct (b # l @ bp # r)" "\<And>x. x \<in> set (l @ bp # r) \<Longrightarrow> unat b + 8 \<le> unat x \<and> hi (h_size h) x < 2 ^ 32 \<and> 0 < h_size h x"
    "\<And>x. x \<in> set l \<Longrightarrow> hi (h_size h) x \<le> unat bp" "\<And>x. x \<in> set r \<Longrightarrow> hi (h_size h) bp \<le> unat x"
proof -
  have L: "laid (h_size h) (unat b + 8) (l @ bp # r)" using assms by (simp add: between_def)
  show A: "unat b + 8 \<le> unat x \<and> hi (h_size h) x < 2 ^ 32 \<and> 0 < h_size h x" if "x \<in> set (l @ bp # r)" for x
    using laid_above [OF L that] by simp
  show "distinct (b # l @ bp # r)" using laid_distinct [OF L] A [of b] by auto
  show "hi (h_size h) x \<le> unat bp" if "x \<in> set l" for x
    using L that laid_below [of "h_size h" "unat b + 8" l x] by (auto simp: laid_append)
  show "hi (h_size h) bp \<le> unat x" if "x \<in> set r" for x
    using L that laid_above [of "h_size h" "hi (h_size h) bp" r x] by (auto simp: laid_append)
qed

lemma unat_header_add:
  assumes "unat p + 8 * unat n < 2 ^ 32"
  shows "unat (header_add p n) = unat p + 8 * unat n"
proof -
  have "unat (8 * n) = 8 * unat n" using assms by (simp add: unat_word_ariths)
  then show ?thesis using assms by (simp add: unat_word_ariths)
qed

lemma header_add_eq:
  "unat p + 8 * unat n < 2 ^ 32 \<Longrightarrow> header_add p n = q \<longleftrightarrow> unat p + 8 * unat n = unat q"
  by (simp add: word_unat_eq_iff unat_header_add)

section \<open>Putting a block into the list\<close>

text \<open>The two halves of \<open>free_link\<close>: joining the block with the one behind it, and with the one before it.\<close>

definition join_next :: "u32 \<Rightarrow> u32 \<Rightarrow> uheap \<Rightarrow> uheap" where
  "join_next bp p h = (if header_add bp (h_size h bp) = h_ptr h p
     then (let h = set_size bp (h_size h bp + h_size h (h_ptr h p)) h in set_ptr bp (h_ptr h (h_ptr h p)) h)
     else set_ptr bp (h_ptr h p) h)"

definition join_prev :: "u32 \<Rightarrow> u32 \<Rightarrow> uheap \<Rightarrow> uheap" where
  "join_prev bp p h = (if header_add p (h_size h p) = bp
     then (let h = set_size p (h_size h p + h_size h bp) h in set_ptr p (h_ptr h bp) h)
     else set_ptr p bp h)"

lemma free_link_joins: "free_link bp p h = (join_prev bp p (join_next bp p h))\<lparr>freep := p\<rparr>"
  by (simp add: free_link_def join_next_def join_prev_def Let_def)

lemma join_next_between:
  assumes B: "between b l bp r h" and p: "p = last (b # l)" and S: "lseg (h_ptr h) p r b"
  shows "\<exists>r'. between b l bp r' (join_next bp p h) \<and> lseg (h_ptr (join_next bp p h)) bp r' b \<and>
    bytes_of (h_size (join_next bp p h)) (l @ bp # r') = bytes_of (h_size h) (l @ bp # r) \<and>
    h_size h bp \<le> h_size (join_next bp p h) bp \<and> length r' \<le> length r"
proof -
  note F = between_facts [OF B]
  have L: "laid (h_size h) (unat b + 8) (l @ bp # r)" and P: "l \<noteq> [] \<Longrightarrow> lseg (h_ptr h) b (butlast l) (last l)"
    and b: "0 < b" "h_size h b = 0" using B by (auto simp: between_def)
  have bp: "hi (h_size h) bp < 2 ^ 32" "bp \<noteq> p" "bp \<noteq> b" "bp \<notin> set r" "bp \<notin> set l" using F(1) F(2) [of bp] p by auto
  have bl: "bp \<notin> set (butlast l)" using bp(5) in_set_butlastD by fast
  show ?thesis
  proof (cases "\<exists>y r'. r = y # r' \<and> hi (h_size h) bp = unat y")
    case True
    then obtain y r' where r: "r = y # r'" "hi (h_size h) bp = unat y" by blast
    have y: "h_ptr h p = y" "hi (h_size h) y < 2 ^ 32" using S r F(2) [of y] by auto
    have sz: "unat (h_size h bp + h_size h y) = unat (h_size h bp) + unat (h_size h y)"
      using y(2) r(2) by (simp add: unat_word_ariths)
    have e: "unat bp + 8 * unat (h_size h bp + h_size h y) = hi (h_size h) y" using sz r(2) by simp
    have pos: "0 < h_size h bp + h_size h y" using sz F(2) [of bp] pos_unat [of "h_size h bp"] by (simp add: word_less_nat_alt)
    have j: "join_next bp p h = set_ptr bp (h_ptr h y) (set_size bp (h_size h bp + h_size h y) h)"
      using y(1) r(2) bp(1,2,4) r(1) by (simp add: join_next_def header_add_eq Let_def set_size_def)
    have "laid (h_size (join_next bp p h)) (unat b + 8) (l @ bp # r')"
      using L r(1) y(2) bp pos by (simp add: j set_ptr_def set_size_def laid_append e)
    moreover have "lseg (h_ptr (join_next bp p h)) bp r' b"
      using S r bp lseg_from [of "h_ptr h" y r' b bp] by (simp add: j set_ptr_def set_size_def)
    moreover have "bytes_of (h_size (join_next bp p h)) (l @ bp # r') = bytes_of (h_size h) (l @ bp # r)"
      using r bp by (auto simp: j set_ptr_def set_size_def e)
    moreover have "h_size h bp \<le> h_size (join_next bp p h) bp" using sz by (simp add: j set_ptr_def set_size_def word_le_nat_alt)
    ultimately show ?thesis using b P bp bl r(1) by (intro exI [of _ r']) (auto simp: between_def j set_ptr_def set_size_def)
  next
    case False
    have "hi (h_size h) bp \<noteq> unat (h_ptr h p)"
      using S False F(2) [of bp] by (cases r) auto
    then have j: "join_next bp p h = set_ptr bp (h_ptr h p) h" using bp(1) by (simp add: join_next_def header_add_eq)
    show ?thesis unfolding j using b L P bp bl lseg_from [OF S, of bp]
      by (intro exI [of _ r]) (auto simp: between_def set_ptr_def)
  qed
qed

lemma join_prev_between:
  assumes B: "between b l bp r h" and p: "p = last (b # l)" and S: "lseg (h_ptr h) bp r b"
  shows "\<exists>ys. heap_ok b ys ((join_prev bp p h)\<lparr>freep := p\<rparr>) \<and>
    bytes_of (h_size (join_prev bp p h)) ys = bytes_of (h_size h) (l @ bp # r) \<and>
    (\<exists>y\<in>set ys. h_size h bp \<le> h_size (join_prev bp p h) y) \<and> length ys \<le> Suc (length (l @ r))"
proof -
  note F = between_facts [OF B]
  have L: "laid (h_size h) (unat b + 8) (l @ bp # r)" and P: "l \<noteq> [] \<Longrightarrow> lseg (h_ptr h) b (butlast l) (last l)"
    and b: "0 < b" "h_size h b = 0" using B by (auto simp: between_def)
  have pin: "p \<in> insert b (set l)" using p by auto
  have np: "p \<noteq> bp" "p \<notin> set r" using F(1) pin by auto
  show ?thesis
  proof (cases "l \<noteq> [] \<and> hi (h_size h) p = unat bp")
    case True
    then obtain l' where l: "l = l' @ [p]" using p by (cases l rule: rev_cases) auto
    have d: "p \<notin> set l'" "p \<noteq> b" using F(1) l by auto
    have h: "hi (h_size h) p < 2 ^ 32" "hi (h_size h) bp < 2 ^ 32" using F(2) l by auto
    have sz: "unat (h_size h p + h_size h bp) = unat (h_size h p) + unat (h_size h bp)"
      using True h(2) by (simp add: unat_word_ariths)
    have e: "unat p + 8 * unat (h_size h p + h_size h bp) = hi (h_size h) bp" using sz True by simp
    have pos: "0 < h_size h p + h_size h bp" using sz F(2) [of bp] pos_unat [of "h_size h bp"] by (simp add: word_less_nat_alt)
    have j: "join_prev bp p h = set_ptr p (h_ptr h bp) (set_size p (h_size h p + h_size h bp) h)"
      using True h(1) np by (simp add: join_prev_def header_add_eq Let_def set_size_def)
    have "lseg (h_ptr (join_prev bp p h)) b (l' @ p # r) b"
      using P l S d np lseg_from [OF S np(2)] by (simp add: lseg_append j set_ptr_def set_size_def)
    moreover have "laid (h_size (join_prev bp p h)) (unat b + 8) (l' @ p # r)"
      using L l d np h pos by (simp add: j set_ptr_def set_size_def laid_append e)
    moreover have "bytes_of (h_size (join_prev bp p h)) (l' @ p # r) = bytes_of (h_size h) (l @ bp # r)"
      using l d np True by (auto simp: j set_ptr_def set_size_def e)
    moreover have "h_size h bp \<le> h_size (join_prev bp p h) p" using sz by (simp add: j set_ptr_def set_size_def word_le_nat_alt)
    ultimately show ?thesis using b d l by (intro exI [of _ "l' @ p # r"]) (auto simp: heap_ok_def j set_ptr_def set_size_def)
  next
    case False
    have "hi (h_size h) p < 2 ^ 32" "hi (h_size h) p \<noteq> unat bp"
      using False b F(2) [of p] F(2) [of bp] p pin by (auto split: if_splits)
    then have j: "join_prev bp p h = set_ptr p bp h" by (simp add: join_prev_def header_add_eq)
    have "p \<notin> insert b (set (butlast l))" if "l \<noteq> []"
      using F(1) that p by (cases l rule: rev_cases) auto
    then have "lseg (h_ptr (join_prev bp p h)) b (l @ bp # r) b"
      unfolding ring_split j p [symmetric] using P S np p by (auto simp: set_ptr_def)
    then show ?thesis using b L pin by (intro exI [of _ "l @ bp # r"]) (auto simp: heap_ok_def j set_ptr_def)
  qed
qed

section \<open>Finding the place of a block\<close>

definition stops :: "uheap \<Rightarrow> u32 \<Rightarrow> u32 \<Rightarrow> bool" where
  "stops h bp p \<longleftrightarrow> p < bp \<and> bp < h_ptr h p \<or> h_ptr h p \<le> p \<and> (p < bp \<or> bp < h_ptr h p)"

lemma free_find_step: "free_find (Suc n) h bp p = (if stops h bp p then Some p else free_find n h bp (h_ptr h p))"
  by (auto simp: stops_def)

lemma free_find_walk:
  "lseg (h_ptr h) a xs c \<Longrightarrow> list_all (\<lambda>x. \<not> stops h bp x) (a # xs) \<Longrightarrow> Suc (length xs) \<le> n \<Longrightarrow>
    free_find n h bp a = free_find (n - Suc (length xs)) h bp c"
proof (induction xs arbitrary: a n)
  case Nil
  then show ?case by (cases n) (auto simp: free_find_step simp del: free_find.simps(2))
next
  case (Cons x xs)
  then show ?case by (cases n) (auto simp: free_find_step simp del: free_find.simps(2))
qed

lemma lseg_suffix:
  "lseg nx a xs c \<Longrightarrow> f \<in> set (a # xs) \<Longrightarrow> \<exists>zs. lseg nx f zs c \<and> set zs \<subseteq> set xs \<and> length zs \<le> length xs"
proof (induction xs arbitrary: a)
  case (Cons x xs)
  show ?case
  proof (cases "f = a")
    case True
    then show ?thesis using Cons.prems by blast
  next
    case False
    then obtain zs where "lseg nx f zs c" "set zs \<subseteq> set xs" "length zs \<le> length xs" using Cons.IH [of x] Cons.prems by auto
    then show ?thesis by (intro exI [of _ zs]) auto
  qed
qed auto

lemma lseg_next:
  assumes "lseg nx a xs c" and "laid sz e xs" and "unat a < e" and "x \<in> set (a # xs)"
  shows "nx x = c \<or> nx x \<in> set xs \<and> x < nx x"
  using assms
proof (induction xs arbitrary: a e)
  case (Cons y xs)
  show ?case
  proof (cases "x = a")
    case True
    then show ?thesis using Cons.prems by (auto simp: word_less_nat_alt)
  next
    case False
    have "unat y < hi sz y" using Cons.prems(2) pos_unat [of "sz y"] by simp
    then show ?thesis using False Cons.IH [of y "hi sz y"] Cons.prems by auto
  qed
qed simp

lemma stops_at:
  assumes B: "between b l bp r h" and S: "lseg (h_ptr h) (last (b # l)) r b"
  shows "stops h bp (last (b # l))" "x \<in> set r \<Longrightarrow> \<not> stops h bp x" "l \<noteq> [] \<Longrightarrow> x \<in> set (b # butlast l) \<Longrightarrow> \<not> stops h bp x"
proof -
  note F = between_facts [OF B]
  let ?p = "last (b # l)"
  have L: "laid (h_size h) (unat b + 8) l" "laid (h_size h) (hi (h_size h) bp) r"
    and P: "l \<noteq> [] \<Longrightarrow> lseg (h_ptr h) b (butlast l) (last l)" using B by (auto simp: between_def laid_append)
  have lt: "x < bp" if "x \<in> set l" for x using F(2) [of x] F(3) [OF that] that pos_unat [of "h_size h x"] by (auto simp: word_less_nat_alt)
  have gt: "bp < x" if "x \<in> set r" for x using F(2) [of bp] F(4) [OF that] pos_unat [of "h_size h bp"] by (auto simp: word_less_nat_alt)
  have b: "b < bp" using F(2) [of bp] by (auto simp: word_less_nat_alt)
  have p: "?p < bp" using lt b by (cases l rule: rev_cases) auto
  have pb: "b \<le> ?p" using F(2) [of "last l"] by (cases l rule: rev_cases) (auto simp: word_le_nat_alt)
  show "stops h bp ?p"
    using S p gt pb by (cases r) (auto simp: stops_def)
  have r0: "unat ?p < hi (h_size h) bp" using p by (simp add: word_less_nat_alt)
  show "\<not> stops h bp x" if "x \<in> set r"
    using lseg_next [OF S L(2) r0, of x] that gt [OF that] b by (auto simp: stops_def)
  show "\<not> stops h bp x" if ne: "l \<noteq> []" and xl: "x \<in> set (b # butlast l)"
  proof -
    obtain l' y where l: "l = l' @ [y]" using ne by (cases l rule: rev_cases) auto
    then have l': "laid (h_size h) (unat b + 8) l'" "laid_end (h_size h) (unat b + 8) l' \<le> unat y" using L(1) by (auto simp: laid_append)
    have "x < y"
    proof (cases "x = b")
      case True
      then show ?thesis using F(2) [of y] l by (auto simp: word_less_nat_alt)
    next
      case False
      then have x: "x \<in> set l'" using xl l by simp
      then show ?thesis using laid_below [OF l'(1) x] l'(2) F(2) [of x] pos_unat [of "h_size h x"] l by (auto simp: word_less_nat_alt)
    qed
    then have "h_ptr h x \<in> set l \<and> x < h_ptr h x"
      using lseg_next [of "h_ptr h" b l' y, OF _ l'(1), of x] P xl l by auto
    then show ?thesis using lt [of "h_ptr h x"] by (auto simp: stops_def)
  qed
qed

lemma free_find_place:
  assumes B: "between b l bp r h" and S: "lseg (h_ptr h) (last (b # l)) r b" and f: "f \<in> set (b # l @ r)" and n: "length (l @ r) + 2 \<le> n"
  shows "free_find n h bp f = Some (last (b # l))"
proof -
  let ?p = "last (b # l)"
  note st = stops_at [OF B S]
  have at_p: "free_find m h bp ?p = Some ?p" if "0 < m" for m using that st(1) by (cases m) (auto simp: free_find_step simp del: free_find.simps(2))
  have P: "l \<noteq> [] \<Longrightarrow> lseg (h_ptr h) b (butlast l) (last l)" using B by (simp add: between_def)
  have low: "free_find m h bp x = Some ?p" if x: "x \<in> set (b # l)" and m: "length l < m" for x m
  proof (cases "x = ?p")
    case False
    then have l: "l \<noteq> []" "x \<in> set (b # butlast l)" using x by (cases l rule: rev_cases; auto)+
    from lseg_suffix [OF P [OF l(1)] l(2)]
    obtain zs where z: "lseg (h_ptr h) x zs ?p" "set zs \<subseteq> set (butlast l)" "length zs \<le> length (butlast l)" using l(1) by auto
    have "list_all (\<lambda>x. \<not> stops h bp x) (x # zs)" using st(3) [OF l(1)] z(2) l(2) by (auto simp: list_all_iff)
    from free_find_walk [OF z(1) this, of m] show ?thesis using z(3) m l(1) at_p by (cases l) auto
  qed (use at_p m in auto)
  show ?thesis
  proof (cases "f \<in> set r")
    case True
    from lseg_suffix [OF S, of f] True
    obtain zs where z: "lseg (h_ptr h) f zs b" "set zs \<subseteq> set r" "length zs \<le> length r" by auto
    have "list_all (\<lambda>x. \<not> stops h bp x) (f # zs)" using st(2) z(2) True by (auto simp: list_all_iff)
    from free_find_walk [OF z(1) this, of n] show ?thesis using z(3) n low by auto
  qed (use f low n in auto)
qed

lemma free_link_frame: "a \<noteq> bp \<Longrightarrow> a \<noteq> p \<Longrightarrow> h_size (free_link bp p h) a = h_size h a"
  by (simp add: free_link_def Let_def set_size_def set_ptr_def)

text \<open>\<open>free\<close> gives the block back to the list and writes no size but those of the block, of \<open>base\<close> and of free blocks.\<close>

lemma ufree_ret:
  assumes H: "heap_ok b ys h" and B: "fresh_block b ys h bp" and n: "length ys + 2 \<le> n"
  shows "\<exists>h' ys'. ufree n (bp + 8) h = Some h' \<and> heap_ok b ys' h' \<and>
    bytes_of (h_size h') ys' = bytes_of (h_size h) ys \<union> {unat bp..<hi (h_size h) bp} \<and>
    (\<forall>a. a \<notin> set (b # bp # ys) \<longrightarrow> h_size h' a = h_size h a) \<and>
    (\<exists>y\<in>set ys'. h_size h bp \<le> h_size h' y) \<and> length ys' \<le> Suc (length ys)"
proof -
  have h: "0 < b" "h_size h b = 0" "lseg (h_ptr h) b ys b" "laid (h_size h) (unat b + 8) ys" "freep h \<in> set (b # ys)"
    using H by (auto simp: heap_ok_def)
  obtain l r where l: "ys = l @ r" "laid (h_size h) (unat b + 8) (l @ bp # r)"
    using laid_place [OF h(4), of bp] B by (auto simp: fresh_block_def)
  let ?p = "last (b # l)"
  have S: "lseg (h_ptr h) ?p r b" and bt: "between b l bp r h"
    using h l(2) ring_split [of "h_ptr h" b l r b] l(1) by (auto simp: between_def)
  obtain r' where r': "between b l bp r' (join_next bp ?p h)" "lseg (h_ptr (join_next bp ?p h)) bp r' b"
      "bytes_of (h_size (join_next bp ?p h)) (l @ bp # r') = bytes_of (h_size h) (l @ bp # r)"
      "h_size h bp \<le> h_size (join_next bp ?p h) bp" "length r' \<le> length r"
    using join_next_between [OF bt refl S] by blast
  obtain ys' where y: "heap_ok b ys' (free_link bp ?p h)" "bytes_of (h_size (free_link bp ?p h)) ys' = bytes_of (h_size h) (l @ bp # r)"
      "\<exists>y\<in>set ys'. h_size (join_next bp ?p h) bp \<le> h_size (free_link bp ?p h) y" "length ys' \<le> Suc (length (l @ r'))"
    using join_prev_between [OF r'(1) refl r'(2)] r'(3) by (auto simp: free_link_joins)
  have big: "\<exists>y\<in>set ys'. h_size h bp \<le> h_size (free_link bp ?p h) y" using y(3) r'(4) order_trans by blast
  have "ufree n (bp + 8) h = Some (free_link bp ?p h)"
    using free_find_place [OF bt S, of "freep h" n] h(5) l(1) n by (simp add: ufree_def Let_def)
  moreover have "h_size (free_link bp ?p h) a = h_size h a" if "a \<notin> set (b # bp # ys)" for a
    using that l(1) by (intro free_link_frame) auto
  ultimately show ?thesis using y(1,2,4) big r'(5) l(1) by (intro exI [of _ "free_link bp ?p h"] exI [of _ ys']) auto
qed

section \<open>Taking a block\<close>

lemma laid_apart:
  assumes "laid sz e (l @ p # r)"
  shows "{unat p..<hi sz p} \<inter> bytes_of sz (l @ r) = {}"
proof -
  have "hi sz x \<le> unat p" if "x \<in> set l" for x using assms laid_below [of sz e l x] that by (auto simp: laid_append)
  moreover have "hi sz p \<le> unat x" if "x \<in> set r" for x using assms laid_above [of sz "hi sz p" r x] that by (auto simp: laid_append)
  ultimately show ?thesis by (fastforce simp: bytes_of_def)
qed

lemma laid_without: "laid sz e (l @ p # r) \<Longrightarrow> laid sz e (l @ r)"
  by (auto simp: laid_append elim!: laid_later)

definition taken_from :: "u32 \<Rightarrow> nat set \<Rightarrow> uheap \<Rightarrow> u32 \<Rightarrow> u32 \<Rightarrow> u32 list \<Rightarrow> uheap \<Rightarrow> bool" where
  "taken_from b A h nu ap ys' h' \<longleftrightarrow> heap_ok b ys' h' \<and> h_size h' ap = nu \<and> fresh_block b ys' h' ap \<and>
     bytes_of (h_size h') ys' \<union> {unat ap..<hi (h_size h') ap} = A \<and>
     (\<forall>a. a \<noteq> b \<and> unat a \<notin> A \<longrightarrow> h_size h' a = h_size h a)"

lemma take_whole_block:
  assumes H: "heap_ok b (l @ p # r) h" and q: "prevp = last (b # l)" and n: "nu = h_size h p"
  shows "take_block nu prevp p h = (p + 8, (set_ptr prevp (h_ptr h p) h)\<lparr>freep := prevp\<rparr>)"
    and "taken_from b (bytes_of (h_size h) (l @ p # r)) h nu p (l @ r) ((set_ptr prevp (h_ptr h p) h)\<lparr>freep := prevp\<rparr>)"
proof -
  show "take_block nu prevp p h = (p + 8, (set_ptr prevp (h_ptr h p) h)\<lparr>freep := prevp\<rparr>)" using n by (simp add: take_block_def)
  have h: "0 < b" "h_size h b = 0" "lseg (h_ptr h) b (l @ p # r) b" "laid (h_size h) (unat b + 8) (l @ p # r)" using H by (auto simp: heap_ok_def)
  have P: "unat b + 8 \<le> unat p" "0 < h_size h p" "hi (h_size h) p < 2 ^ 32" using laid_above [OF h(4), of p] by auto
  have d: "distinct (b # l @ p # r)" using laid_distinct [OF h(4)] laid_above [OF h(4), of b] by auto
  have qr: "prevp \<notin> set r" using q d by (cases l rule: rev_cases) auto
  have S: "lseg (h_ptr h) p r b" "l \<noteq> [] \<Longrightarrow> lseg (h_ptr h) b (butlast l) (last l)"
    using h(3) ring_split [of "h_ptr h" b l "p # r" b] by (auto simp: lseg_append)
  have "prevp \<notin> insert b (set (butlast l))" if "l \<noteq> []" using d that q by (cases l rule: rev_cases) auto
  then have "lseg ((h_ptr h)(prevp := h_ptr h p)) b (l @ r) b"
    unfolding ring_split q [symmetric] using lseg_from [OF S(1) qr] S(2) q by auto
  then show "taken_from b (bytes_of (h_size h) (l @ p # r)) h nu p (l @ r) ((set_ptr prevp (h_ptr h p) h)\<lparr>freep := prevp\<rparr>)"
    using h laid_without [OF h(4)] P laid_apart [OF h(4)] q n by (auto simp: taken_from_def heap_ok_def fresh_block_def set_ptr_def)
qed

lemma take_block_tail:
  assumes H: "heap_ok b (l @ p # r) h" and q: "prevp = last (b # l)" and n: "0 < nu" "nu < h_size h p"
  shows "\<exists>ap h'. take_block nu prevp p h = (ap + 8, h') \<and> taken_from b (bytes_of (h_size h) (l @ p # r)) h nu ap (l @ p # r) h'"
proof -
  let ?ys = "l @ p # r"
  define ap where "ap = header_add p (h_size h p - nu)"
  define h' where "h' = (set_size ap nu (set_size p (h_size h p - nu) h))\<lparr>freep := prevp\<rparr>"
  have t: "take_block nu prevp p h = (ap + 8, h')" using n by (simp add: take_block_def ap_def h'_def set_size_def Let_def)
  have h: "0 < b" "h_size h b = 0" "lseg (h_ptr h) b ?ys b" "laid (h_size h) (unat b + 8) ?ys" using H by (auto simp: heap_ok_def)
  have P: "unat b + 8 \<le> unat p" "hi (h_size h) p < 2 ^ 32" using laid_above [OF h(4), of p] by auto
  have m: "unat (h_size h p - nu) = unat (h_size h p) - unat nu" "unat nu < unat (h_size h p)" "0 < unat nu" "0 < h_size h p - nu"
    using n unat_sub [of nu "h_size h p"] by (auto simp: word_less_nat_alt word_le_nat_alt)
  have ap: "unat ap = unat p + 8 * (unat (h_size h p) - unat nu)" using m(1-3) P(2) unat_header_add [of p "h_size h p - nu"] unfolding ap_def by auto
  have d: "distinct (b # ?ys)" using laid_distinct [OF h(4)] laid_above [OF h(4), of b] by auto
  have in_p: "unat ap \<in> {unat p..<hi (h_size h) p}" using ap m by auto
  have start: "unat x \<in> bytes_of (h_size h) (l @ r)" if "x \<in> set (l @ r)" for x
    using that laid_above [OF h(4), of x] pos_unat [of "h_size h x"] by (force simp: bytes_of_def)
  have "ap \<notin> set (l @ r)" using start [of ap] in_p laid_apart [OF h(4)] by blast
  moreover have "ap \<noteq> p" "ap \<noteq> b" using ap m(1-3) P(1) by auto
  ultimately have a: "ap \<notin> set (l @ r)" "ap \<noteq> p" "ap \<noteq> b" by auto
  have e: "unat p + 8 * unat (h_size h p - nu) = unat ap" "unat ap + 8 * unat nu = hi (h_size h) p" using ap m by auto
  have sz: "h_size h' = (h_size h)(p := h_size h p - nu, ap := nu)" by (simp add: h'_def set_size_def)
  have L: "laid (h_size h') (unat b + 8) ?ys"
    using h(4) a d m(4) e in_p P(2) by (auto simp: sz laid_append elim!: laid_later)
  have Y: "bytes_of (h_size h') ?ys = bytes_of (h_size h) (l @ r) \<union> {unat p..<unat ap}" using a d by (auto simp: sz e)
  have "heap_ok b ?ys h'" using h(1-3) L a d q by (auto simp: heap_ok_def h'_def set_size_def)
  moreover have "{unat ap..<hi (h_size h) p} \<inter> bytes_of (h_size h) (l @ r) = {}"
  proof -
    have "{unat ap..<hi (h_size h) p} \<subseteq> {unat p..<hi (h_size h) p}" using in_p by auto
    then show ?thesis using laid_apart [OF h(4)] by blast
  qed
  then have "fresh_block b ?ys h' ap"
    using in_p P n a unfolding fresh_block_def Y by (auto simp: sz e(2))
  moreover have "bytes_of (h_size h') ?ys \<union> {unat ap..<hi (h_size h') ap} = bytes_of (h_size h) ?ys"
    using in_p unfolding Y by (auto simp: sz e(2))
  moreover have "h_size h' x = h_size h x" if "unat x \<notin> bytes_of (h_size h) ?ys" for x
    using that in_p by (auto simp: sz)
  ultimately show ?thesis using t by (intro exI [of _ ap] exI [of _ h']) (auto simp: taken_from_def sz)
qed

lemma take_block_ok:
  assumes "heap_ok b (l @ p # r) h" and "prevp = last (b # l)" and "0 < nu" and "nu \<le> h_size h p"
  shows "\<exists>ap h' ys'. take_block nu prevp p h = (ap + 8, h') \<and> taken_from b (bytes_of (h_size h) (l @ p # r)) h nu ap ys' h'"
proof (cases "nu = h_size h p")
  case True
  then show ?thesis using take_whole_block [OF assms(1,2)] by blast
next
  case False
  then show ?thesis using take_block_tail [OF assms(1,2,3)] assms(4) by fastforce
qed

section \<open>The loop of malloc\<close>

lemma malloc_walk:
  assumes "lseg (h_ptr h) a xs c" and "list_all (\<lambda>x. h_size h x < nu \<and> x \<noteq> freep h) xs" and "length xs \<le> n"
  shows "malloc_loop n sbrk nu a (h_ptr h a) h k = malloc_loop (n - length xs) sbrk nu (last (a # xs)) c h k"
  using assms
proof (induction xs arbitrary: a n)
  case (Cons x xs)
  obtain m where m: "n = Suc m" using Cons.prems(3) by (cases n) auto
  have "\<not> nu \<le> h_size h x" "x \<noteq> freep h" "h_ptr h a = x" using Cons.prems(1,2) by auto
  then have "malloc_loop n sbrk nu a (h_ptr h a) h k = malloc_loop m sbrk nu x (h_ptr h x) h k" by (simp add: m)
  then show ?case using Cons.IH [of x m] Cons.prems m by (simp del: malloc_loop.simps)
qed simp

text \<open>The free list as seen from \<open>freep\<close>.\<close>

lemma ring_from:
  assumes "lseg nx b ys b" and "distinct (b # ys)" and "f \<in> set (b # ys)"
  shows "\<exists>zs. lseg nx f zs f \<and> set (f # zs) = set (b # ys) \<and> length zs = length ys \<and> f \<notin> set zs"
proof (cases "f = b")
  case True
  then show ?thesis using assms by (intro exI [of _ ys]) auto
next
  case False
  then obtain u v where "ys = u @ f # v" using assms(3) by (auto dest: split_list)
  then show ?thesis using assms by (intro exI [of _ "v @ b # u"]) (auto simp: lseg_append)
qed

lemma ring_before:
  assumes "lseg nx b ys b" and "a \<in> set (b # ys)" and "nx a = x" and "x \<noteq> b"
  shows "\<exists>l r. ys = l @ x # r \<and> a = last (b # l)"
proof -
  obtain m v where m: "b # ys = m @ a # v" using split_list [OF assms(2)] by blast
  have "lseg nx a v b"
    using assms(1) m by (cases m) (auto simp: lseg_append)
  then obtain r where "v = x # r" using assms(3,4) by (cases v) auto
  then show ?thesis using m by (cases m) (auto intro: exI [of _ "[]"] exI [of _ "tl m @ [a]"])
qed

lemma heap_ok_distinct: "heap_ok b ys h \<Longrightarrow> distinct (b # ys)"
  using laid_distinct [of "h_size h" "unat b + 8" ys] laid_above [of "h_size h" "unat b + 8" ys b] by (auto simp: heap_ok_def)

lemma malloc_finds:
  assumes H: "heap_ok b ys h" and nu: "0 < nu" and big: "\<exists>y\<in>set ys. nu \<le> h_size h y" and n: "length ys < n"
  shows "\<exists>ap h' ys'. malloc_loop n sbrk nu (freep h) (h_ptr h (freep h)) h k = Some (ap + 8, h', k) \<and>
    taken_from b (bytes_of (h_size h) ys) h nu ap ys' h'"
proof -
  have h: "lseg (h_ptr h) b ys b" "freep h \<in> set (b # ys)" "h_size h b = 0" using H by (auto simp: heap_ok_def)
  obtain zs where z: "lseg (h_ptr h) (freep h) zs (freep h)" "set (freep h # zs) = set (b # ys)" "length zs = length ys" "freep h \<notin> set zs"
    using ring_from [OF h(1) heap_ok_distinct [OF H] h(2)] by blast
  have "\<exists>x\<in>set (zs @ [freep h]). nu \<le> h_size h x" using big z(2) by auto
  then obtain us x vs where u: "zs @ [freep h] = us @ x # vs" "nu \<le> h_size h x" "\<forall>w\<in>set us. \<not> nu \<le> h_size h w"
    using split_list_first_prop [of "zs @ [freep h]" "\<lambda>x. nu \<le> h_size h x"] by blast
  have us: "set us \<subseteq> set zs" "length us \<le> length ys" using u(1) z(3) by (cases vs rule: rev_cases; auto)+
  have S: "lseg (h_ptr h) (freep h) us x" using z(1) u(1) by (cases vs rule: rev_cases) (auto simp: lseg_append)
  let ?a = "last (freep h # us)"
  have nx: "h_ptr h ?a = x" using S by (cases us rule: rev_cases) (auto simp: lseg_append)
  have "?a \<in> set (b # ys)" using us(1) z(2) h(2) by (cases us rule: rev_cases) auto
  moreover have "x \<noteq> b" using u(2) nu h(3) by auto
  ultimately obtain l r where l: "ys = l @ x # r" "?a = last (b # l)" using ring_before [OF h(1) _ nx] by blast
  obtain m where m: "n - length us = Suc m" using n us(2) by (cases "n - length us") auto
  have "list_all (\<lambda>w. h_size h w < nu \<and> w \<noteq> freep h) us" using u(3) us(1) z(4) by (auto simp: list_all_iff)
  then have "malloc_loop n sbrk nu (freep h) (h_ptr h (freep h)) h k = malloc_loop (Suc m) sbrk nu ?a x h k"
    using malloc_walk [OF S, of nu n sbrk k] n us(2) m by simp
  moreover obtain ap h' ys' where "take_block nu ?a x h = (ap + 8, h')" "taken_from b (bytes_of (h_size h) ys) h nu ap ys' h'"
    using take_block_ok [of b l x r h ?a nu] H l nu u(2) by auto
  ultimately show ?thesis using u(2) by auto
qed

section \<open>Memory from the system\<close>

definition core_units :: "u32 \<Rightarrow> u32" where
  "core_units nu = (if nu < 4096 then 4096 else nu)"

lemma core_units_ge: "0 < core_units nu" "nu \<le> core_units nu"
  by (auto simp: core_units_def word_gt_0)

text \<open>What \<open>sbrk\<close> promises: \<open>-1\<close>, or the address of as much memory, behind \<open>base\<close> and not yet in the free list.\<close>

definition sbrk_room :: "u32 \<Rightarrow> u32 list \<Rightarrow> uheap \<Rightarrow> u32 \<Rightarrow> u32 \<Rightarrow> bool" where
  "sbrk_room b ys h nu q \<longleftrightarrow> q = - 1 \<or> unat b + 8 \<le> unat q \<and> unat q + 8 * unat nu < 2 ^ 32 \<and>
     {unat q..<unat q + 8 * unat nu} \<inter> bytes_of (h_size h) ys = {}"

lemma morecore_ok:
  assumes H: "heap_ok b ys h" and k: "sbrk (core_units nu * 8) k = (q, k')" and q: "q \<noteq> - 1" and R: "sbrk_room b ys h (core_units nu) q"
    and n: "length ys + 2 \<le> n"
  shows "\<exists>h' ys'. morecore n sbrk nu h k = Some (freep h', h', k') \<and> heap_ok b ys' h' \<and>
    bytes_of (h_size h') ys' = bytes_of (h_size h) ys \<union> {unat q..<unat q + 8 * unat (core_units nu)} \<and>
    (\<forall>a. a \<notin> set (b # q # ys) \<longrightarrow> h_size h' a = h_size h a) \<and> (\<exists>y\<in>set ys'. nu \<le> h_size h' y) \<and> length ys' \<le> Suc (length ys)"
proof -
  let ?h = "set_size q (core_units nu) h"
  have room: "unat b + 8 \<le> unat q" "unat q + 8 * unat (core_units nu) < 2 ^ 32"
      "{unat q..<unat q + 8 * unat (core_units nu)} \<inter> bytes_of (h_size h) ys = {}" using R q by (auto simp: sbrk_room_def)
  note c = core_units_ge [of nu]
  have L: "laid (h_size h) (unat b + 8) ys" using H by (simp add: heap_ok_def)
  have "unat q \<in> {unat q..<unat q + 8 * unat (core_units nu)}" using pos_unat [OF c(1)] by simp
  moreover have "unat q \<in> bytes_of (h_size h) ys" if "q \<in> set ys"
    using that laid_above [OF L that] pos_unat [of "h_size h q"] by (force simp: bytes_of_def)
  ultimately have "q \<notin> set ys" using room(3) by blast
  moreover have "q \<noteq> b" using room(1) by auto
  ultimately have qy: "q \<notin> set (b # ys)" by simp
  have "heap_ok b ys ?h" using H qy by (auto simp: heap_ok_def set_size_def)
  moreover have "fresh_block b ys ?h q" using room c qy by (auto simp: fresh_block_def set_size_def)
  ultimately obtain h' ys' where "ufree n (q + 8) ?h = Some h'" "heap_ok b ys' h'"
      "bytes_of (h_size h') ys' = bytes_of (h_size ?h) ys \<union> {unat q..<hi (h_size ?h) q}"
      "\<forall>a. a \<notin> set (b # q # ys) \<longrightarrow> h_size h' a = h_size ?h a" "\<exists>y\<in>set ys'. h_size ?h q \<le> h_size h' y" "length ys' \<le> Suc (length ys)"
    using ufree_ret [of b ys ?h q n] n by blast
  moreover have "morecore n sbrk nu h k = map_option (\<lambda>h. (freep h, h, k')) (ufree n (q + 8) ?h)"
    using k q by (simp add: morecore_def core_units_def Let_def)
  ultimately show ?thesis using qy
    by (intro exI [of _ h'] exI [of _ ys']) (auto simp: set_size_def intro!: bexI order_trans [OF c(2)])
qed

lemma morecore_fails:
  "sbrk (core_units nu * 8) k = (- 1, k') \<Longrightarrow> morecore n sbrk nu h k = Some (0, h, k')"
  by (simp add: morecore_def core_units_def Let_def)

text \<open>\<open>malloc\<close> when no block is large enough: one round of the list, then memory from the system.\<close>

lemma malloc_turns:
  assumes H: "heap_ok b ys h" and nu: "0 < nu" and small: "\<not> (\<exists>y\<in>set ys. nu \<le> h_size h y)" and n: "length ys < n"
  shows "malloc_loop n sbrk nu (freep h) (h_ptr h (freep h)) h k =
    (case morecore (n - length ys - 1) sbrk nu h k of
       None \<Rightarrow> None
     | Some (p, h, k) \<Rightarrow> if p = 0 then Some (0, h, k) else malloc_loop (n - length ys - 1) sbrk nu p (h_ptr h p) h k)"
proof -
  have h: "lseg (h_ptr h) b ys b" "freep h \<in> set (b # ys)" "h_size h b = 0" using H by (auto simp: heap_ok_def)
  obtain zs where z: "lseg (h_ptr h) (freep h) zs (freep h)" "set (freep h # zs) = set (b # ys)" "length zs = length ys" "freep h \<notin> set zs"
    using ring_from [OF h(1) heap_ok_distinct [OF H] h(2)] by blast
  have sm: "h_size h x < nu" if "x \<in> set (freep h # zs)" for x using that small h(3) nu unfolding z(2) by (auto simp: not_le)
  have "list_all (\<lambda>x. h_size h x < nu \<and> x \<noteq> freep h) zs" using sm z(4) by (auto simp: list_all_iff)
  then have w: "malloc_loop n sbrk nu (freep h) (h_ptr h (freep h)) h k =
      malloc_loop (n - length ys) sbrk nu (last (freep h # zs)) (freep h) h k"
    using malloc_walk [OF z(1), of nu n sbrk k] n z(3) by simp
  obtain m where m: "n - length ys = Suc m" using n by (cases "n - length ys") auto
  have "\<not> nu \<le> h_size h (freep h)" using sm [of "freep h"] by simp
  then show ?thesis unfolding w m diff_Suc_1 by simp
qed

lemma nunits_exact: "nbytes \<le> 0x80000000 \<Longrightarrow> unat (nunits_of nbytes) = (unat nbytes + 7) div 8 + 1"
proof -
  assume "nbytes \<le> 0x80000000"
  then have n: "unat nbytes \<le> 2 ^ 31" by (simp add: word_le_nat_alt)
  have "unat (nbytes + 7) = unat nbytes + 7" using n by (simp add: unat_word_ariths)
  moreover have "(unat nbytes + 7) div 8 + 1 < 2 ^ 32" using n by simp
  ultimately show ?thesis by (simp add: nunits_of_def unat_word_ariths unat_div)
qed

lemma heap_ok_init:
  assumes "0 < b"
  shows "heap_ok b [] (set_size b 0 ((set_ptr b b h)\<lparr>freep := b\<rparr>))"
  using assms by (simp add: heap_ok_def set_size_def set_ptr_def)

lemma heap_ok_nonzero: "heap_ok b ys h \<Longrightarrow> freep h \<noteq> 0"
  using laid_above [of "h_size h" "unat b + 8" ys "freep h"] by (auto simp: heap_ok_def)

definition malloc_spec :: "u32 \<Rightarrow> u32 list \<Rightarrow> uheap \<Rightarrow> u32 \<Rightarrow> u32 \<Rightarrow> u32 \<Rightarrow> uheap \<Rightarrow> bool" where
  "malloc_spec b ys h nu q r h' \<longleftrightarrow>
     (if \<exists>y\<in>set ys. nu \<le> h_size h y then \<exists>ap ys'. r = ap + 8 \<and> taken_from b (bytes_of (h_size h) ys) h nu ap ys' h'
      else if q = - 1 then r = 0 \<and> h' = h
      else \<exists>ap ys'. r = ap + 8 \<and>
        taken_from b (bytes_of (h_size h) ys \<union> {unat q..<unat q + 8 * unat (core_units nu)}) h nu ap ys' h')"

lemma malloc_loop_spec:
  assumes H: "heap_ok b ys h" and nu: "0 < nu" and k: "sbrk (core_units nu * 8) k = (q, k')"
    and R: "sbrk_room b ys h (core_units nu) q" and n: "2 * length ys + 5 \<le> n"
  shows "\<exists>r h' k'. malloc_loop n sbrk nu (freep h) (h_ptr h (freep h)) h k = Some (r, h', k') \<and> malloc_spec b ys h nu q r h'"
proof (cases "\<exists>y\<in>set ys. nu \<le> h_size h y")
  case True
  then show ?thesis using malloc_finds [OF H nu True, of n sbrk k] n by (fastforce simp: malloc_spec_def)
next
  case small: False
  note turn = malloc_turns [OF H nu small, of n sbrk k]
  show ?thesis
  proof (cases "q = - 1")
    case True
    then show ?thesis using turn morecore_fails [of sbrk nu k k'] k small n by (auto simp: malloc_spec_def)
  next
    case False
    let ?m = "n - length ys - 1" and ?A = "bytes_of (h_size h) ys \<union> {unat q..<unat q + 8 * unat (core_units nu)}"
    have fuel: "length ys + 2 \<le> ?m" using n by linarith
    obtain h1 ys1 where m: "morecore ?m sbrk nu h k = Some (freep h1, h1, k')" "heap_ok b ys1 h1" "bytes_of (h_size h1) ys1 = ?A"
        "\<forall>a. a \<notin> set (b # q # ys) \<longrightarrow> h_size h1 a = h_size h a" "\<exists>y\<in>set ys1. nu \<le> h_size h1 y" "length ys1 \<le> Suc (length ys)"
      using morecore_ok [where sbrk = sbrk and nu = nu and k = k and n = ?m, OF H k False R fuel] by blast
    have fuel1: "length ys1 < ?m" using n m(6) by linarith
    obtain ap h' ys' where f: "malloc_loop ?m sbrk nu (freep h1) (h_ptr h1 (freep h1)) h1 k' = Some (ap + 8, h', k')"
        "taken_from b ?A h1 nu ap ys' h'"
      using malloc_finds [OF m(2) nu m(5) fuel1, of sbrk k'] m(3) by auto
    have "unat y \<in> bytes_of (h_size h) ys" if "y \<in> set ys" for y
      using that H laid_above [of "h_size h" "unat b + 8" ys y] pos_unat [of "h_size h y"] by (force simp: heap_ok_def bytes_of_def)
    moreover have "unat q \<in> ?A" using pos_unat [OF core_units_ge(1) [of nu]] by simp
    ultimately have "h_size h1 a = h_size h a" if "a \<noteq> b" "unat a \<notin> ?A" for a using that m(4) by auto
    then have "taken_from b ?A h nu ap ys' h'" using f(2) by (auto simp: taken_from_def)
    then show ?thesis using turn m(1) f(1) heap_ok_nonzero [OF m(2)] small False n by (auto simp: malloc_spec_def)
  qed
qed

section \<open>Properties\<close>

text \<open>
  C13. \<open>free\<close> gives a block back, exactly. On a well-formed free list, from wherever \<open>freep\<close> is, it ends after at most two steps more
  than the list has blocks; the list stays well formed, with neighbours joined or not; the free bytes are the old ones and those of
  the block; and the sizes of all other blocks in use are as before.
\<close>

theorem free_returns_block:
  assumes "heap_ok b ys h" and "fresh_block b ys h bp" and "length ys + 2 \<le> n"
  shows "\<exists>h' ys'. ufree n (bp + 8) h = Some h' \<and> heap_ok b ys' h' \<and>
    bytes_of (h_size h') ys' = bytes_of (h_size h) ys \<union> {unat bp..<unat bp + 8 * unat (h_size h bp)} \<and>
    (\<forall>a. a \<notin> set (b # bp # ys) \<longrightarrow> h_size h' a = h_size h a)"
  using ufree_ret [OF assms] by blast

text \<open>
  C12. \<open>malloc\<close> ends and takes its block from the free memory. On a well-formed list, or at its first call, with \<open>sbrk\<close> answering as
  it promises: where a free block is large enough, or the system gives memory, the block returned has the units for the request and
  its header, lay in the free or the new memory, and is no longer free, and nothing else is taken; otherwise the result is null and the
  list is unchanged. Requests are up to two gigabytes, for which the number of units does not wrap.
\<close>

theorem malloc_takes_block:
  assumes "h0 = (if freep h = 0 then set_size b 0 ((set_ptr b b h)\<lparr>freep := b\<rparr>) else h)" and "heap_ok b ys h0"
    and "nbytes \<le> 0x80000000" and "sbrk (core_units (nunits_of nbytes) * 8) k = (q, k')"
    and "sbrk_room b ys h0 (core_units (nunits_of nbytes)) q" and "2 * length ys + 5 \<le> n"
  shows "\<exists>r h' k''. umalloc n b sbrk nbytes h k = Some (r, h', k'') \<and> malloc_spec b ys h0 (nunits_of nbytes) q r h' \<and>
    unat nbytes + 8 \<le> 8 * unat (nunits_of nbytes)"
proof -
  note e = nunits_exact [OF assms(3)]
  then have "0 < nunits_of nbytes" by (simp add: word_less_nat_alt)
  from malloc_loop_spec [where sbrk = sbrk and k = k, OF assms(2) this assms(4,5,6)]
  show ?thesis using e assms(1) by (auto simp: umalloc_def Let_def)
qed

text \<open>A list with a block of two units and one in use behind it, and a system without memory.\<close>

definition heap_demo :: uheap where
  "heap_demo = \<lparr>h_ptr = (\<lambda>_. 0)(0x100 := 0x200, 0x200 := 0x100), h_size = (\<lambda>_. 0)(0x200 := 2, 0x210 := 3), freep = 0x100\<rparr>"

lemma heap_demo_ok: "heap_ok 0x100 [0x200] heap_demo" "fresh_block 0x100 [0x200] heap_demo 0x210"
  by (auto simp: heap_ok_def fresh_block_def heap_demo_def)

theorem free_returns_block_witness:
  "\<exists>h' ys'. ufree 3 (0x210 + 8) heap_demo = Some h' \<and> heap_ok 0x100 ys' h' \<and> bytes_of (h_size h') ys' = {0x200..<0x228}"
proof -
  have "bytes_of (h_size heap_demo) [0x200] \<union> {unat (0x210 :: u32)..<unat (0x210 :: u32) + 8 * unat (h_size heap_demo 0x210)} = {0x200..<0x228}"
    by (auto simp: heap_demo_def)
  then show ?thesis using free_returns_block [OF heap_demo_ok, of 3] by fastforce
qed

theorem malloc_takes_block_witness:
  "\<exists>r h' k''. umalloc 7 0x100 (\<lambda>_ k. (- 1, k)) 5 heap_demo () = Some (r, h', k'') \<and>
    malloc_spec 0x100 [0x200] heap_demo 2 (- 1) r h' \<and> unat (5 :: u32) + 8 \<le> 8 * unat (2 :: u32)"
proof -
  have "nunits_of 5 = 2" by (simp add: nunits_of_def)
  then show ?thesis
    using malloc_takes_block [of heap_demo heap_demo "0x100" "[0x200]" 5 "\<lambda>_ k. (- 1, k)" "()" "- 1" "()" 7] heap_demo_ok(1)
    by (simp add: heap_demo_def sbrk_room_def)
qed

end
