(* ===== verification/Spec2Isabelle.thy ===== *)
theory Spec2Isabelle
  imports Trap Crash Grep Ulib ShParse Umalloc
begin

text \<open>
  A verification development of the operating system under \<open>src/xv6\<close>: the xv6 teaching kernel for 32-bit x86, extended with a trace of
  the system calls, message queues between processes and containers.

  \<^bold>\<open>The program.\<close> User programs enter the kernel by a trap; \<open>trap.c\<close> and \<open>syscall.c\<close> dispatch to the handlers of \<open>sysproc.c\<close> and
  \<open>sysfile.c\<close>. Those work on processes, messages and containers (\<open>proc.c\<close>) and on open files (\<open>file.c\<close>), which are pipes (\<open>pipe.c\<close>),
  devices such as the console (\<open>console.c\<close>, \<open>kbd.c\<close>, \<open>uart.c\<close>) or inodes of the file system (\<open>fs.c\<close>). The file system writes its blocks
  through the log (\<open>log.c\<close>) to the buffer cache (\<open>bio.c\<close>) and the disk (\<open>memide.c\<close>). Memory comes from the page allocator (\<open>kalloc.c\<close>) and
  is mapped by page tables (\<open>vm.c\<close>). All of it is protected by spin locks (\<open>spinlock.c\<close>) and sleep locks (\<open>sleeplock.c\<close>).

  \<^bold>\<open>How the code is modelled.\<close> An operation of the kernel is a function from a state and a tape of interference to a result
  (theory \<open>Prelude\<close>): a value with the new state, a panic with its message, a fault for an access outside of an object, or stuck
  for a wait that does not end. Where the code gives up the processor, in \<open>sched\<close>, the next entry of the tape is applied to the state, and stands
  for all that other processes do meanwhile; a statement for every tape holds for every schedule. Spin locks are modelled twice: as they are in
  \<open>spinlock.c\<close>, on several processors (\<open>Spinlock\<close>), and for the rest of the kernel as the list of the locks held (\<open>Machine\<close>), with a
  refinement between the two. The state is a chain of records, one layer for each component, so that an operation says by its type
  which part of the state it may use. Integers keep their width; pointers to table entries are indices.
  User programs are pure functions of their input, with the system calls they make as parameters.

  \<^bold>\<open>The theories, from the bottom up.\<close>
  \<^item> \<open>Prelude\<close>: the monad, its calculi of preconditions, the interfaces of queues and of inductive invariants.
  \<^item> \<open>Spinlock\<close>, \<open>Machine\<close>: \<open>spinlock.c\<close>. Mutual exclusion under every interleaving, the contract of \<open>acquire\<close> and \<open>release\<close>, and the
    refinement to the list of held locks.
  \<^item> \<open>Cstring\<close>, \<open>Console\<close>: \<open>string.c\<close> and the output half of \<open>console.c\<close> and \<open>uart.c\<close>. The word-wise fill equals the byte-wise one;
    moving overlapping memory.
  \<^item> \<open>Kalloc\<close>, \<open>VM\<close>: \<open>kalloc.c\<close> and \<open>vm.c\<close> on byte memory. The list of free pages is a stack of distinct pages; \<open>mappages\<close> maps its page only.
  \<^item> \<open>Proc\<close>, \<open>ProcLife\<close>: \<open>proc.c\<close>. No lost wakeup, a round of the scheduler, the outcomes of \<open>wait\<close> and \<open>kill\<close>, and the invariant of the process table.
  \<^item> \<open>Trace\<close>, \<open>Ipc\<close>, \<open>Container\<close>: the extensions, also in \<open>proc.c\<close>. Order of the messages, refinement of the table of containers to a set, and the
    behaviour on the boundaries, where the code has faults.
  \<^item> \<open>Bytes\<close>, \<open>Sleeplock\<close>, \<open>Bio\<close>: blocks of bytes, \<open>sleeplock.c\<close>, \<open>bio.c\<close> and \<open>memide.c\<close>. Reading and writing blocks through the cache, and the ring
    of buffers as a list in the order of last use.
  \<^item> \<open>Log\<close>, \<open>Session\<close>, \<open>Crash\<close>: \<open>log.c\<close>. The room in the log, and that a crash after any of the disk writes of a commit, followed by
    recovery, leaves the old disk or the whole transaction.
  \<^item> \<open>Fs\<close>, \<open>Pipe\<close>, \<open>File\<close>: \<open>fs.c\<close>, \<open>pipe.c\<close>, \<open>file.c\<close>. Round trips of inodes and of bytes through a pipe, and the splitting of paths.
  \<^item> \<open>Uaccess\<close>, \<open>Sysproc\<close>, \<open>Exec\<close>, \<open>Sysfile\<close>, \<open>Kbd\<close>, \<open>ConsIn\<close>, \<open>Trap\<close>: system call arguments, the handlers, \<open>exec.c\<close>, keyboard and console input, dispatch
    and traps. These are definitions, the composition of the layers below; no property of their own is stated.
  \<^item> \<open>Ulib\<close>, \<open>Umalloc\<close>, \<open>Grep\<close>, \<open>ShParse\<close>: \<open>ulib.c\<close>, \<open>printf.c\<close>, \<open>umalloc.c\<close>, \<open>grep.c\<close> and the parser of \<open>sh.c\<close>. Numbers survive printing and reading; the allocator
    takes and gives back exactly the bytes of its blocks; the matcher decides the language of its expression; the parser ends on every line and its
    words are cut out intact.

  \<^bold>\<open>Loops and fuel.\<close> Loops over tables are recursion on lists of indices. The walks along the ring of buffers have \<open>NBUF\<close> steps, which is its
  length; \<open>freerange\<close> has as many as there are pages. Loops that wait run over the tape, and are stuck when it ends. The parser needs \<open>4 * n + 5\<close> calls
  on a line of \<open>n\<close> bytes, as four calls lie between two calls of \<open>parseline\<close> and a byte is read in between; \<open>grep\<close> needs one round more than its file has bytes;
  \<open>free\<close> needs two steps more than the list has blocks and \<open>malloc\<close> five more than twice as many, as it goes round the list at most twice. That this is enough is part of
  the properties.

  \<^bold>\<open>Not modelled.\<close> Assembly (\<open>swtch.S\<close>, \<open>trapasm.S\<close>, \<open>vectors.S\<close>, \<open>usys.S\<close>, the boot code) and the set-up of the hardware (\<open>main.c\<close>, \<open>bootmain.c\<close>, \<open>mp.c\<close>,
  \<open>lapic.c\<close>, \<open>ioapic.c\<close>, \<open>picirq.c\<close>, \<open>seginit\<close>, \<open>uartinit\<close>, \<open>tvinit\<close>, \<open>idtinit\<close>), whose meaning is in the machine and not in the sources. The driver \<open>ide.c\<close>, for the same reason:
  the disk is that of \<open>memide.c\<close>, the other implementation of the interface. Initialisations that only set up a lock (\<open>pinit\<close>, \<open>fileinit\<close>). The execution of
  commands in \<open>sh.c\<close>, the small commands and \<open>stat\<close> of \<open>ulib.c\<close>, which are sequences of system calls; the test programs; and \<open>mkfs.c\<close>, which runs on the host and works
  through its file operations. The handlers of system calls are modelled, but properties of their composition, such as the reference counts of files over whole
  calls, are not shown. Interference is a list of state transformers: what other processes do is bounded in the theorems by hypotheses on the tape, not derived from
  running them.
\<close>

end
